theory Spec2Isabelle
  imports Complex_Main
begin

section \<open>Numbers, points and the helpers of util.go\<close>

text \<open>
  The kernel computes on \<open>float64\<close>. A \<open>float64\<close> is modelled by the real number it
  denotes: finite values only, arithmetic without rounding. Where the source divides, the
  model says what a zero divisor gives in Go (NaN or an infinity, which no comparison and no
  tolerance test accepts) instead of using HOL's \<open>x / 0 = 0\<close>.

  A run-time panic of Go is a value: \<open>IndexOutOfRange\<close> for a slice or array index outside
  its bounds, \<open>Panic msg\<close> for an explicit \<open>panic(msg)\<close>.
\<close>

type_synonym float64 = real

datatype error = IndexOutOfRange | Panic string

definition bindE :: "error + 'a \<Rightarrow> ('a \<Rightarrow> error + 'b) \<Rightarrow> error + 'b" where
  "bindE m f = (case m of Inl e \<Rightarrow> Inl e | Inr v \<Rightarrow> f v)"

text \<open>
  Modelled from the spec: \<open>Point\<close> is declared in util.go, which is not part of the
  sources at hand. The spec describes it as an (x,y) value type with vector algebra
  (add, sub, scale, dot, perp-dot, ...); the methods below are the ones the path code calls.
\<close>

datatype Point = Point (X: float64) (Y: float64)

definition Point_Add :: "Point \<Rightarrow> Point \<Rightarrow> Point" where
  "Point_Add p q = Point (X p + X q) (Y p + Y q)"

definition Point_Sub :: "Point \<Rightarrow> Point \<Rightarrow> Point" where
  "Point_Sub p q = Point (X p - X q) (Y p - Y q)"

definition Point_Mul :: "Point \<Rightarrow> float64 \<Rightarrow> Point" where
  "Point_Mul p f = Point (f * X p) (f * Y p)"

definition Point_Dot :: "Point \<Rightarrow> Point \<Rightarrow> float64" where
  "Point_Dot p q = X p * X q + Y p * Y q"

definition Point_PerpDot :: "Point \<Rightarrow> Point \<Rightarrow> float64" where
  "Point_PerpDot p q = X p * Y q - Y p * X q"

definition Point_Length :: "Point \<Rightarrow> float64" where
  "Point_Length p = sqrt (X p * X p + Y p * Y p)"

text \<open>
  Modelled from the spec: the shared tolerance predicate of util.go. The spec calls
  \<open>Epsilon\<close> an externally configurable equality tolerance and says that all equality
  comparisons go through the shared predicate; \<open>Equal\<close> accepts two numbers that differ by
  at most the tolerance, \<open>Point_Equals\<close> two points whose coordinates do.
\<close>

definition Equal :: "float64 \<Rightarrow> float64 \<Rightarrow> float64 \<Rightarrow> bool" where
  "Equal eps a b = (\<bar>a - b\<bar> \<le> eps)"

definition Point_Equals :: "float64 \<Rightarrow> Point \<Rightarrow> Point \<Rightarrow> bool" where
  "Point_Equals eps p q = (Equal eps (X p) (X q) \<and> Equal eps (Y p) (Y q))"

text \<open>
  The remaining helpers of util.go that the modelled functions call are not described by
  the spec. They are parameters of the model, collected in one record together with the
  tolerance; every theorem below holds for whatever these functions compute.
  \<open>solveQuadraticFormula\<close> reports an absent root as NaN in the source and as \<open>None\<close> here.
\<close>

record util =
  Epsilon :: float64
  angleNorm :: "float64 \<Rightarrow> float64"
  angleEqual :: "float64 \<Rightarrow> float64 \<Rightarrow> bool"
  angleBetween :: "float64 \<Rightarrow> float64 \<Rightarrow> float64 \<Rightarrow> bool"
  angleTime :: "float64 \<Rightarrow> float64 \<Rightarrow> float64 \<Rightarrow> float64"
  Interval :: "float64 \<Rightarrow> float64 \<Rightarrow> float64 \<Rightarrow> bool"
  IntervalExclusive :: "float64 \<Rightarrow> float64 \<Rightarrow> float64 \<Rightarrow> bool"
  Point_AngleBetween :: "Point \<Rightarrow> Point \<Rightarrow> float64"
  Point_Angle :: "Point \<Rightarrow> float64"
  solveQuadraticFormula :: "float64 \<Rightarrow> float64 \<Rightarrow> float64 \<Rightarrow> float64 option \<times> float64 option"

section \<open>The packed command stream\<close>

abbreviation (input) MoveToCmd :: float64 where "MoveToCmd \<equiv> 1"
abbreviation (input) LineToCmd :: float64 where "LineToCmd \<equiv> 2"
abbreviation (input) QuadToCmd :: float64 where "QuadToCmd \<equiv> 4"
abbreviation (input) CubeToCmd :: float64 where "CubeToCmd \<equiv> 8"
abbreviation (input) ArcToCmd :: float64 where "ArcToCmd \<equiv> 16"
abbreviation (input) CloseCmd :: float64 where "CloseCmd \<equiv> 32"

definition cmdLens :: "nat list" where
  "cmdLens = [4, 4, 6, 8, 8, 4]"

text \<open>
  \<open>cmdLen\<close> reads eight bits of the exponent field of its argument:
  \<open>uint8((math.Float64bits(cmd) & 0x0FF0000000000000) >> 52) + 1\<close>. The biased exponent
  of a finite double \<open>x\<close> is 0 for zero and subnormal numbers and
  \<open>\<lfloor>log\<^sub>2 |x|\<rfloor> + 1023\<close> otherwise; the mask keeps its low eight bits and the
  \<open>uint8\<close> addition wraps at 256. The index can leave the six-element table, where Go
  panics: \<open>cmdLen_ok\<close> is the bounds check of \<open>cmdLens[n]\<close>.
\<close>

definition float64_exponent :: "float64 \<Rightarrow> nat" where
  "float64_exponent x =
     (if \<bar>x\<bar> < 2 powr (- 1022) then 0 else nat (\<lfloor>log 2 \<bar>x\<bar>\<rfloor> + 1023))"

definition cmdIndex :: "float64 \<Rightarrow> nat" where
  "cmdIndex cmd = (float64_exponent cmd mod 256 + 1) mod 256"

definition cmdLen_ok :: "float64 \<Rightarrow> bool" where
  "cmdLen_ok cmd = (cmdIndex cmd < length cmdLens)"

definition cmdLen :: "float64 \<Rightarrow> nat" where
  "cmdLen cmd = cmdLens ! cmdIndex cmd"

definition toArcFlags :: "float64 \<Rightarrow> bool \<times> bool" where
  "toArcFlags f = (f = 1 \<or> f = 3, f = 2 \<or> f = 3)"

definition fromArcFlags :: "bool \<Rightarrow> bool \<Rightarrow> float64" where
  "fromArcFlags large sweep = (if large then 1 else 0) + (if sweep then 2 else 0)"

text \<open>A path is its data slice \<open>p.d\<close>; the struct has no other field.\<close>

type_synonym Path = "float64 list"


section \<open>Position queries\<close>

definition Pos_path :: "Path \<Rightarrow> error + Point" where
  "Pos_path d =
     (if 0 < length d then
        (if 3 \<le> length d then Inr (Point (d ! (length d - 3)) (d ! (length d - 2)))
         else Inl IndexOutOfRange)
      else Inr (Point 0 0))"

text \<open>
  \<open>StartPos\<close> walks backwards from the end of the data: the last value of a command slot
  is read as the command, and \<open>i -= cmdLen(cmd)\<close> jumps to the end of the slot before.
  An index that falls below zero ends the loop like zero does.
\<close>

function StartPos_from :: "Path \<Rightarrow> nat \<Rightarrow> error + Point" where
  "StartPos_from d i =
     (if 0 < i then
        (if length d < i then Inl IndexOutOfRange
         else if d ! (i - 1) = MoveToCmd then
           (if 3 \<le> i then Inr (Point (d ! (i - 3)) (d ! (i - 2))) else Inl IndexOutOfRange)
         else if \<not> cmdLen_ok (d ! (i - 1)) then Inl IndexOutOfRange
         else if cmdLen (d ! (i - 1)) \<le> i then StartPos_from d (i - cmdLen (d ! (i - 1)))
         else Inr (Point 0 0))
      else Inr (Point 0 0))"
  by pat_completeness auto
termination
proof (relation "measure snd")
  show "wf (measure snd)" by simp
next
  fix d :: Path and i :: nat
  assume "0 < i" and "\<not> \<not> cmdLen_ok (d ! (i - 1))"
  then have "cmdIndex (d ! (i - 1)) < 6"
    by (simp add: cmdLen_ok_def cmdLens_def)
  then have "0 < cmdLen (d ! (i - 1))"
    by (auto simp: cmdLen_def cmdLens_def nth_Cons')
  with \<open>0 < i\<close> show "((d, i - cmdLen (d ! (i - 1))), (d, i)) \<in> measure snd"
    by simp
qed

declare StartPos_from.simps [simp del]

definition StartPos :: "Path \<Rightarrow> error + Point" where
  "StartPos d = StartPos_from d (length d)"

section \<open>The mutators\<close>

text \<open>
  A mutator changes \<open>p.d\<close> in place; the model takes the data and returns the new data,
  or the panic that stops the call.
\<close>

definition MoveTo :: "Path \<Rightarrow> float64 \<Rightarrow> float64 \<Rightarrow> error + Path" where
  "MoveTo d x y =
     (if 0 < length d \<and> d ! (length d - 1) = MoveToCmd then
        (if 3 \<le> length d then Inr (d[length d - 3 := x, length d - 2 := y])
         else Inl IndexOutOfRange)
      else Inr (d @ [MoveToCmd, x, y, MoveToCmd]))"

text \<open>
  Every drawing command ends with the same lines before it appends its slot: on empty data
  \<open>p.MoveTo(0.0, 0.0)\<close>, after a Close \<open>p.MoveTo\<close> to the end point of the Close.
\<close>

definition openSubpath :: "Path \<Rightarrow> error + Path" where
  "openSubpath d =
     (if length d = 0 then MoveTo d 0 0
      else if d ! (length d - 1) = CloseCmd then
        (if 3 \<le> length d then MoveTo d (d ! (length d - 3)) (d ! (length d - 2))
         else Inl IndexOutOfRange)
      else Inr d)"

text \<open>\<open>math.Signbit\<close> of a real number; the model has no negative zero.\<close>

definition Signbit :: "float64 \<Rightarrow> bool" where
  "Signbit x = (x < 0)"

text \<open>\<open>math.IsInf\<close>: a real number is never an infinity.\<close>

definition IsInf :: "float64 \<Rightarrow> bool" where
  "IsInf x = False"

text \<open>
  In \<open>LineTo\<close> the quotient \<open>div/length\<close> is NaN or an infinity when \<open>length\<close> is zero, and
  \<open>Equal\<close> rejects both: the parallel test asks for a nonzero divisor.
\<close>

definition LineTo :: "util \<Rightarrow> Path \<Rightarrow> float64 \<Rightarrow> float64 \<Rightarrow> error + Path" where
  "LineTo u d x y =
     bindE (Pos_path d) (\<lambda>start.
       let endp = Point x y; n = length d;
           appended = bindE (openSubpath d) (\<lambda>d'. Inr (d' @ [LineToCmd, X endp, Y endp, LineToCmd]))
       in
       if Point_Equals (Epsilon u) start endp then Inr d
       else if cmdLen LineToCmd \<le> n \<and> d ! (n - 1) = LineToCmd then
         (if cmdLen LineToCmd < n \<and> n < cmdLen LineToCmd + 3 then Inl IndexOutOfRange
          else
            let prevStart =
                  (if cmdLen LineToCmd < n
                   then Point (d ! (n - cmdLen LineToCmd - 3)) (d ! (n - cmdLen LineToCmd - 2))
                   else Point 0 0);
                da = Point_Sub start prevStart;
                db = Point_Sub endp start;
                dv = Point_PerpDot da db;
                len = Point_Length da * Point_Length db;
                extends =
                  (if Y da < X da then Signbit (X da) = Signbit (X db)
                   else Signbit (Y da) = Signbit (Y db))
            in
            if len \<noteq> 0 \<and> Equal (Epsilon u) (dv / len) 0 \<and> extends
            then Inr (d[n - 3 := x, n - 2 := y])
            else appended)
       else appended)"

definition QuadTo ::
  "util \<Rightarrow> Path \<Rightarrow> float64 \<Rightarrow> float64 \<Rightarrow> float64 \<Rightarrow> float64 \<Rightarrow> error + Path" where
  "QuadTo u d cpx cpy x y =
     bindE (Pos_path d) (\<lambda>start.
       let cp = Point cpx cpy; endp = Point x y; eq = Point_Equals (Epsilon u) in
       if eq start endp \<and> eq start cp then Inr d
       else if \<not> eq start endp
            \<and> (eq start cp
               \<or> angleEqual u (Point_AngleBetween u (Point_Sub endp start) (Point_Sub cp start)) 0)
            \<and> (eq endp cp
               \<or> angleEqual u (Point_AngleBetween u (Point_Sub endp start) (Point_Sub endp cp)) 0)
       then LineTo u d (X endp) (Y endp)
       else bindE (openSubpath d) (\<lambda>d'.
              Inr (d' @ [QuadToCmd, X cp, Y cp, X endp, Y endp, QuadToCmd])))"

definition CubeTo ::
  "util \<Rightarrow> Path \<Rightarrow> float64 \<Rightarrow> float64 \<Rightarrow> float64 \<Rightarrow> float64 \<Rightarrow> float64 \<Rightarrow> float64
     \<Rightarrow> error + Path" where
  "CubeTo u d cpx1 cpy1 cpx2 cpy2 x y =
     bindE (Pos_path d) (\<lambda>start.
       let cp1 = Point cpx1 cpy1; cp2 = Point cpx2 cpy2; endp = Point x y;
           eq = Point_Equals (Epsilon u);
           along = (\<lambda>cp.
             angleEqual u (Point_AngleBetween u (Point_Sub endp start) (Point_Sub cp start)) 0
             \<and> angleEqual u (Point_AngleBetween u (Point_Sub endp start) (Point_Sub endp cp)) 0)
       in
       if eq start endp \<and> eq start cp1 \<and> eq start cp2 then Inr d
       else if \<not> eq start endp
            \<and> (eq start cp1 \<or> eq endp cp1 \<or> along cp1)
            \<and> (eq start cp2 \<or> eq endp cp2 \<or> along cp2)
       then LineTo u d (X endp) (Y endp)
       else bindE (openSubpath d) (\<lambda>d'.
              Inr (d' @ [CubeToCmd, X cp1, Y cp1, X cp2, Y cp2, X endp, Y endp, CubeToCmd])))"

definition ellipseRadiiCorrection ::
  "Point \<Rightarrow> float64 \<Rightarrow> float64 \<Rightarrow> float64 \<Rightarrow> Point \<Rightarrow> float64" where
  "ellipseRadiiCorrection start rx ry phi endp =
     (let diff = Point_Sub start endp;
          sinphi = sin phi; cosphi = cos phi;
          x1p = (cosphi * X diff + sinphi * Y diff) / 2;
          y1p = (- sinphi * X diff + cosphi * Y diff) / 2
      in sqrt (x1p * x1p / rx / rx + y1p * y1p / ry / ry))"

definition ArcTo ::
  "util \<Rightarrow> Path \<Rightarrow> float64 \<Rightarrow> float64 \<Rightarrow> float64 \<Rightarrow> bool \<Rightarrow> bool \<Rightarrow> float64 \<Rightarrow> float64
     \<Rightarrow> error + Path" where
  "ArcTo u d rx ry rot large sweep x y =
     bindE (Pos_path d) (\<lambda>start.
       let endp = Point x y in
       if Point_Equals (Epsilon u) start endp then Inr d
       else if Equal (Epsilon u) rx 0 \<or> IsInf rx \<or> Equal (Epsilon u) ry 0 \<or> IsInf ry
       then LineTo u d (X endp) (Y endp)
       else
         let rx1 = \<bar>rx\<bar>; ry1 = \<bar>ry\<bar>;
             rot2 = (if Equal (Epsilon u) rx1 ry1 then 0
                     else if rx1 < ry1 then rot + 90 else rot);
             rx2 = (if \<not> Equal (Epsilon u) rx1 ry1 \<and> rx1 < ry1 then ry1 else rx1);
             ry2 = (if \<not> Equal (Epsilon u) rx1 ry1 \<and> rx1 < ry1 then rx1 else ry1);
             phi0 = angleNorm u (rot2 * pi / 180);
             phi = (if pi \<le> phi0 then phi0 - pi else phi0);
             lambda = ellipseRadiiCorrection start rx2 ry2 phi endp;
             rx3 = (if lambda > 1 then rx2 * lambda else rx2);
             ry3 = (if lambda > 1 then ry2 * lambda else ry2)
         in bindE (openSubpath d) (\<lambda>d'.
              Inr (d' @ [ArcToCmd, rx3, ry3, phi, fromArcFlags large sweep, X endp, Y endp,
                         ArcToCmd])))"

definition Close :: "util \<Rightarrow> Path \<Rightarrow> error + Path" where
  "Close u d =
     (let n = length d in
      if n = 0 \<or> d ! (n - 1) = CloseCmd then Inr d
      else if d ! (n - 1) = MoveToCmd then
        (if cmdLen MoveToCmd \<le> n then Inr (take (n - cmdLen MoveToCmd) d)
         else Inl IndexOutOfRange)
      else
        bindE (StartPos d) (\<lambda>endp.
          let appended = Inr (d @ [CloseCmd, X endp, Y endp, CloseCmd]) in
          if d ! (n - 1) = LineToCmd then
            (if n < 3 then Inl IndexOutOfRange
             else if Equal (Epsilon u) (d ! (n - 3)) (X endp)
                   \<and> Equal (Epsilon u) (d ! (n - 2)) (Y endp) then
               (if cmdLen LineToCmd \<le> n
                then Inr (d[n - 1 := CloseCmd, n - cmdLen LineToCmd := CloseCmd])
                else Inl IndexOutOfRange)
             else if cmdLen LineToCmd < n \<and> n < cmdLen LineToCmd + 3 then Inl IndexOutOfRange
             else
               let start = Point (d ! (n - 3)) (d ! (n - 2));
                   prevStart =
                     (if cmdLen LineToCmd < n
                      then Point (d ! (n - cmdLen LineToCmd - 3)) (d ! (n - cmdLen LineToCmd - 2))
                      else Point 0 0)
               in
               if Equal (Epsilon u)
                    (Point_AngleBetween u (Point_Sub endp start) (Point_Sub start prevStart)) 0
               then
                 (if cmdLen LineToCmd \<le> n
                  then Inr (d[n - cmdLen LineToCmd := CloseCmd, n - 3 := X endp, n - 2 := Y endp,
                              n - 1 := CloseCmd])
                  else Inl IndexOutOfRange)
               else appended)
          else appended))"


section \<open>Reverse\<close>

text \<open>
  \<open>Equals\<close> compares two paths value by value with the tolerance predicate.
\<close>

definition Equals :: "float64 \<Rightarrow> Path \<Rightarrow> Path \<Rightarrow> bool" where
  "Equals eps p q = (length p = length q \<and> list_all2 (Equal eps) p q)"

text \<open>
  The loop of \<open>Reverse\<close>, with its variables \<open>q.d\<close>, \<open>closed\<close> (here \<open>clo\<close>), \<open>first\<close> and
  \<open>start\<close> as the state. The index is an \<open>int\<close> of Go and can fall below zero on data that is not a
  sequence of command slots; every read of \<open>p.d\<close> is guarded by its bounds check.
\<close>

function Reverse_loop ::
  "float64 \<Rightarrow> Path \<Rightarrow> int \<Rightarrow> Path \<times> bool \<times> Point \<times> Point \<Rightarrow> error + Path" where
  "Reverse_loop eps d i (q, clo, first, start) =
     (if 0 < i then
        (if int (length d) < i then Inl IndexOutOfRange
         else if \<not> cmdLen_ok (d ! nat (i - 1)) then Inl IndexOutOfRange
         else
           let cmd = d ! nat (i - 1);
               j = i - int (cmdLen cmd)
           in
           if 0 < j \<and> j < 3 then Inl IndexOutOfRange
           else
             let endp = (if 0 < j then Point (d ! nat (j - 3)) (d ! nat (j - 2)) else Point 0 0)
             in
             if cmd = MoveToCmd then
               let q1 = (if clo then q @ [CloseCmd, X first, Y first, CloseCmd] else q);
                   q2 = (if j \<noteq> 0 then q1 @ [MoveToCmd, X endp, Y endp, MoveToCmd] else q1)
               in Reverse_loop eps d j (q2, False, if j \<noteq> 0 then endp else first, endp)
             else if cmd = CloseCmd then
               Reverse_loop eps d j
                 (if \<not> Point_Equals eps start endp
                  then q @ [LineToCmd, X endp, Y endp, LineToCmd] else q,
                  True, first, endp)
             else if cmd = LineToCmd then
               (if clo \<and> j < 0 then Inl IndexOutOfRange
                else if clo \<and> (j = 0 \<or> d ! nat (j - 1) = MoveToCmd) then
                  Reverse_loop eps d j
                    (q @ [CloseCmd, X first, Y first, CloseCmd], False, first, endp)
                else
                  Reverse_loop eps d j
                    (q @ [LineToCmd, X endp, Y endp, LineToCmd], clo, first, endp))
             else if cmd = QuadToCmd then
               (if j + 1 < 0 \<or> int (length d) \<le> j + 2 then Inl IndexOutOfRange
                else
                  Reverse_loop eps d j
                    (q @ [QuadToCmd, d ! nat (j + 1), d ! nat (j + 2), X endp, Y endp, QuadToCmd],
                     clo, first, endp))
             else if cmd = CubeToCmd then
               (if j + 1 < 0 \<or> int (length d) \<le> j + 4 then Inl IndexOutOfRange
                else
                  Reverse_loop eps d j
                    (q @ [CubeToCmd, d ! nat (j + 3), d ! nat (j + 4),
                          d ! nat (j + 1), d ! nat (j + 2), X endp, Y endp, CubeToCmd],
                     clo, first, endp))
             else if cmd = ArcToCmd then
               (if j + 1 < 0 \<or> int (length d) \<le> j + 4 then Inl IndexOutOfRange
                else
                  Reverse_loop eps d j
                    (q @ [ArcToCmd, d ! nat (j + 1), d ! nat (j + 2), d ! nat (j + 3),
                          fromArcFlags (fst (toArcFlags (d ! nat (j + 4))))
                            (\<not> snd (toArcFlags (d ! nat (j + 4)))),
                          X endp, Y endp, ArcToCmd],
                     clo, first, endp))
             else Reverse_loop eps d j (q, clo, first, endp))
      else Inr (if clo then q @ [CloseCmd, X first, Y first, CloseCmd] else q))"
  by pat_completeness auto
termination
proof -
  have pos: "0 < cmdLen c" if "cmdLen_ok c" for c
  proof -
    from that have "cmdIndex c < 6"
      by (simp add: cmdLen_ok_def cmdLens_def)
    then show ?thesis
      by (auto simp: cmdLen_def cmdLens_def nth_Cons')
  qed
  show ?thesis
    by (relation "measure (\<lambda>(eps, d, i, st). nat i)") (auto simp: pos)
qed

declare Reverse_loop.simps [simp del]

definition Reverse :: "float64 \<Rightarrow> Path \<Rightarrow> error + Path" where
  "Reverse eps d =
     (if length d = 0 then Inr d
      else if length d < 3 then Inl IndexOutOfRange
      else
        let endp = Point (d ! (length d - 3)) (d ! (length d - 2)) in
        Reverse_loop eps d (int (length d))
          ([MoveToCmd, X endp, Y endp, MoveToCmd], False, endp, endp))"


section \<open>Transform\<close>

text \<open>
  \<open>Matrix\<close> and its methods are declared in util.go and not described beyond the spec's
  list of what an affine transform supports. The methods \<open>Transform\<close> calls are parameters:
  a record of operations over an arbitrary matrix type \<open>'m\<close>.
\<close>

record 'm matrix_ops =
  Identity :: 'm
  Matrix_Mul :: "'m \<Rightarrow> 'm \<Rightarrow> 'm"
  Matrix_Dot :: "'m \<Rightarrow> Point \<Rightarrow> Point"
  Matrix_Rotate :: "'m \<Rightarrow> float64 \<Rightarrow> 'm"
  Matrix_Scale :: "'m \<Rightarrow> float64 \<Rightarrow> float64 \<Rightarrow> 'm"
  Matrix_Inv :: "'m \<Rightarrow> 'm"
  Matrix_T :: "'m \<Rightarrow> 'm"
  Matrix_Eigen :: "'m \<Rightarrow> float64 \<times> float64 \<times> Point \<times> Point"
  Matrix_Decompose :: "'m \<Rightarrow> float64 \<times> float64 \<times> float64 \<times> float64 \<times> float64 \<times> float64"

text \<open>
  The new radii, rotation and flags of an arc under the transformation (the body of the
  \<open>ArcToCmd\<close> case). In the loop, a value that is none of the six commands passes the
  \<open>switch\<close> untouched and reaches \<open>cmdLen\<close>, whose table lookup can panic.
\<close>

definition Transform_arc ::
  "util \<Rightarrow> 'm matrix_ops \<Rightarrow> 'm \<Rightarrow> float64 \<Rightarrow> float64 \<Rightarrow> float64 \<Rightarrow> float64
     \<Rightarrow> float64 \<times> float64 \<times> float64 \<times> float64" where
  "Transform_arc u ops m rx ry phi flags =
     (let (t1, t2, t3, xscale, yscale, t6) = Matrix_Decompose ops m;
          large = fst (toArcFlags flags); sweep = snd (toArcFlags flags);
          T = Matrix_Rotate ops m (phi * 180 / pi);
          invT = Matrix_Inv ops T;
          Q0 = Matrix_Scale ops (Identity ops) (1 / rx / rx) (1 / ry / ry);
          Q = Matrix_Mul ops (Matrix_Mul ops (Matrix_T ops invT) Q0) invT;
          (lambda1, lambda2, v1, v2) = Matrix_Eigen ops Q;
          rx1 = 1 / sqrt lambda1;
          ry1 = 1 / sqrt lambda2;
          rx2 = (if rx1 < ry1 then ry1 else rx1);
          ry2 = (if rx1 < ry1 then rx1 else ry1);
          phi1 = (if rx1 < ry1 then Point_Angle u v2 else Point_Angle u v1);
          phi2 = angleNorm u phi1;
          phi3 = (if pi \<le> phi2 then phi2 - pi else phi2);
          sweep1 = (if xscale * yscale < 0 then \<not> sweep else sweep)
      in (rx2, ry2, phi3, fromArcFlags large sweep1))"

function Transform_loop :: "util \<Rightarrow> 'm matrix_ops \<Rightarrow> 'm \<Rightarrow> Path \<Rightarrow> nat \<Rightarrow> error + Path" where
  "Transform_loop u ops m d i =
     (if i < length d then
        (let cmd = d ! i in
         if \<not> cmdLen_ok cmd then Inl IndexOutOfRange
         else if cmd = MoveToCmd \<or> cmd = LineToCmd \<or> cmd = CloseCmd then
           (if length d \<le> i + 2 then Inl IndexOutOfRange
            else
              let endp = Matrix_Dot ops m (Point (d ! (i + 1)) (d ! (i + 2))) in
              Transform_loop u ops m (d[i + 1 := X endp, i + 2 := Y endp]) (i + cmdLen cmd))
         else if cmd = QuadToCmd then
           (if length d \<le> i + 4 then Inl IndexOutOfRange
            else
              let cp = Matrix_Dot ops m (Point (d ! (i + 1)) (d ! (i + 2)));
                  endp = Matrix_Dot ops m (Point (d ! (i + 3)) (d ! (i + 4)))
              in Transform_loop u ops m
                   (d[i + 1 := X cp, i + 2 := Y cp, i + 3 := X endp, i + 4 := Y endp])
                   (i + cmdLen cmd))
         else if cmd = CubeToCmd then
           (if length d \<le> i + 6 then Inl IndexOutOfRange
            else
              let cp1 = Matrix_Dot ops m (Point (d ! (i + 1)) (d ! (i + 2)));
                  cp2 = Matrix_Dot ops m (Point (d ! (i + 3)) (d ! (i + 4)));
                  endp = Matrix_Dot ops m (Point (d ! (i + 5)) (d ! (i + 6)))
              in Transform_loop u ops m
                   (d[i + 1 := X cp1, i + 2 := Y cp1, i + 3 := X cp2, i + 4 := Y cp2,
                      i + 5 := X endp, i + 6 := Y endp])
                   (i + cmdLen cmd))
         else if cmd = ArcToCmd then
           (if length d \<le> i + 6 then Inl IndexOutOfRange
            else
              let (rx, ry, phi, flags) =
                    Transform_arc u ops m (d ! (i + 1)) (d ! (i + 2)) (d ! (i + 3)) (d ! (i + 4));
                  endp = Matrix_Dot ops m (Point (d ! (i + 5)) (d ! (i + 6)))
              in Transform_loop u ops m
                   (d[i + 1 := rx, i + 2 := ry, i + 3 := phi, i + 4 := flags,
                      i + 5 := X endp, i + 6 := Y endp])
                   (i + cmdLen cmd))
         else Transform_loop u ops m d (i + cmdLen cmd))
      else Inr d)"
  by pat_completeness auto
termination
proof -
  have pos: "0 < cmdLen c" if "cmdLen_ok c" for c
  proof -
    from that have "cmdIndex c < 6"
      by (simp add: cmdLen_ok_def cmdLens_def)
    then show ?thesis
      by (auto simp: cmdLen_def cmdLens_def nth_Cons')
  qed
  show ?thesis
    by (relation "measure (\<lambda>(u, ops, m, d, i). length d - i)")
       (auto simp: pos intro: diff_less_mono2)
qed

declare Transform_loop.simps [simp del]

definition Transform :: "util \<Rightarrow> 'm matrix_ops \<Rightarrow> 'm \<Rightarrow> Path \<Rightarrow> error + Path" where
  "Transform u ops m d = Transform_loop u ops m d 0"

section \<open>Paths built through the mutators, and their invariants\<close>

text \<open>
  A call of one of the six mutators with its arguments, and the path that a sequence of
  calls builds from given data. \<open>build u [] ms\<close> is the path built from the empty path.
\<close>

datatype mutator =
    CallMoveTo float64 float64
  | CallLineTo float64 float64
  | CallQuadTo float64 float64 float64 float64
  | CallCubeTo float64 float64 float64 float64 float64 float64
  | CallArcTo float64 float64 float64 bool bool float64 float64
  | CallClose

fun call :: "util \<Rightarrow> Path \<Rightarrow> mutator \<Rightarrow> error + Path" where
  "call u d (CallMoveTo x y) = MoveTo d x y"
| "call u d (CallLineTo x y) = LineTo u d x y"
| "call u d (CallQuadTo cpx cpy x y) = QuadTo u d cpx cpy x y"
| "call u d (CallCubeTo cpx1 cpy1 cpx2 cpy2 x y) = CubeTo u d cpx1 cpy1 cpx2 cpy2 x y"
| "call u d (CallArcTo rx ry rot large sweep x y) = ArcTo u d rx ry rot large sweep x y"
| "call u d CallClose = Close u d"

fun build :: "util \<Rightarrow> Path \<Rightarrow> mutator list \<Rightarrow> error + Path" where
  "build u d [] = Inr d"
| "build u d (m # ms) = bindE (call u d m) (\<lambda>d'. build u d' ms)"

text \<open>
  The packed encoding, checked the way the forward loops of the source walk the data
  (\<open>for i := 0; i < len(p.d); i += cmdLen(p.d[i])\<close>): from the start index \<open>i\<close> of a command
  the slot of \<open>cmdLen(p.d[i])\<close> values lies inside the data, its last value repeats the
  command value, the next command starts right after it, and the walk ends exactly at the
  end of the data.
\<close>

function packed_from :: "Path \<Rightarrow> nat \<Rightarrow> bool" where
  "packed_from d i =
     (if length d \<le> i then i = length d
      else if cmdLen_ok (d ! i) then
        (if i + cmdLen (d ! i) \<le> length d \<and> d ! (i + cmdLen (d ! i) - 1) = d ! i
         then packed_from d (i + cmdLen (d ! i)) else False)
      else False)"
  by pat_completeness auto
termination
proof -
  have pos: "0 < cmdLen c" if "cmdLen_ok c" for c
  proof -
    from that have "cmdIndex c < 6"
      by (simp add: cmdLen_ok_def cmdLens_def)
    then show ?thesis
      by (auto simp: cmdLen_def cmdLens_def nth_Cons')
  qed
  show ?thesis
    by (relation "measure (\<lambda>(d, i). length d - i)") (auto simp: pos intro: diff_less_mono2)
qed

declare packed_from.simps [simp del]

definition packed :: "Path \<Rightarrow> bool" where
  "packed d = packed_from d 0"

text \<open>The command values met by the same walk, in order.\<close>

function cmds_from :: "Path \<Rightarrow> nat \<Rightarrow> float64 list" where
  "cmds_from d i =
     (if length d \<le> i then []
      else if cmdLen_ok (d ! i) then d ! i # cmds_from d (i + cmdLen (d ! i))
      else [d ! i])"
  by pat_completeness auto
termination
proof -
  have pos: "0 < cmdLen c" if "cmdLen_ok c" for c
  proof -
    from that have "cmdIndex c < 6"
      by (simp add: cmdLen_ok_def cmdLens_def)
    then show ?thesis
      by (auto simp: cmdLen_def cmdLens_def nth_Cons')
  qed
  show ?thesis
    by (relation "measure (\<lambda>(d, i). length d - i)") (auto simp: pos intro: diff_less_mono2)
qed

declare cmds_from.simps [simp del]

definition cmds :: "Path \<Rightarrow> float64 list" where
  "cmds d = cmds_from d 0"

text \<open>
  On a sequence of commands: the first command is a MoveTo, and whatever follows a Close
  is a MoveTo; no MoveTo follows a MoveTo.
\<close>

definition startsWithMoveTo :: "float64 list \<Rightarrow> bool" where
  "startsWithMoveTo cs = (case cs of [] \<Rightarrow> True | c # _ \<Rightarrow> c = MoveToCmd)"

fun moveToAfterClose :: "float64 list \<Rightarrow> bool" where
  "moveToAfterClose (a # b # cs) =
     ((if a = CloseCmd then b = MoveToCmd else True) \<and> moveToAfterClose (b # cs))"
| "moveToAfterClose cs = True"

fun noDoubleMoveTo :: "float64 list \<Rightarrow> bool" where
  "noDoubleMoveTo (a # b # cs) =
     (\<not> (a = MoveToCmd \<and> b = MoveToCmd) \<and> noDoubleMoveTo (b # cs))"
| "noDoubleMoveTo cs = True"

definition subpathsStartWithMoveTo :: "Path \<Rightarrow> bool" where
  "subpathsStartWithMoveTo d =
     (packed d \<and> startsWithMoveTo (cmds d) \<and> moveToAfterClose (cmds d))"


section \<open>Command slots\<close>

text \<open>
  For the proofs, packed data is read as the concatenation of its command slots. A slot is
  a non-empty list that starts and ends with the same value and is as long as \<open>cmdLen\<close>
  of that value says. The functions below restate on lists of slots what the mutators and
  \<open>Reverse\<close> do on the data; lemmas connect them to the definitions above.
\<close>

definition slot :: "float64 list \<Rightarrow> bool" where
  "slot s = (s \<noteq> [] \<and> cmdLen_ok (hd s) \<and> length s = cmdLen (hd s) \<and> last s = hd s)"

definition slotEnd :: "float64 list \<Rightarrow> Point" where
  "slotEnd s = Point (s ! (length s - 3)) (s ! (length s - 2))"

definition openS :: "float64 list list \<Rightarrow> float64 list list" where
  "openS ss =
     (if ss = [] then [[MoveToCmd, 0, 0, MoveToCmd]]
      else if hd (last ss) = CloseCmd
      then ss @ [[MoveToCmd, last ss ! 1, last ss ! 2, MoveToCmd]]
      else ss)"

fun reverseSlots ::
  "float64 \<Rightarrow> float64 list list \<Rightarrow> float64 list list \<times> bool \<times> Point \<times> Point
     \<Rightarrow> float64 list list" where
  "reverseSlots eps [] (q, clo, first, start) =
     (if clo then q @ [[CloseCmd, X first, Y first, CloseCmd]] else q)"
| "reverseSlots eps (s # rs) (q, clo, first, start) =
     (let cmd = hd s;
          endp = (if rs = [] then Point 0 0 else slotEnd (hd rs))
      in
      if cmd = MoveToCmd then
        reverseSlots eps rs
          ((if clo then q @ [[CloseCmd, X first, Y first, CloseCmd]] else q)
             @ (if rs \<noteq> [] then [[MoveToCmd, X endp, Y endp, MoveToCmd]] else []),
           False, if rs \<noteq> [] then endp else first, endp)
      else if cmd = CloseCmd then
        reverseSlots eps rs
          (if \<not> Point_Equals eps start endp
           then q @ [[LineToCmd, X endp, Y endp, LineToCmd]] else q,
           True, first, endp)
      else if cmd = LineToCmd then
        (if clo \<and> (rs = [] \<or> hd (hd rs) = MoveToCmd) then
           reverseSlots eps rs (q @ [[CloseCmd, X first, Y first, CloseCmd]], False, first, endp)
         else
           reverseSlots eps rs (q @ [[LineToCmd, X endp, Y endp, LineToCmd]], clo, first, endp))
      else if cmd = QuadToCmd then
        reverseSlots eps rs
          (q @ [[QuadToCmd, s ! 1, s ! 2, X endp, Y endp, QuadToCmd]], clo, first, endp)
      else if cmd = CubeToCmd then
        reverseSlots eps rs
          (q @ [[CubeToCmd, s ! 3, s ! 4, s ! 1, s ! 2, X endp, Y endp, CubeToCmd]],
           clo, first, endp)
      else if cmd = ArcToCmd then
        reverseSlots eps rs
          (q @ [[ArcToCmd, s ! 1, s ! 2, s ! 3,
                 fromArcFlags (fst (toArcFlags (s ! 4))) (\<not> snd (toArcFlags (s ! 4))),
                 X endp, Y endp, ArcToCmd]],
           clo, first, endp)
      else reverseSlots eps rs (q, clo, first, endp))"

definition ReverseS :: "float64 \<Rightarrow> float64 list list \<Rightarrow> float64 list list" where
  "ReverseS eps ss =
     (if ss = [] then []
      else reverseSlots eps (rev ss)
             ([[MoveToCmd, X (slotEnd (last ss)), Y (slotEnd (last ss)), MoveToCmd]], False,
              slotEnd (last ss), slotEnd (last ss)))"


text \<open>
  What one call of a mutator does to the list of slots: nothing; new coordinates in the
  last slot, a MoveTo or a LineTo; a MoveTo appended; a drawing slot appended after
  \<open>openS\<close>; the last slot, a MoveTo, removed; the last slot, a LineTo, turned into a
  Close; a Close appended.
\<close>

definition slotStep :: "float64 list list \<Rightarrow> float64 list list \<Rightarrow> bool" where
  "slotStep ss ss' =
     (ss' = ss
      \<or> (ss \<noteq> [] \<and> (hd (last ss) = MoveToCmd \<or> hd (last ss) = LineToCmd)
          \<and> (\<exists>x y. ss' = butlast ss @ [[hd (last ss), x, y, hd (last ss)]]))
      \<or> ((ss = [] \<or> hd (last ss) \<noteq> MoveToCmd)
          \<and> (\<exists>x y. ss' = ss @ [[MoveToCmd, x, y, MoveToCmd]]))
      \<or> (\<exists>s. slot s
          \<and> (hd s = LineToCmd \<or> hd s = QuadToCmd \<or> hd s = CubeToCmd \<or> hd s = ArcToCmd)
          \<and> ss' = openS ss @ [s])
      \<or> (ss \<noteq> [] \<and> hd (last ss) = MoveToCmd \<and> ss' = butlast ss)
      \<or> (ss \<noteq> [] \<and> hd (last ss) = LineToCmd
          \<and> (\<exists>a b. ss' = butlast ss @ [[CloseCmd, a, b, CloseCmd]]))
      \<or> (ss \<noteq> [] \<and> hd (last ss) \<noteq> CloseCmd \<and> hd (last ss) \<noteq> MoveToCmd
          \<and> (\<exists>a b. ss' = ss @ [[CloseCmd, a, b, CloseCmd]])))"

section \<open>Subpaths\<close>

text \<open>
  A path read as its list of subpaths: a subpath is a \<open>MoveTo\<close> to its start point, its
  drawing commands, and possibly a \<open>Close\<close> with the point stored in it. \<open>pathOf\<close> is the
  packed data of a list of subpaths.
\<close>

datatype subpath = Subpath (spStart: Point) (segments: "float64 list list") (closing: "Point option")

definition moveSlot :: "Point \<Rightarrow> float64 list" where
  "moveSlot p = [MoveToCmd, X p, Y p, MoveToCmd]"

definition lineSlot :: "Point \<Rightarrow> float64 list" where
  "lineSlot p = [LineToCmd, X p, Y p, LineToCmd]"

definition closeSlot :: "Point \<Rightarrow> float64 list" where
  "closeSlot p = [CloseCmd, X p, Y p, CloseCmd]"

definition slotsOf :: "subpath \<Rightarrow> float64 list list" where
  "slotsOf sp =
     moveSlot (spStart sp) # segments sp
       @ (case closing sp of None \<Rightarrow> [] | Some c \<Rightarrow> [closeSlot c])"

definition slotsAll :: "subpath list \<Rightarrow> float64 list list" where
  "slotsAll sps = concat (map slotsOf sps)"

definition pathOf :: "subpath list \<Rightarrow> Path" where
  "pathOf sps = concat (slotsAll sps)"

text \<open>
  A drawing slot is the slot of a \<open>LineTo\<close>, \<open>QuadTo\<close>, \<open>CubeTo\<close> or \<open>ArcTo\<close>; the flags of
  an arc are one of the four values that \<open>fromArcFlags\<close> stores.
\<close>

definition drawingSlot :: "float64 list \<Rightarrow> bool" where
  "drawingSlot s =
     (slot s
      \<and> (hd s = LineToCmd \<or> hd s = QuadToCmd \<or> hd s = CubeToCmd
          \<or> (hd s = ArcToCmd \<and> (s ! 4 = 0 \<or> s ! 4 = 1 \<or> s ! 4 = 2 \<or> s ! 4 = 3))))"

text \<open>
  The end point of the last of the drawing commands \<open>segs\<close> of a subpath that starts at
  \<open>m\<close>.
\<close>

definition segEnd :: "Point \<Rightarrow> float64 list list \<Rightarrow> Point" where
  "segEnd m segs = (if segs = [] then m else slotEnd (last segs))"

text \<open>
  The subpaths on which reversing twice gives the subpath back: the drawing commands are
  drawing slots, and in a closed subpath the point of the \<open>Close\<close> equals the start point
  within the tolerance, but not the end point of the subpath's first command if that is a
  \<open>LineTo\<close>, nor the end point of its last command if that is a \<open>LineTo\<close>.
\<close>

definition reversible :: "float64 \<Rightarrow> subpath \<Rightarrow> bool" where
  "reversible eps sp =
     (list_all drawingSlot (segments sp)
      \<and> (case closing sp of
            None \<Rightarrow> True
          | Some c \<Rightarrow>
              Point_Equals eps (spStart sp) c
              \<and> (segments sp = []
                  \<or> (\<not> (hd (hd (segments sp)) = LineToCmd
                         \<and> Point_Equals eps c (slotEnd (hd (segments sp))))
                      \<and> \<not> (hd (last (segments sp)) = LineToCmd
                            \<and> Point_Equals eps c (slotEnd (last (segments sp))))))))"

text \<open>
  For the proofs: what \<open>Reverse\<close> makes of one drawing slot, given the point \<open>e\<close> where the
  command started; of the drawing commands of a subpath that starts at \<open>m\<close>; and of a whole
  subpath, which starts where the subpath ended (\<open>subEnd\<close>). \<open>approx\<close> compares two lists
  of slots value by value with the tolerance predicate.
\<close>

definition approx :: "float64 \<Rightarrow> float64 list list \<Rightarrow> float64 list list \<Rightarrow> bool" where
  "approx eps ss ss' = list_all2 (list_all2 (Equal eps)) ss ss'"

definition revSeg :: "Point \<Rightarrow> float64 list \<Rightarrow> float64 list" where
  "revSeg e s =
     (if hd s = LineToCmd then [LineToCmd, X e, Y e, LineToCmd]
      else if hd s = QuadToCmd then [QuadToCmd, s ! 1, s ! 2, X e, Y e, QuadToCmd]
      else if hd s = CubeToCmd
      then [CubeToCmd, s ! 3, s ! 4, s ! 1, s ! 2, X e, Y e, CubeToCmd]
      else [ArcToCmd, s ! 1, s ! 2, s ! 3,
            fromArcFlags (fst (toArcFlags (s ! 4))) (\<not> snd (toArcFlags (s ! 4))),
            X e, Y e, ArcToCmd])"

fun revSegs :: "Point \<Rightarrow> float64 list list \<Rightarrow> float64 list list" where
  "revSegs m [] = []"
| "revSegs m (s # ss) = revSegs (slotEnd s) ss @ [revSeg m s]"

definition subEnd :: "subpath \<Rightarrow> Point" where
  "subEnd sp = (case closing sp of Some c \<Rightarrow> c | None \<Rightarrow> segEnd (spStart sp) (segments sp))"

definition revSub :: "float64 \<Rightarrow> subpath \<Rightarrow> subpath" where
  "revSub eps sp =
     (let m = spStart sp; segs = segments sp; e = segEnd m segs in
      case closing sp of
        None \<Rightarrow> Subpath e (revSegs m segs) None
      | Some c \<Rightarrow>
          Subpath c
            ((if Point_Equals eps c e then [] else [lineSlot e])
               @ (if segs \<noteq> [] \<and> hd (hd segs) = LineToCmd
                  then revSegs (slotEnd (hd segs)) (tl segs)
                  else revSegs m segs))
            (Some c))"

section \<open>Segment intersections\<close>

text \<open>
  An \<open>Intersection\<close> embeds a \<open>Point\<close> and carries the positions \<open>T[0]\<close>, \<open>T[1]\<close> along
  the two segments, the directions \<open>Dir[0]\<close>, \<open>Dir[1]\<close> and two flags. The two-element
  arrays are pairs.
\<close>

record Intersection =
  Pt :: Point
  T :: "float64 \<times> float64"
  Dir :: "float64 \<times> float64"
  Tangent :: bool
  Same :: bool

type_synonym Intersections = "Intersection list"

definition Intersections_add ::
  "Intersections \<Rightarrow> Point \<Rightarrow> float64 \<Rightarrow> float64 \<Rightarrow> float64 \<Rightarrow> float64 \<Rightarrow> bool \<Rightarrow> bool
     \<Rightarrow> Intersections" where
  "Intersections_add zs pos ta tb dira dirb tangent same =
     (let ta' = (if ta < 0 then 0 else if 1 \<le> ta then 1 else ta);
          tb' = (if tb < 0 then 0 else if 1 < tb then 1 else tb)
      in zs @ [\<lparr> Pt = pos, T = (ta', tb'), Dir = (dira, dirb),
                 Tangent = tangent, Same = same \<rparr>])"

definition EllipsePos ::
  "float64 \<Rightarrow> float64 \<Rightarrow> float64 \<Rightarrow> float64 \<Rightarrow> float64 \<Rightarrow> float64 \<Rightarrow> Point" where
  "EllipsePos rx ry phi cx cy theta =
     Point (cx + rx * cos theta * cos phi - ry * sin theta * sin phi)
           (cy + rx * cos theta * sin phi + ry * sin theta * cos phi)"

text \<open>
  \<open>ellipseToCenter\<close> is straight-line arithmetic: it has no loop and no panic, whatever its
  arguments. Its quotients and its \<open>math.Acos\<close> are the real ones here (a zero divisor or
  an argument outside [-1, 1] gives NaN or an infinity in Go); the statements below depend
  on the function returning, not on the four numbers it returns.
\<close>

definition ellipseToCenter ::
  "util \<Rightarrow> float64 \<Rightarrow> float64 \<Rightarrow> float64 \<Rightarrow> float64 \<Rightarrow> float64 \<Rightarrow> bool \<Rightarrow> bool
     \<Rightarrow> float64 \<Rightarrow> float64 \<Rightarrow> float64 \<times> float64 \<times> float64 \<times> float64" where
  "ellipseToCenter u x1 y1 rx0 ry0 phi large sweep x2 y2 =
     (let eps = Epsilon u in
      if Equal eps x1 x2 \<and> Equal eps y1 y2 then (x1, y1, 0, 0)
      else if Equal eps \<bar>x2 - x1\<bar> rx0 \<and> Equal eps y1 y2 \<and> Equal eps phi 0 then
        (let cx = x1 + (x2 - x1) / 2; cy = y1;
             theta = (if x1 < x2 then pi else 0);
             delta = (if \<not> sweep then - pi else pi)
         in (cx, cy, theta, theta + delta))
      else
        (let sinphi = sin phi; cosphi = cos phi;
             x1p = cosphi * (x1 - x2) / 2 + sinphi * (y1 - y2) / 2;
             y1p = - sinphi * (x1 - x2) / 2 + cosphi * (y1 - y2) / 2;
             radiiCheck = x1p * x1p / rx0 / rx0 + y1p * y1p / ry0 / ry0;
             rx = (if 1 < radiiCheck then rx0 * sqrt radiiCheck else rx0);
             ry = (if 1 < radiiCheck then ry0 * sqrt radiiCheck else ry0);
             sq0 = (rx * rx * ry * ry - rx * rx * y1p * y1p - ry * ry * x1p * x1p)
                     / (rx * rx * y1p * y1p + ry * ry * x1p * x1p);
             sq = (if sq0 \<le> eps then 0 else sq0);
             coef = (if large = sweep then - sqrt sq else sqrt sq);
             cxp = coef * rx * y1p / ry;
             cyp = coef * - ry * x1p / rx;
             cx = cosphi * cxp - sinphi * cyp + (x1 + x2) / 2;
             cy = sinphi * cxp + cosphi * cyp + (y1 + y2) / 2;
             ux = (x1p - cxp) / rx;
             uy = (y1p - cyp) / ry;
             vx = - (x1p + cxp) / rx;
             vy = - (y1p + cyp) / ry;
             theta0 = arccos (ux / sqrt (ux * ux + uy * uy));
             theta = angleNorm u (if uy < 0 then - theta0 else theta0);
             deltaAcos = min 1 (max (- 1)
                 ((ux * vx + uy * vy) / sqrt ((ux * ux + uy * uy) * (vx * vx + vy * vy))));
             delta0 = arccos deltaAcos;
             delta1 = (if ux * vy - uy * vx < 0 then - delta0 else delta0);
             delta = (if \<not> sweep \<and> 0 < delta1 then delta1 - 2 * pi
                      else if sweep \<and> delta1 < 0 then delta1 + 2 * pi
                      else delta1)
         in (cx, cy, theta, theta + delta)))"

text \<open>
  The closure \<open>arcAngle\<close> of \<open>intersectionEllipseEllipse\<close>, and the function itself. It
  starts with the test that rejects every ellipse that is not a circle within the
  tolerance; after that test the body only computes and appends.
\<close>

definition arcAngle :: "util \<Rightarrow> float64 \<Rightarrow> bool \<Rightarrow> float64" where
  "arcAngle u theta sweep =
     angleNorm u (if \<not> sweep then theta + pi / 2 - pi else theta + pi / 2)"

definition intersectionEllipseEllipse ::
  "util \<Rightarrow> Intersections \<Rightarrow> Point \<Rightarrow> Point \<Rightarrow> float64 \<Rightarrow> float64 \<Rightarrow> float64
     \<Rightarrow> Point \<Rightarrow> Point \<Rightarrow> float64 \<Rightarrow> float64 \<Rightarrow> float64 \<Rightarrow> error + Intersections" where
  "intersectionEllipseEllipse u zs c0 r0 phi0 thetaStart0' thetaEnd0'
       c1 r1 phi1 thetaStart1' thetaEnd1' =
     (let eps = Epsilon u in
      if \<not> Equal eps (X r0) (Y r0) \<or> \<not> Equal eps (X r1) (Y r1)
      then Inl (Panic ''not handled'')
      else
        let dtheta0 = thetaEnd0' - thetaStart0';
            thetaStart0 = angleNorm u (thetaStart0' + phi0);
            thetaEnd0 = thetaStart0 + dtheta0;
            dtheta1 = thetaEnd1' - thetaStart1';
            thetaStart1'' = angleNorm u (thetaStart1' + phi1);
            thetaEnd1'' = thetaStart1'' + dtheta1
        in
        if Point_Equals eps c0 c1 \<and> Point_Equals eps r0 r1 then
          (let flip = ((0 \<le> dtheta0) \<noteq> (0 \<le> dtheta1));
               thetaStart1 = (if flip then thetaEnd1'' else thetaStart1'');
               thetaEnd1 = (if flip then thetaStart1'' else thetaEnd1'');
               dirOffset1 = (if flip then pi else 0);
               tOffset1 = (if flip then 1 else 0);
               t1 = angleTime u thetaStart0 thetaStart1 thetaEnd1;
               zs1 = (if Interval u t1 0 1 then
                        (let dir = arcAngle u thetaStart0 (0 \<le> dtheta0);
                             pos = EllipsePos (X r0) (Y r0) 0 (X c0) (Y c0) thetaStart0
                         in Intersections_add zs pos 0 \<bar>t1 - tOffset1\<bar> dir
                              (angleNorm u (dir + dirOffset1)) True True)
                      else zs);
               t2 = angleTime u thetaStart1 thetaStart0 thetaEnd0;
               zs2 = (if IntervalExclusive u t2 0 1 then
                        (let dir = arcAngle u thetaStart1 (0 \<le> dtheta0);
                             pos = EllipsePos (X r0) (Y r0) 0 (X c0) (Y c0) thetaStart1
                         in Intersections_add zs1 pos t2 tOffset1 dir
                              (angleNorm u (dir + dirOffset1)) True True)
                      else zs1);
               t3 = angleTime u thetaEnd1 thetaStart0 thetaEnd0;
               zs3 = (if IntervalExclusive u t3 0 1 then
                        (let dir = arcAngle u thetaEnd1 (0 \<le> dtheta0);
                             pos = EllipsePos (X r0) (Y r0) 0 (X c0) (Y c0) thetaEnd1
                         in Intersections_add zs2 pos t3 (1 - tOffset1) dir
                              (angleNorm u (dir + dirOffset1)) True True)
                      else zs2);
               t4 = angleTime u thetaEnd0 thetaStart1 thetaEnd1;
               zs4 = (if Interval u t4 0 1 then
                        (let dir = arcAngle u thetaEnd0 (0 \<le> dtheta0);
                             pos = EllipsePos (X r0) (Y r0) 0 (X c0) (Y c0) thetaEnd0
                         in Intersections_add zs3 pos 1 \<bar>t4 - tOffset1\<bar> dir
                              (angleNorm u (dir + dirOffset1)) True True)
                      else zs3)
           in Inr zs4)
        else
          (let thetaStart1 = thetaStart1''; thetaEnd1 = thetaEnd1'';
               R = Point_Length (Point_Sub c0 c1)
           in
           if R < \<bar>X r0 - X r1\<bar> \<or> X r0 + X r1 < R then Inr zs
           else
             let R2 = R * R;
                 k = X r0 * X r0 - X r1 * X r1;
                 a = 1 / 2;
                 b = (1 / 2) * k / R2;
                 c = (1 / 2) * sqrt (2 * (X r0 * X r0 + X r1 * X r1) / R2 - k * k / (R2 * R2) - 1);
                 mid = Point_Mul (Point_Sub c1 c0) (a + b);
                 dev = Point_Mul (Point (Y c1 - Y c0) (X c0 - X c1)) c;
                 tangent = Point_Equals eps dev (Point 0 0);
                 anglea0 = Point_Angle u (Point_Add mid dev);
                 anglea1 = Point_Angle u (Point_Add (Point_Add (Point_Sub c0 c1) mid) dev);
                 ta0 = angleTime u anglea0 thetaStart0 thetaEnd0;
                 ta1 = angleTime u anglea1 thetaStart1 thetaEnd1;
                 zs1 = (if Interval u ta0 0 1 \<and> Interval u ta1 0 1 then
                          (let dir0 = arcAngle u anglea0 (0 \<le> dtheta0);
                               dir1 = arcAngle u anglea1 (0 \<le> dtheta1);
                               endpoint = (Equal eps ta0 0 \<or> Equal eps ta0 1
                                           \<or> Equal eps ta1 0 \<or> Equal eps ta1 1)
                           in Intersections_add zs (Point_Add (Point_Add c0 mid) dev) ta0 ta1
                                dir0 dir1 (tangent \<or> endpoint) False)
                        else zs);
                 zs2 = (if \<not> tangent then
                          (let angleb0 = Point_Angle u (Point_Sub mid dev);
                               angleb1 = Point_Angle u
                                           (Point_Sub (Point_Add (Point_Sub c0 c1) mid) dev);
                               tb0 = angleTime u angleb0 thetaStart0 thetaEnd0;
                               tb1 = angleTime u angleb1 thetaStart1 thetaEnd1
                           in
                           if Interval u tb0 0 1 \<and> Interval u tb1 0 1 then
                             (let dir0 = arcAngle u angleb0 (0 \<le> dtheta0);
                                  dir1 = arcAngle u angleb1 (0 \<le> dtheta1);
                                  endpoint = (Equal eps tb0 0 \<or> Equal eps tb0 1
                                              \<or> Equal eps tb1 0 \<or> Equal eps tb1 1)
                              in Intersections_add zs1 (Point_Sub (Point_Add c0 mid) dev)
                                   tb0 tb1 dir0 dir1 endpoint False)
                           else zs1)
                        else zs1)
             in Inr zs2))"

text \<open>
  The four solvers for a line against a line, a quadratic, a cubic and an ellipse are
  called by the dispatch but take no part in the branches studied here. The dispatch takes
  them as parameters that may return or panic, so what is proved about it holds for every
  behaviour of these solvers.
\<close>

record lineSolvers =
  intersectionLineLine ::
    "Intersections \<Rightarrow> Point \<Rightarrow> Point \<Rightarrow> Point \<Rightarrow> Point \<Rightarrow> error + Intersections"
  intersectionLineQuad ::
    "Intersections \<Rightarrow> Point \<Rightarrow> Point \<Rightarrow> Point \<Rightarrow> Point \<Rightarrow> Point \<Rightarrow> error + Intersections"
  intersectionLineCube ::
    "Intersections \<Rightarrow> Point \<Rightarrow> Point \<Rightarrow> Point \<Rightarrow> Point \<Rightarrow> Point \<Rightarrow> Point
       \<Rightarrow> error + Intersections"
  intersectionLineEllipse ::
    "Intersections \<Rightarrow> Point \<Rightarrow> Point \<Rightarrow> Point \<Rightarrow> Point \<Rightarrow> float64 \<Rightarrow> float64 \<Rightarrow> float64
       \<Rightarrow> error + Intersections"

text \<open>
  The loop that ends \<open>intersectionSegment\<close>: the intersections found by this call, those
  from index \<open>n\<close> on, get their two positions and their two directions exchanged.
\<close>

definition swapIntersection :: "Intersection \<Rightarrow> Intersection" where
  "swapIntersection z = z \<lparr> T := (snd (T z), fst (T z)), Dir := (snd (Dir z), fst (Dir z)) \<rparr>"

definition swapFrom :: "nat \<Rightarrow> Intersections \<Rightarrow> Intersections" where
  "swapFrom n zs = take n zs @ map swapIntersection (drop n zs)"

text \<open>
  \<open>arcCenter\<close> is the block that both arc branches run on their segment: it reads the six
  values of the slot, which panics on a slice that is too short, and converts to the centre
  form. It returns the centre, the radii as stored, the rotation in radians and the two
  angles.
\<close>

definition arcCenter ::
  "util \<Rightarrow> Point \<Rightarrow> float64 list \<Rightarrow> error + (Point \<times> Point \<times> float64 \<times> float64 \<times> float64)" where
  "arcCenter u s0 s =
     (if length s < 7 then Inl IndexOutOfRange
      else
        let rx = s ! 1; ry = s ! 2; phi = s ! 3 * pi / 180;
            (large, sweep) = toArcFlags (s ! 4);
            (cx, cy, theta0, theta1) =
               ellipseToCenter u (X s0) (Y s0) rx ry phi large sweep (s ! 5) (s ! 6)
        in Inr (Point cx cy, Point rx ry, phi, theta0, theta1))"

definition isLine :: "float64 \<Rightarrow> bool" where
  "isLine cmd = (cmd = LineToCmd \<or> cmd = CloseCmd)"

definition intersectionSegment ::
  "util \<Rightarrow> lineSolvers \<Rightarrow> Intersections \<Rightarrow> Point \<Rightarrow> float64 list \<Rightarrow> Point \<Rightarrow> float64 list
     \<Rightarrow> error + Intersections" where
  "intersectionSegment u sv zs a0 a b0 b =
     (let n = length zs in
      if length a < 1 then Inl IndexOutOfRange
      else if isLine (a ! 0) then
        (if length b < 1 then Inl IndexOutOfRange
         else if isLine (b ! 0) then
           (if length a < 3 \<or> length b < 3 then Inl IndexOutOfRange
            else intersectionLineLine sv zs a0 (Point (a ! 1) (a ! 2)) b0 (Point (b ! 1) (b ! 2)))
         else if b ! 0 = QuadToCmd then
           (if length a < 3 \<or> length b < 5 then Inl IndexOutOfRange
            else intersectionLineQuad sv zs a0 (Point (a ! 1) (a ! 2)) b0
                   (Point (b ! 1) (b ! 2)) (Point (b ! 3) (b ! 4)))
         else if b ! 0 = CubeToCmd then
           (if length a < 3 \<or> length b < 7 then Inl IndexOutOfRange
            else intersectionLineCube sv zs a0 (Point (a ! 1) (a ! 2)) b0
                   (Point (b ! 1) (b ! 2)) (Point (b ! 3) (b ! 4)) (Point (b ! 5) (b ! 6)))
         else if b ! 0 = ArcToCmd then
           bindE (arcCenter u b0 b) (\<lambda>(c, r, phi, theta0, theta1).
             if length a < 3 then Inl IndexOutOfRange
             else intersectionLineEllipse sv zs a0 (Point (a ! 1) (a ! 2)) c r phi theta0 theta1)
         else Inr zs)
      else if a ! 0 = QuadToCmd then
        (if length b < 1 then Inl IndexOutOfRange
         else if isLine (b ! 0) then
           (if length b < 3 \<or> length a < 5 then Inl IndexOutOfRange
            else bindE (intersectionLineQuad sv zs b0 (Point (b ! 1) (b ! 2)) a0
                          (Point (a ! 1) (a ! 2)) (Point (a ! 3) (a ! 4)))
                   (\<lambda>zs'. Inr (swapFrom n zs')))
         else if b ! 0 = QuadToCmd then Inl (Panic ''unsupported intersection for quad-quad'')
         else if b ! 0 = CubeToCmd then Inl (Panic ''unsupported intersection for quad-cube'')
         else if b ! 0 = ArcToCmd then Inl (Panic ''unsupported intersection for quad-arc'')
         else Inr zs)
      else if a ! 0 = CubeToCmd then
        (if length b < 1 then Inl IndexOutOfRange
         else if isLine (b ! 0) then
           (if length b < 3 \<or> length a < 7 then Inl IndexOutOfRange
            else bindE (intersectionLineCube sv zs b0 (Point (b ! 1) (b ! 2)) a0
                          (Point (a ! 1) (a ! 2)) (Point (a ! 3) (a ! 4)) (Point (a ! 5) (a ! 6)))
                   (\<lambda>zs'. Inr (swapFrom n zs')))
         else if b ! 0 = QuadToCmd then Inl (Panic ''unsupported intersection for cube-quad'')
         else if b ! 0 = CubeToCmd then Inl (Panic ''unsupported intersection for cube-cube'')
         else if b ! 0 = ArcToCmd then Inl (Panic ''unsupported intersection for cube-arc'')
         else Inr zs)
      else if a ! 0 = ArcToCmd then
        bindE (arcCenter u a0 a) (\<lambda>(c, r, phi, theta0, theta1).
          if length b < 1 then Inl IndexOutOfRange
          else if isLine (b ! 0) then
            (if length b < 3 then Inl IndexOutOfRange
             else bindE (intersectionLineEllipse sv zs b0 (Point (b ! 1) (b ! 2))
                           c r phi theta0 theta1)
                    (\<lambda>zs'. Inr (swapFrom n zs')))
          else if b ! 0 = QuadToCmd then Inl (Panic ''unsupported intersection for arc-quad'')
          else if b ! 0 = CubeToCmd then Inl (Panic ''unsupported intersection for arc-cube'')
          else if b ! 0 = ArcToCmd then
            bindE (arcCenter u b0 b) (\<lambda>(c2, r2, phi2, theta20, theta21).
              intersectionEllipseEllipse u zs c r phi theta0 theta1 c2 r2 phi2 theta20 theta21)
          else Inr zs)
      else Inr zs)"

text \<open>The kind of a segment as the panic messages name it.\<close>

definition kindName :: "float64 \<Rightarrow> string" where
  "kindName cmd =
     (if cmd = QuadToCmd then ''quad'' else if cmd = CubeToCmd then ''cube''
      else if cmd = ArcToCmd then ''arc'' else ''line'')"

text \<open>
  A segment as the callers pass it: the slot of one command, at least as long as the
  command's coordinates need.
\<close>

definition segment :: "float64 list \<Rightarrow> bool" where
  "segment s = (s \<noteq> [] \<and> cmdLen_ok (hd s) \<and> cmdLen (hd s) \<le> length s)"


section \<open>Bounding boxes\<close>

text \<open>
  \<open>Rect\<close> is declared in util.go, which is not part of the sources at hand; the literal
  \<open>Rect{xmin, ymin, xmax, ymax}\<close> that both functions return and the values the tests
  expect fix its four fields as the lower corner followed by the upper corner.
\<close>

record Rect =
  X0 :: float64
  Y0 :: float64
  X1 :: float64
  Y1 :: float64

definition quadraticBezierPos :: "Point \<Rightarrow> Point \<Rightarrow> Point \<Rightarrow> float64 \<Rightarrow> Point" where
  "quadraticBezierPos p0 p1 p2 t =
     Point_Add (Point_Add (Point_Mul p0 (1 - 2 * t + t * t)) (Point_Mul p1 (2 * t - 2 * t * t)))
       (Point_Mul p2 (t * t))"

definition cubicBezierPos :: "Point \<Rightarrow> Point \<Rightarrow> Point \<Rightarrow> Point \<Rightarrow> float64 \<Rightarrow> Point" where
  "cubicBezierPos p0 p1 p2 p3 t =
     Point_Add
       (Point_Add
          (Point_Add (Point_Mul p0 (1 - 3 * t + 3 * t * t - t * t * t))
                     (Point_Mul p1 (3 * t - 6 * t * t + 3 * t * t * t)))
          (Point_Mul p2 (3 * t * t - 3 * t * t * t)))
       (Point_Mul p3 (t * t * t))"

text \<open>\<open>math.Atan2\<close> on finite arguments, without the sign of a zero.\<close>

definition Atan2 :: "float64 \<Rightarrow> float64 \<Rightarrow> float64" where
  "Atan2 y x =
     (if 0 < x then arctan (y / x)
      else if x < 0 then (if 0 \<le> y then arctan (y / x) + pi else arctan (y / x) - pi)
      else if 0 < y then pi / 2
      else if y < 0 then - pi / 2
      else 0)"

text \<open>
  Both functions run the same loop: \<open>i\<close> starts behind the first command, the body of the
  \<open>switch\<close> reads the coordinates of the command at \<open>i\<close> (an index panic when the slice
  ends early) and grows the box, then \<open>i += cmdLen(cmd)\<close> (a panic when the value at \<open>i\<close>
  has no table entry) and \<open>start = end\<close>. A value that is none of the six commands passes
  the \<open>switch\<close> untouched. The box is the tuple \<open>(xmin, xmax, ymin, ymax)\<close>.
\<close>

type_synonym box = "float64 \<times> float64 \<times> float64 \<times> float64"

definition addPoint :: "box \<Rightarrow> Point \<Rightarrow> box" where
  "addPoint bx p =
     (case bx of (xmin, xmax, ymin, ymax) \<Rightarrow>
        (min xmin (X p), max xmax (X p), min ymin (Y p), max ymax (Y p)))"

definition FastBounds_step ::
  "util \<Rightarrow> Path \<Rightarrow> nat \<Rightarrow> Point \<Rightarrow> Point \<Rightarrow> box \<Rightarrow> error + (Point \<times> box)" where
  "FastBounds_step u d i start endp bx =
     (case bx of (xmin, xmax, ymin, ymax) \<Rightarrow>
      let cmd = d ! i in
      if cmd = MoveToCmd \<or> cmd = LineToCmd \<or> cmd = CloseCmd then
        (if length d \<le> i + 2 then Inl IndexOutOfRange
         else
           let endp = Point (d ! (i + 1)) (d ! (i + 2)) in
           Inr (endp, (min xmin (X endp), max xmax (X endp),
                       min ymin (Y endp), max ymax (Y endp))))
      else if cmd = QuadToCmd then
        (if length d \<le> i + 4 then Inl IndexOutOfRange
         else
           let cp = Point (d ! (i + 1)) (d ! (i + 2));
               endp = Point (d ! (i + 3)) (d ! (i + 4))
           in Inr (endp, (min xmin (min (X cp) (X endp)), max xmax (max (X cp) (X endp)),
                          min ymin (min (Y cp) (Y endp)), max ymax (max (Y cp) (Y endp)))))
      else if cmd = CubeToCmd then
        (if length d \<le> i + 6 then Inl IndexOutOfRange
         else
           let cp1 = Point (d ! (i + 1)) (d ! (i + 2));
               cp2 = Point (d ! (i + 3)) (d ! (i + 4));
               endp = Point (d ! (i + 5)) (d ! (i + 6))
           in Inr (endp,
                   (min xmin (min (X cp1) (min (X cp2) (X endp))),
                    max xmax (max (X cp1) (min (X cp2) (X endp))),
                    min ymin (min (Y cp1) (min (Y cp2) (Y endp))),
                    max ymax (max (Y cp1) (min (Y cp2) (Y endp))))))
      else if cmd = ArcToCmd then
        (if length d \<le> i + 6 then Inl IndexOutOfRange
         else
           let rx = d ! (i + 1); ry = d ! (i + 2); phi = d ! (i + 3);
               (large, sweep) = toArcFlags (d ! (i + 4));
               endp = Point (d ! (i + 5)) (d ! (i + 6));
               (cx, cy, theta0, theta1) =
                  ellipseToCenter u (X start) (Y start) rx ry phi large sweep (X endp) (Y endp);
               r = max rx ry
           in Inr (endp, (min xmin (cx - r), max xmax (cx + r),
                          min ymin (cy - r), max ymax (cy + r))))
      else Inr (endp, bx))"

text \<open>
  In \<open>Bounds\<close>, a root that \<open>solveQuadraticFormula\<close> reports as NaN is \<open>None\<close>. The quotient
  of the quadratic case is taken only behind \<open>!Equal(tdenom, 0.0)\<close>; with a negative
  tolerance that test lets a zero divisor through, whose quotient (NaN or an infinity) is
  taken to lie in no interval.
\<close>

definition growX :: "float64 \<times> float64 \<Rightarrow> float64 \<Rightarrow> float64 \<times> float64" where
  "growX mm v = (min (fst mm) v, max (snd mm) v)"

definition rootGrow ::
  "util \<Rightarrow> float64 option \<Rightarrow> (float64 \<Rightarrow> float64) \<Rightarrow> float64 \<times> float64 \<Rightarrow> float64 \<times> float64" where
  "rootGrow u t pos mm =
     (case t of
        None \<Rightarrow> mm
      | Some t' \<Rightarrow> if IntervalExclusive u t' 0 1 then growX mm (pos t') else mm)"

definition Bounds_step ::
  "util \<Rightarrow> Path \<Rightarrow> nat \<Rightarrow> Point \<Rightarrow> Point \<Rightarrow> box \<Rightarrow> error + (Point \<times> box)" where
  "Bounds_step u d i start endp bx =
     (case bx of (xmin, xmax, ymin, ymax) \<Rightarrow>
      let cmd = d ! i in
      if cmd = MoveToCmd \<or> cmd = LineToCmd \<or> cmd = CloseCmd then
        (if length d \<le> i + 2 then Inl IndexOutOfRange
         else
           let endp = Point (d ! (i + 1)) (d ! (i + 2)) in
           Inr (endp, (min xmin (X endp), max xmax (X endp),
                       min ymin (Y endp), max ymax (Y endp))))
      else if cmd = QuadToCmd then
        (if length d \<le> i + 4 then Inl IndexOutOfRange
         else
           let cp = Point (d ! (i + 1)) (d ! (i + 2));
               endp = Point (d ! (i + 3)) (d ! (i + 4));
               xs = growX (xmin, xmax) (X endp);
               tdx = X start - 2 * X cp + X endp;
               xs' = (if \<not> Equal (Epsilon u) tdx 0 \<and> tdx \<noteq> 0
                         \<and> IntervalExclusive u ((X start - X cp) / tdx) 0 1
                      then growX xs (X (quadraticBezierPos start cp endp ((X start - X cp) / tdx)))
                      else xs);
               ys = growX (ymin, ymax) (Y endp);
               tdy = Y start - 2 * Y cp + Y endp;
               ys' = (if \<not> Equal (Epsilon u) tdy 0 \<and> tdy \<noteq> 0
                         \<and> IntervalExclusive u ((Y start - Y cp) / tdy) 0 1
                      then growX ys (Y (quadraticBezierPos start cp endp ((Y start - Y cp) / tdy)))
                      else ys)
           in Inr (endp, (fst xs', snd xs', fst ys', snd ys')))
      else if cmd = CubeToCmd then
        (if length d \<le> i + 6 then Inl IndexOutOfRange
         else
           let cp1 = Point (d ! (i + 1)) (d ! (i + 2));
               cp2 = Point (d ! (i + 3)) (d ! (i + 4));
               endp = Point (d ! (i + 5)) (d ! (i + 6));
               (tx1, tx2) = solveQuadraticFormula u
                  (- X start + 3 * X cp1 - 3 * X cp2 + X endp)
                  (2 * X start - 4 * X cp1 + 2 * X cp2)
                  (- X start + X cp1);
               xs = rootGrow u tx2 (\<lambda>t. X (cubicBezierPos start cp1 cp2 endp t))
                      (rootGrow u tx1 (\<lambda>t. X (cubicBezierPos start cp1 cp2 endp t))
                         (growX (xmin, xmax) (X endp)));
               (ty1, ty2) = solveQuadraticFormula u
                  (- Y start + 3 * Y cp1 - 3 * Y cp2 + Y endp)
                  (2 * Y start - 4 * Y cp1 + 2 * Y cp2)
                  (- Y start + Y cp1);
               ys = rootGrow u ty2 (\<lambda>t. Y (cubicBezierPos start cp1 cp2 endp t))
                      (rootGrow u ty1 (\<lambda>t. Y (cubicBezierPos start cp1 cp2 endp t))
                         (growX (ymin, ymax) (Y endp)))
           in Inr (endp, (fst xs, snd xs, fst ys, snd ys)))
      else if cmd = ArcToCmd then
        (if length d \<le> i + 6 then Inl IndexOutOfRange
         else
           let rx = d ! (i + 1); ry = d ! (i + 2); phi = d ! (i + 3);
               (large, sweep) = toArcFlags (d ! (i + 4));
               endp = Point (d ! (i + 5)) (d ! (i + 6));
               (cx, cy, theta0, theta1) =
                  ellipseToCenter u (X start) (Y start) rx ry phi large sweep (X endp) (Y endp);
               sinphi = sin phi; cosphi = cos phi;
               thetaRight = Atan2 (- ry * sinphi) (rx * cosphi);
               thetaTop = Atan2 (rx * cosphi) (ry * sinphi);
               thetaLeft = thetaRight + pi;
               thetaBottom = thetaTop + pi;
               dx = sqrt (rx * rx * cosphi * cosphi + ry * ry * sinphi * sinphi);
               dy = sqrt (rx * rx * sinphi * sinphi + ry * ry * cosphi * cosphi);
               xmin1 = (if angleBetween u thetaLeft theta0 theta1 then min xmin (cx - dx) else xmin);
               xmax1 = (if angleBetween u thetaRight theta0 theta1 then max xmax (cx + dx) else xmax);
               ymin1 = (if angleBetween u thetaBottom theta0 theta1 then min ymin (cy - dy) else ymin);
               ymax1 = (if angleBetween u thetaTop theta0 theta1 then max ymax (cy + dy) else ymax)
           in Inr (endp, (min xmin1 (X endp), max xmax1 (X endp),
                          min ymin1 (Y endp), max ymax1 (Y endp))))
      else Inr (endp, bx))"

function bounds_loop ::
  "(Path \<Rightarrow> nat \<Rightarrow> Point \<Rightarrow> Point \<Rightarrow> box \<Rightarrow> error + (Point \<times> box))
     \<Rightarrow> Path \<Rightarrow> nat \<Rightarrow> Point \<Rightarrow> Point \<Rightarrow> box \<Rightarrow> error + Rect" where
  "bounds_loop step d i start endp bx =
     (if i < length d then
        (case step d i start endp bx of
           Inl e \<Rightarrow> Inl e
         | Inr (endp', bx') \<Rightarrow>
             if \<not> cmdLen_ok (d ! i) then Inl IndexOutOfRange
             else bounds_loop step d (i + cmdLen (d ! i)) endp' endp' bx')
      else
        (case bx of (xmin, xmax, ymin, ymax) \<Rightarrow>
           Inr \<lparr> X0 = xmin, Y0 = ymin, X1 = xmax, Y1 = ymax \<rparr>))"
  by pat_completeness auto
termination
proof -
  have pos: "0 < cmdLen c" if "cmdLen_ok c" for c
  proof -
    from that have "cmdIndex c < 6"
      by (simp add: cmdLen_ok_def cmdLens_def)
    then show ?thesis
      by (auto simp: cmdLen_def cmdLens_def nth_Cons')
  qed
  show ?thesis
    by (relation "measure (\<lambda>(step, d, i, start, endp, bx). length d - i)")
       (auto simp: pos intro: diff_less_mono2)
qed

declare bounds_loop.simps [simp del]

definition emptyRect :: Rect where
  "emptyRect = \<lparr> X0 = 0, Y0 = 0, X1 = 0, Y1 = 0 \<rparr>"

definition FastBounds :: "util \<Rightarrow> Path \<Rightarrow> error + Rect" where
  "FastBounds u d =
     (if length d < 4 then Inr emptyRect
      else
        let start = Point (d ! 1) (d ! 2) in
        bounds_loop (FastBounds_step u) d 4 start (Point 0 0)
          (X start, X start, Y start, Y start))"

definition Bounds :: "util \<Rightarrow> Path \<Rightarrow> error + Rect" where
  "Bounds u d =
     (if length d < 4 then Inr emptyRect
      else
        let start = Point (d ! 1) (d ! 2) in
        bounds_loop (Bounds_step u) d 4 start (Point 0 0)
          (X start, X start, Y start, Y start))"

text \<open>The containment that the spec asks of the two boxes.\<close>

definition contains :: "Rect \<Rightarrow> Rect \<Rightarrow> bool" where
  "contains outer inner =
     (X0 outer \<le> X0 inner \<and> X1 inner \<le> X1 outer \<and> Y0 outer \<le> Y0 inner \<and> Y1 inner \<le> Y1 outer)"


section \<open>Curve length\<close>

text \<open>
  \<open>quadraticBezierLength\<close> returns the closed form of the arc length unless the quadratic
  coefficient vanishes within the tolerance. The closed form divides and takes a logarithm;
  where Go would produce NaN or an infinity there (a zero divisor, a logarithm of a
  number that is not positive, a square root of a negative number) the model returns
  \<open>None\<close>.
\<close>

definition quadraticBezierLength :: "float64 \<Rightarrow> Point \<Rightarrow> Point \<Rightarrow> Point \<Rightarrow> float64 option" where
  "quadraticBezierLength eps p0 p1 p2 =
     (let a = Point_Add (Point_Sub p0 (Point_Mul p1 2)) p2;
          b = Point_Sub (Point_Mul p1 2) (Point_Mul p0 2);
          A = 4 * Point_Dot a a;
          B = 4 * Point_Dot a b;
          C = Point_Dot b b
      in
      if Equal eps A 0 then Some (Point_Length (Point_Sub p2 p0))
      else if A + B + C < 0 \<or> A < 0 \<or> C < 0 then None
      else
        let Sabc = 2 * sqrt (A + B + C);
            A2 = sqrt A;
            A32 = 2 * A * A2;
            C2 = 2 * sqrt C
        in
        if A2 = 0 \<or> A32 = 0 then None
        else
          let BA = B / A2 in
          if BA + C2 = 0 \<or> (2 * A2 + BA + Sabc) / (BA + C2) \<le> 0 then None
          else Some ((A32 * Sabc + A2 * B * (Sabc - C2)
                        + (4 * C * A - B * B) * ln ((2 * A2 + BA + Sabc) / (BA + C2)))
                      / (4 * A32)))"


section \<open>Parsing SVG path data\<close>

text \<open>
  The input is a byte string. \<open>ParseSVGPath\<close> ends in one of three ways: a run-time panic,
  a returned error (with a \<open>nil\<close> path), or a path (with a \<open>nil\<close> error). The five
  \<open>fmt.Errorf\<close> calls of the function are the constructors of \<open>parseError\<close>, with the values
  their format strings print:

    \<^item> \<open>NoLeadingCommand\<close>: "bad path: path should start with command";
    \<^item> \<open>BadFlags cmd pos\<close>: "bad path: largeArc and sweep flags should be 0 or 1 in command
      'cmd' at position pos";
    \<^item> \<open>UnknownCommand c pos\<close>: "bad path: unknown command 'c' at position pos";
    \<^item> \<open>SetsOfNumbers n cmd pos\<close>: "bad path: sets of n numbers should follow command 'cmd'
      at position pos";
    \<^item> \<open>NumberExpected cmd pos\<close>: "bad path: number should follow command 'cmd' at position
      pos".
\<close>

datatype parseError =
    NoLeadingCommand
  | BadFlags char nat
  | UnknownCommand char nat
  | SetsOfNumbers nat char nat
  | NumberExpected char nat

datatype 'a outcome = Crash error | Bad parseError | Good 'a

text \<open>The position that an error message prints, if it prints one.\<close>

fun position :: "parseError \<Rightarrow> nat option" where
  "position NoLeadingCommand = None"
| "position (BadFlags cmd pos) = Some pos"
| "position (UnknownCommand c pos) = Some pos"
| "position (SetsOfNumbers n cmd pos) = Some pos"
| "position (NumberExpected cmd pos) = Some pos"

definition isSeparator :: "char \<Rightarrow> bool" where
  "isSeparator c =
     (c = CHR '' '' \<or> c = CHR '','' \<or> c = CHR 0x0A \<or> c = CHR 0x0D \<or> c = CHR 0x09)"

definition skipCommaWhitespace :: "string \<Rightarrow> nat" where
  "skipCommaWhitespace path = length (takeWhile isSeparator path)"

text \<open>
  The map \<open>cmdLens\<close> local to \<open>ParseSVGPath\<close>; a key that is not in a Go map reads as 0.
\<close>

definition argCount :: "char \<Rightarrow> nat" where
  "argCount CMD =
     (if CMD = CHR ''M'' then 2 else if CMD = CHR ''Z'' then 0 else if CMD = CHR ''L'' then 2
      else if CMD = CHR ''H'' then 1 else if CMD = CHR ''V'' then 1 else if CMD = CHR ''C'' then 6
      else if CMD = CHR ''S'' then 4 else if CMD = CHR ''Q'' then 4 else if CMD = CHR ''T'' then 2
      else if CMD = CHR ''A'' then 7 else 0)"

definition startsNumber :: "char \<Rightarrow> bool" where
  "startsNumber c =
     ((48 \<le> (of_char c :: nat) \<and> (of_char c :: nat) \<le> 57)
      \<or> c = CHR ''.'' \<or> c = CHR ''-'' \<or> c = CHR ''+'')"

definition upperCmd :: "char \<Rightarrow> char" where
  "upperCmd cmd =
     (if 97 \<le> (of_char cmd :: nat) \<and> (of_char cmd :: nat) \<le> 122
      then char_of ((of_char cmd :: nat) - 32) else cmd)"

text \<open>
  The loop over the arguments of one command. \<open>strconv.ParseFloat\<close> belongs to an external
  library; it is the parameter \<open>pf\<close>, which returns the number and how many bytes it read
  (0 when the bytes do not start with a number). The loop starts with \<open>i\<close> inside the
  string or at its end; should \<open>pf\<close> report more bytes than it was given, the next slice
  expression \<open>path[i:]\<close> panics. The loop returns the new index and the array \<open>f\<close>.
\<close>

function parseArgs ::
  "(string \<Rightarrow> float64 \<times> nat) \<Rightarrow> string \<Rightarrow> char \<Rightarrow> char \<Rightarrow> bool \<Rightarrow> nat \<Rightarrow> nat
     \<Rightarrow> float64 list \<Rightarrow> (nat \<times> float64 list) outcome" where
  "parseArgs pf path cmd CMD repeat j i f =
     (if j < argCount CMD then
        (if CMD = CHR ''A'' \<and> (j = 3 \<or> j = 4) then
           (if i < length path \<and> path ! i = CHR ''1'' then
              parseArgs pf path cmd CMD repeat (j + 1)
                (i + 1 + skipCommaWhitespace (drop (i + 1) path)) (f[j := 1])
            else if i < length path \<and> path ! i = CHR ''0'' then
              parseArgs pf path cmd CMD repeat (j + 1)
                (i + 1 + skipCommaWhitespace (drop (i + 1) path)) (f[j := 0])
            else Bad (BadFlags cmd (i + 1)))
         else
           (case pf (drop i path) of (num, n) \<Rightarrow>
              if n = 0 then
                (if repeat \<and> j = 0 \<and> i < length path then Bad (UnknownCommand (path ! i) (i + 1))
                 else if 1 < argCount CMD then Bad (SetsOfNumbers (argCount CMD) cmd (i + 1))
                 else Bad (NumberExpected cmd (i + 1)))
              else if length path < i + n then Crash IndexOutOfRange
              else
                parseArgs pf path cmd CMD repeat (j + 1)
                  (i + n + skipCommaWhitespace (drop (i + n) path)) (f[j := num])))
      else Good (i, f))"
  by pat_completeness auto
termination
  by (relation "measure (\<lambda>(pf, path, cmd, CMD, repeat, j, i, f). argCount CMD - j)") auto

declare parseArgs.simps [simp del]

text \<open>
  The variables that live across the iterations of the outer loop: the index \<open>i\<close>, the
  path \<open>p\<close>, the last control points \<open>q\<close> and \<open>c\<close>, the points \<open>p0\<close> and \<open>p1\<close>, the previous
  command and the array \<open>f\<close>.
\<close>

record parser =
  idx :: nat
  pth :: Path
  qpt :: Point
  cpt :: Point
  p0 :: Point
  p1 :: Point
  prevCmd :: char
  fs :: "float64 list"

text \<open>
  Every case of the \<open>switch\<close> ends in a call of a mutator. \<open>andThen r k\<close> is the state
  \<open>k d'\<close> when the mutator returned the data \<open>d'\<close>, and the panic when it panicked.
\<close>

definition andThen :: "error + 'a \<Rightarrow> ('a \<Rightarrow> parser) \<Rightarrow> parser outcome" where
  "andThen r k = (case r of Inl e \<Rightarrow> Crash e | Inr v \<Rightarrow> Good (k v))"

text \<open>
  The \<open>switch\<close> on the command, with the two assignments \<open>prevCmd = cmd\<close> and \<open>p0 = p1\<close>
  that follow it. It gets the state after the arguments were read (\<open>idx\<close> is the index
  behind them) and the command.
\<close>

definition execCmd :: "util \<Rightarrow> char \<Rightarrow> parser \<Rightarrow> parser outcome" where
  "execCmd u cmd st =
     (let f = fs st; a = p0 st; prev = prevCmd st; d = pth st in
      if cmd = CHR ''M'' \<or> cmd = CHR ''m'' then
        (let b = (if cmd = CHR ''m'' then Point_Add (Point (f ! 0) (f ! 1)) a
                  else Point (f ! 0) (f ! 1));
             cmd' = (if cmd = CHR ''m'' then CHR ''l'' else CHR ''L'')
         in andThen (MoveTo d (X b) (Y b))
              (\<lambda>d'. st \<lparr> pth := d', p1 := b, prevCmd := cmd', p0 := b \<rparr>))
      else if cmd = CHR ''Z'' \<or> cmd = CHR ''z'' then
        (case StartPos d of
           Inl e \<Rightarrow> Crash e
         | Inr b \<Rightarrow>
             andThen (Close u d) (\<lambda>d'. st \<lparr> pth := d', p1 := b, prevCmd := cmd, p0 := b \<rparr>))
      else if cmd = CHR ''L'' \<or> cmd = CHR ''l'' then
        (let b = (if cmd = CHR ''l'' then Point_Add (Point (f ! 0) (f ! 1)) a
                  else Point (f ! 0) (f ! 1))
         in andThen (LineTo u d (X b) (Y b))
              (\<lambda>d'. st \<lparr> pth := d', p1 := b, prevCmd := cmd, p0 := b \<rparr>))
      else if cmd = CHR ''H'' \<or> cmd = CHR ''h'' then
        (let b = Point (if cmd = CHR ''h'' then f ! 0 + X a else f ! 0) (Y (p1 st))
         in andThen (LineTo u d (X b) (Y b))
              (\<lambda>d'. st \<lparr> pth := d', p1 := b, prevCmd := cmd, p0 := b \<rparr>))
      else if cmd = CHR ''V'' \<or> cmd = CHR ''v'' then
        (let b = Point (X (p1 st)) (if cmd = CHR ''v'' then f ! 0 + Y a else f ! 0)
         in andThen (LineTo u d (X b) (Y b))
              (\<lambda>d'. st \<lparr> pth := d', p1 := b, prevCmd := cmd, p0 := b \<rparr>))
      else if cmd = CHR ''C'' \<or> cmd = CHR ''c'' then
        (let rel = (cmd = CHR ''c'');
             cp1 = (if rel then Point_Add (Point (f ! 0) (f ! 1)) a else Point (f ! 0) (f ! 1));
             cp2 = (if rel then Point_Add (Point (f ! 2) (f ! 3)) a else Point (f ! 2) (f ! 3));
             b = (if rel then Point_Add (Point (f ! 4) (f ! 5)) a else Point (f ! 4) (f ! 5))
         in andThen (CubeTo u d (X cp1) (Y cp1) (X cp2) (Y cp2) (X b) (Y b))
              (\<lambda>d'. st \<lparr> pth := d', cpt := cp2, p1 := b, prevCmd := cmd, p0 := b \<rparr>))
      else if cmd = CHR ''S'' \<or> cmd = CHR ''s'' then
        (let rel = (cmd = CHR ''s'');
             cp2 = (if rel then Point_Add (Point (f ! 0) (f ! 1)) a else Point (f ! 0) (f ! 1));
             b = (if rel then Point_Add (Point (f ! 2) (f ! 3)) a else Point (f ! 2) (f ! 3));
             cp1 = (if prev = CHR ''C'' \<or> prev = CHR ''c'' \<or> prev = CHR ''S'' \<or> prev = CHR ''s''
                    then Point_Sub (Point_Mul a 2) (cpt st) else a)
         in andThen (CubeTo u d (X cp1) (Y cp1) (X cp2) (Y cp2) (X b) (Y b))
              (\<lambda>d'. st \<lparr> pth := d', cpt := cp2, p1 := b, prevCmd := cmd, p0 := b \<rparr>))
      else if cmd = CHR ''Q'' \<or> cmd = CHR ''q'' then
        (let rel = (cmd = CHR ''q'');
             cp = (if rel then Point_Add (Point (f ! 0) (f ! 1)) a else Point (f ! 0) (f ! 1));
             b = (if rel then Point_Add (Point (f ! 2) (f ! 3)) a else Point (f ! 2) (f ! 3))
         in andThen (QuadTo u d (X cp) (Y cp) (X b) (Y b))
              (\<lambda>d'. st \<lparr> pth := d', qpt := cp, p1 := b, prevCmd := cmd, p0 := b \<rparr>))
      else if cmd = CHR ''T'' \<or> cmd = CHR ''t'' then
        (let b = (if cmd = CHR ''t'' then Point_Add (Point (f ! 0) (f ! 1)) a
                  else Point (f ! 0) (f ! 1));
             cp = (if prev = CHR ''Q'' \<or> prev = CHR ''q'' \<or> prev = CHR ''T'' \<or> prev = CHR ''t''
                   then Point_Sub (Point_Mul a 2) (qpt st) else a)
         in andThen (QuadTo u d (X cp) (Y cp) (X b) (Y b))
              (\<lambda>d'. st \<lparr> pth := d', qpt := cp, p1 := b, prevCmd := cmd, p0 := b \<rparr>))
      else if cmd = CHR ''A'' \<or> cmd = CHR ''a'' then
        (let b = (if cmd = CHR ''a'' then Point_Add (Point (f ! 5) (f ! 6)) a
                  else Point (f ! 5) (f ! 6))
         in andThen (ArcTo u d (f ! 0) (f ! 1) (f ! 2) (f ! 3 = 1) (f ! 4 = 1) (X b) (Y b))
              (\<lambda>d'. st \<lparr> pth := d', p1 := b, prevCmd := cmd, p0 := b \<rparr>))
      else Bad (UnknownCommand cmd (idx st + 1)))"

text \<open>
  One iteration of the outer loop behind its exit test: \<open>idx st\<close> is an index inside the
  string. The command is the byte at the index (a fresh command, which is consumed together
  with the separators behind it), or the previous command when that byte starts a number
  (\<open>repeat\<close> in the source).
\<close>

definition freshCmd :: "string \<Rightarrow> parser \<Rightarrow> bool" where
  "freshCmd path st =
     (prevCmd st = CHR ''z'' \<or> prevCmd st = CHR ''Z'' \<or> \<not> startsNumber (path ! idx st))"

definition cmdAt :: "string \<Rightarrow> parser \<Rightarrow> char" where
  "cmdAt path st = (if freshCmd path st then path ! idx st else prevCmd st)"

definition argsAt :: "string \<Rightarrow> parser \<Rightarrow> nat" where
  "argsAt path st =
     (if freshCmd path st then idx st + 1 + skipCommaWhitespace (drop (idx st + 1) path)
      else idx st)"

definition parseCommand ::
  "(string \<Rightarrow> float64 \<times> nat) \<Rightarrow> util \<Rightarrow> string \<Rightarrow> parser \<Rightarrow> parser outcome" where
  "parseCommand pf u path st =
     (let cmd = cmdAt path st in
      case parseArgs pf path cmd (upperCmd cmd) (\<not> freshCmd path st) 0 (argsAt path st) (fs st) of
        Crash e \<Rightarrow> Crash e
      | Bad e \<Rightarrow> Bad e
      | Good (i, f) \<Rightarrow> execCmd u cmd (st \<lparr> idx := i, fs := f \<rparr>))"

text \<open>
  What the position of a returned error must satisfy to point into the string \<open>path\<close>: it
  lies between 1 and one past the end, and for the flag error the byte at the position, if
  there is one, is neither \<open>0\<close> nor \<open>1\<close>.
\<close>

fun positional :: "string \<Rightarrow> parseError \<Rightarrow> bool" where
  "positional path NoLeadingCommand = False"
| "positional path (BadFlags cmd pos) =
     (1 \<le> pos \<and> pos \<le> length path + 1 \<and> upperCmd cmd = CHR ''A''
      \<and> (if pos \<le> length path
          then path ! (pos - 1) \<noteq> CHR ''0'' \<and> path ! (pos - 1) \<noteq> CHR ''1'' else True))"
| "positional path (UnknownCommand c pos) = (1 \<le> pos \<and> pos \<le> length path + 1)"
| "positional path (SetsOfNumbers n cmd pos) = (1 \<le> pos \<and> pos \<le> length path + 1)"
| "positional path (NumberExpected cmd pos) = (1 \<le> pos \<and> pos \<le> length path + 1)"

text \<open>
  The outer loop and the function. Every iteration that does not return moves the index
  forward: a fresh command consumes its own byte, and a repeated command is one that takes
  arguments, whose first number consumes at least one byte.
\<close>

function parseLoop ::
  "(string \<Rightarrow> float64 \<times> nat) \<Rightarrow> util \<Rightarrow> string \<Rightarrow> parser \<Rightarrow> Path outcome" where
  "parseLoop pf u path st =
     (if length path < idx st then Crash IndexOutOfRange
      else
        let i = idx st + skipCommaWhitespace (drop (idx st) path) in
        if length path \<le> i then Good (pth st)
        else
          (case parseCommand pf u path (st \<lparr> idx := i \<rparr>) of
             Crash e \<Rightarrow> Crash e
           | Bad e \<Rightarrow> Bad e
           | Good st' \<Rightarrow> parseLoop pf u path st'))"
  by pat_completeness auto
termination
proof -
  have mono: "i \<le> i'" if "parseArgs pf path cmd CMD r j i f = Good (i', f')"
    for pf path cmd CMD r j i f i' f'
    using that
  proof (induction pf path cmd CMD r j i f rule: parseArgs.induct)
    case (1 pf path cmd CMD r j i f)
    show ?case
    proof (cases "j < argCount CMD")
      case False
      with "1.prems" show ?thesis by (simp add: parseArgs.simps)
    next
      case j: True
      show ?thesis
      proof (cases "CMD = CHR ''A'' \<and> (j = 3 \<or> j = 4)")
        case flag: True
        consider (one) "i < length path \<and> path ! i = CHR ''1''"
          | (zero) "\<not> (i < length path \<and> path ! i = CHR ''1'')"
                   "i < length path \<and> path ! i = CHR ''0''"
          | (bad) "\<not> (i < length path \<and> path ! i = CHR ''1'')"
                  "\<not> (i < length path \<and> path ! i = CHR ''0'')"
          by blast
        then show ?thesis
        proof cases
          case one
          with "1.prems" j flag have
            "parseArgs pf path cmd CMD r (j + 1)
               (i + 1 + skipCommaWhitespace (drop (i + 1) path)) (f[j := 1]) = Good (i', f')"
            by (subst (asm) parseArgs.simps) simp
          from "1.IH"(1)[OF j flag one this] show ?thesis by simp
        next
          case zero
          with "1.prems" j flag have
            "parseArgs pf path cmd CMD r (j + 1)
               (i + 1 + skipCommaWhitespace (drop (i + 1) path)) (f[j := 0]) = Good (i', f')"
            by (subst (asm) parseArgs.simps) simp
          from "1.IH"(2)[OF j flag zero this] show ?thesis by simp
        next
          case bad
          with "1.prems" j flag show ?thesis
            by (subst (asm) parseArgs.simps) (auto split: if_splits)
        qed
      next
        case noflag: False
        obtain num n where pf: "pf (drop i path) = (num, n)" by force
        show ?thesis
        proof (cases "n = 0 \<or> length path < i + n")
          case True
          with "1.prems" j noflag pf show ?thesis
            by (subst (asm) parseArgs.simps) (auto split: if_splits)
        next
          case False
          with "1.prems" j noflag pf have
            "parseArgs pf path cmd CMD r (j + 1)
               (i + n + skipCommaWhitespace (drop (i + n) path)) (f[j := num]) = Good (i', f')"
            by (subst (asm) parseArgs.simps) simp
          moreover from False have "n \<noteq> 0" "\<not> length path < i + n" by simp_all
          ultimately have "i + n + skipCommaWhitespace (drop (i + n) path) \<le> i'"
            using "1.IH"(3)[OF j noflag pf[symmetric]] by blast
          then show ?thesis by simp
        qed
      qed
    qed
  qed
  have first: "i < i'"
    if "parseArgs pf path cmd CMD r 0 i f = Good (i', f')" "0 < argCount CMD"
    for pf path cmd CMD r i f i' f'
  proof -
    obtain num n where pf: "pf (drop i path) = (num, n)" by force
    from that pf have n: "n \<noteq> 0"
      by (subst (asm) parseArgs.simps) (auto split: if_splits)
    from that pf n have
      "parseArgs pf path cmd CMD r (0 + 1)
         (i + n + skipCommaWhitespace (drop (i + n) path)) (f[0 := num]) = Good (i', f')"
      by (subst (asm) parseArgs.simps) (auto split: if_splits)
    from mono[OF this] n show ?thesis by simp
  qed
  have andThen_Good: "(andThen r k = Good st') = (\<exists>v. r = Inr v \<and> st' = k v)"
    for r :: "error + 'a" and k st'
    by (cases r) (auto simp: andThen_def)
  have known: "cmd \<in> set ''MmZzLlHhVvCcSsQqTtAa''"
    if "execCmd u cmd st = Good st'" for u cmd st st'
  proof (rule ccontr)
    assume "cmd \<notin> set ''MmZzLlHhVvCcSsQqTtAa''"
    then have "execCmd u cmd st = Bad (UnknownCommand cmd (idx st + 1))"
      by (simp add: execCmd_def)
    with that show False by simp
  qed
  have upper:
    "upperCmd (CHR ''M'') = CHR ''M''" "upperCmd (CHR ''m'') = CHR ''M''"
    "upperCmd (CHR ''L'') = CHR ''L''" "upperCmd (CHR ''l'') = CHR ''L''"
    "upperCmd (CHR ''H'') = CHR ''H''" "upperCmd (CHR ''h'') = CHR ''H''"
    "upperCmd (CHR ''V'') = CHR ''V''" "upperCmd (CHR ''v'') = CHR ''V''"
    "upperCmd (CHR ''C'') = CHR ''C''" "upperCmd (CHR ''c'') = CHR ''C''"
    "upperCmd (CHR ''S'') = CHR ''S''" "upperCmd (CHR ''s'') = CHR ''S''"
    "upperCmd (CHR ''Q'') = CHR ''Q''" "upperCmd (CHR ''q'') = CHR ''Q''"
    "upperCmd (CHR ''T'') = CHR ''T''" "upperCmd (CHR ''t'') = CHR ''T''"
    "upperCmd (CHR ''A'') = CHR ''A''" "upperCmd (CHR ''a'') = CHR ''A''"
    by code_simp+
  have exec: "idx st' = idx st
              \<and> (cmd \<noteq> CHR ''z'' \<and> cmd \<noteq> CHR ''Z'' \<longrightarrow> 0 < argCount (upperCmd cmd))"
    if ex: "execCmd u cmd st = Good st'" for u cmd st st'
  proof -
    from known[OF ex] have
      "cmd = CHR ''M'' \<or> cmd = CHR ''m'' \<or> cmd = CHR ''Z'' \<or> cmd = CHR ''z''
       \<or> cmd = CHR ''L'' \<or> cmd = CHR ''l'' \<or> cmd = CHR ''H'' \<or> cmd = CHR ''h''
       \<or> cmd = CHR ''V'' \<or> cmd = CHR ''v'' \<or> cmd = CHR ''C'' \<or> cmd = CHR ''c''
       \<or> cmd = CHR ''S'' \<or> cmd = CHR ''s'' \<or> cmd = CHR ''Q'' \<or> cmd = CHR ''q''
       \<or> cmd = CHR ''T'' \<or> cmd = CHR ''t'' \<or> cmd = CHR ''A'' \<or> cmd = CHR ''a''"
      by simp
    then show ?thesis
      using ex
      by (elim disjE;
          clarsimp simp: execCmd_def Let_def andThen_Good argCount_def upper
                   split: sum.split_asm)
  qed
  have progress: "idx st < idx st'"
    if "parseCommand pf u path st = Good st'" for pf u path st st'
  proof -
    define fresh where "fresh = freshCmd path st"
    define cmd where "cmd = cmdAt path st"
    define i' where "i' = argsAt path st"
    from that obtain i'' f where
      pa: "parseArgs pf path cmd (upperCmd cmd) (\<not> fresh) 0 i' (fs st) = Good (i'', f)"
      and ex: "execCmd u cmd (st \<lparr> idx := i'', fs := f \<rparr>) = Good st'"
      unfolding parseCommand_def Let_def fresh_def cmd_def i'_def
      by (auto split: outcome.splits)
    from exec[OF ex] have id: "idx st' = i''"
      and ac: "cmd \<noteq> CHR ''z'' \<and> cmd \<noteq> CHR ''Z'' \<longrightarrow> 0 < argCount (upperCmd cmd)" by simp_all
    show ?thesis
    proof (cases fresh)
      case True
      then have "idx st < i'" by (simp add: i'_def argsAt_def fresh_def)
      with mono[OF pa] id show ?thesis by simp
    next
      case False
      then have "cmd = prevCmd st" "i' = idx st"
        by (simp_all add: cmd_def i'_def cmdAt_def argsAt_def fresh_def)
      moreover from False have "prevCmd st \<noteq> CHR ''z'' \<and> prevCmd st \<noteq> CHR ''Z''"
        by (simp add: fresh_def freshCmd_def)
      ultimately have "0 < argCount (upperCmd cmd)" using ac by simp
      from first[OF pa this] id \<open>i' = idx st\<close> show ?thesis by simp
    qed
  qed
  show ?thesis
  proof (relation "measure (\<lambda>(pf, u, path, st). length path - idx st)", goal_cases)
    case 1
    show ?case by simp
  next
    case (2 pf u path st i st')
    then have "parseCommand pf u path (st \<lparr> idx := i \<rparr>) = Good st'" by simp
    from progress[OF this] 2 show ?case by simp
  qed
qed

declare parseLoop.simps [simp del]

definition newParser :: "nat \<Rightarrow> parser" where
  "newParser i =
     \<lparr> idx = i, pth = [], qpt = Point 0 0, cpt = Point 0 0, p0 = Point 0 0, p1 = Point 0 0,
       prevCmd = CHR ''z'', fs = replicate 7 0 \<rparr>"

definition ParseSVGPath :: "(string \<Rightarrow> float64 \<times> nat) \<Rightarrow> util \<Rightarrow> string \<Rightarrow> Path outcome" where
  "ParseSVGPath pf u s =
     (if length s = 0 then Good []
      else
        let i = skipCommaWhitespace s in
        if s ! 0 = CHR '','' then Bad NoLeadingCommand
        else if length s \<le> i then Crash IndexOutOfRange
        else if (of_char (s ! i) :: nat) < 65 then Bad NoLeadingCommand
        else parseLoop pf u s (newParser i))"


text \<open>
  The run of the two loops up to a given point, to say where in a string an error arises.

  \<open>readArgs k\<close> is the argument loop's first \<open>k\<close> iterations from argument \<open>j\<close> at index
  \<open>i\<close>: the index and the array behind them when each of the \<open>k\<close> iterations read its
  argument (a flag byte \<open>0\<close> or \<open>1\<close>, or a number with its separators), \<open>None\<close> when one of
  them returned an error or panicked, or the command has fewer arguments.

  \<open>commands k\<close> is the outer loop's first \<open>k\<close> iterations: the state behind them when each
  of the \<open>k\<close> iterations found a command, read its arguments and executed it, \<open>None\<close>
  when the loop ended or returned before. \<open>atCommand\<close> is the first statement of an
  iteration, which moves the index over the separators.
\<close>

primrec readArgs ::
  "nat \<Rightarrow> (string \<Rightarrow> float64 \<times> nat) \<Rightarrow> string \<Rightarrow> char \<Rightarrow> nat \<Rightarrow> nat \<Rightarrow> float64 list
     \<Rightarrow> (nat \<times> float64 list) option" where
  "readArgs 0 pf path CMD j i f = Some (i, f)"
| "readArgs (Suc k) pf path CMD j i f =
     (if j < argCount CMD then
        (if CMD = CHR ''A'' \<and> (j = 3 \<or> j = 4) then
           (if i < length path \<and> path ! i = CHR ''1'' then
              readArgs k pf path CMD (j + 1)
                (i + 1 + skipCommaWhitespace (drop (i + 1) path)) (f[j := 1])
            else if i < length path \<and> path ! i = CHR ''0'' then
              readArgs k pf path CMD (j + 1)
                (i + 1 + skipCommaWhitespace (drop (i + 1) path)) (f[j := 0])
            else None)
         else
           (case pf (drop i path) of (num, n) \<Rightarrow>
              if n = 0 \<or> length path < i + n then None
              else
                readArgs k pf path CMD (j + 1)
                  (i + n + skipCommaWhitespace (drop (i + n) path)) (f[j := num])))
      else None)"

definition atCommand :: "string \<Rightarrow> parser \<Rightarrow> parser" where
  "atCommand path st = st \<lparr> idx := idx st + skipCommaWhitespace (drop (idx st) path) \<rparr>"

primrec commands ::
  "nat \<Rightarrow> (string \<Rightarrow> float64 \<times> nat) \<Rightarrow> util \<Rightarrow> string \<Rightarrow> parser \<Rightarrow> parser option" where
  "commands 0 pf u path st = Some st"
| "commands (Suc k) pf u path st =
     (if length path < idx st \<or> length path \<le> idx (atCommand path st) then None
      else
        (case parseCommand pf u path (atCommand path st) of
           Good st' \<Rightarrow> commands k pf u path st'
         | Crash e \<Rightarrow> None
         | Bad e \<Rightarrow> None))"

text \<open>
  The test that \<open>ParseSVGPath\<close> makes before its loop, passed: the string does not start
  with a comma and the first byte behind its leading separators is not below \<open>A\<close>.
\<close>

definition startsWithCommand :: "string \<Rightarrow> bool" where
  "startsWithCommand s =
     (s \<noteq> [] \<and> s ! 0 \<noteq> CHR '','' \<and> skipCommaWhitespace s < length s
      \<and> 65 \<le> (of_char (s ! skipCommaWhitespace s) :: nat))"

section \<open>Concrete parameters for statements at concrete inputs\<close>

text \<open>
  A \<open>util\<close> record with a given tolerance whose other helpers are left unspecified, a
  matrix library over the one-element type whose operations are left unspecified, and
  line solvers left unspecified. They
  instantiate the parameters where a statement at a concrete input needs closed terms;
  nothing can be proved from an unspecified helper, so such a statement holds for every
  choice of the helpers.
\<close>

definition tolerance :: "float64 \<Rightarrow> util" where
  "tolerance e =
     \<lparr> Epsilon = e, angleNorm = undefined, angleEqual = undefined, angleBetween = undefined,
       angleTime = undefined, Interval = undefined, IntervalExclusive = undefined,
       Point_AngleBetween = undefined, Point_Angle = undefined,
       solveQuadraticFormula = undefined \<rparr>"

definition anyMatrixOps :: "unit matrix_ops" where
  "anyMatrixOps =
     \<lparr> Identity = (), Matrix_Mul = undefined, Matrix_Dot = undefined,
       Matrix_Rotate = undefined, Matrix_Scale = undefined, Matrix_Inv = undefined,
       Matrix_T = undefined, Matrix_Eigen = undefined, Matrix_Decompose = undefined \<rparr>"

definition anySolvers :: lineSolvers where
  "anySolvers =
     \<lparr> intersectionLineLine = undefined, intersectionLineQuad = undefined,
       intersectionLineCube = undefined, intersectionLineEllipse = undefined \<rparr>"

text \<open>
  A stand-in for \<open>strconv.ParseFloat\<close> that reads one decimal digit, for statements about
  \<open>ParseSVGPath\<close> at concrete strings.
\<close>

definition digitFloat :: "string \<Rightarrow> float64 \<times> nat" where
  "digitFloat s =
     (case s of
        [] \<Rightarrow> (0, 0)
      | c # cs \<Rightarrow>
          if 48 \<le> (of_char c :: nat) \<and> (of_char c :: nat) \<le> 57
          then (real ((of_char c :: nat) - 48), 1) else (0, 0))"

text \<open>The drawing commands: every mutator but \<open>MoveTo\<close> and \<open>Close\<close>.\<close>

fun isDrawing :: "mutator \<Rightarrow> bool" where
  "isDrawing (CallMoveTo x y) = False"
| "isDrawing CallClose = False"
| "isDrawing m = True"

text \<open>
  The first test of each drawing command, taken at the current position \<open>start\<close>: the
  command returns at once, leaving the path as it is, when its end point and, for the two
  curves, its control points equal the current position within the tolerance.
\<close>

fun dropped :: "float64 \<Rightarrow> Point \<Rightarrow> mutator \<Rightarrow> bool" where
  "dropped eps start (CallLineTo x y) = Point_Equals eps start (Point x y)"
| "dropped eps start (CallQuadTo cpx cpy x y) =
     (Point_Equals eps start (Point x y) \<and> Point_Equals eps start (Point cpx cpy))"
| "dropped eps start (CallCubeTo cpx1 cpy1 cpx2 cpy2 x y) =
     (Point_Equals eps start (Point x y) \<and> Point_Equals eps start (Point cpx1 cpy1)
      \<and> Point_Equals eps start (Point cpx2 cpy2))"
| "dropped eps start (CallArcTo rx ry rot large sweep x y) =
     Point_Equals eps start (Point x y)"
| "dropped eps start (CallMoveTo x y) = False"
| "dropped eps start CallClose = False"

text \<open>
  The slots that a drawing command may append: a \<open>LineTo\<close> to its end point (the command
  itself, or a curve or arc that the source hands to \<open>LineTo\<close>), or a slot of its own
  command with the control points it was given and its end point; for an arc, whose radii
  and rotation are stored in canonical form, with the flags it was given and its end
  point.
\<close>

fun drawsAs :: "mutator \<Rightarrow> float64 list \<Rightarrow> bool" where
  "drawsAs (CallLineTo x y) s = (s = [LineToCmd, x, y, LineToCmd])"
| "drawsAs (CallQuadTo cpx cpy x y) s =
     (s = [LineToCmd, x, y, LineToCmd] \<or> s = [QuadToCmd, cpx, cpy, x, y, QuadToCmd])"
| "drawsAs (CallCubeTo cpx1 cpy1 cpx2 cpy2 x y) s =
     (s = [LineToCmd, x, y, LineToCmd]
      \<or> s = [CubeToCmd, cpx1, cpy1, cpx2, cpy2, x, y, CubeToCmd])"
| "drawsAs (CallArcTo rx ry rot large sweep x y) s =
     (s = [LineToCmd, x, y, LineToCmd]
      \<or> (length s = 8 \<and> s ! 0 = ArcToCmd \<and> s ! 4 = fromArcFlags large sweep
          \<and> s ! 5 = x \<and> s ! 6 = y \<and> s ! 7 = ArcToCmd))"
| "drawsAs (CallMoveTo x y) s = False"
| "drawsAs CallClose s = False"

lemma Epsilon_tolerance [simp]: "Epsilon (tolerance e) = e"
  by (simp add: tolerance_def)

lemma float64_exponent_pow2: "float64_exponent (2 ^ k) = k + 1023"
proof -
  have "(2::real) powr (- 1022) \<le> 1" by (simp add: powr_neg_numeral)
  also have "(1::real) \<le> 2 ^ k" by simp
  finally have "\<not> \<bar>(2::real) ^ k\<bar> < 2 powr (- 1022)" by simp
  moreover have "log 2 (2 ^ k) = real k" by (rule log_pow_cancel) simp_all
  ultimately show ?thesis by (simp add: float64_exponent_def nat_add_distrib)
qed

lemma cmdIndex_cmds:
  "cmdIndex MoveToCmd = 0" "cmdIndex LineToCmd = 1" "cmdIndex QuadToCmd = 2"
  "cmdIndex CubeToCmd = 3" "cmdIndex ArcToCmd = 4" "cmdIndex CloseCmd = 5"
  using float64_exponent_pow2[of 0] float64_exponent_pow2[of 1] float64_exponent_pow2[of 2]
    float64_exponent_pow2[of 3] float64_exponent_pow2[of 4] float64_exponent_pow2[of 5]
  by (simp_all add: cmdIndex_def)

lemma cmdLen_cmds [simp]:
  "cmdLen MoveToCmd = 4" "cmdLen LineToCmd = 4" "cmdLen QuadToCmd = 6"
  "cmdLen CubeToCmd = 8" "cmdLen ArcToCmd = 8" "cmdLen CloseCmd = 4"
  by (simp_all add: cmdLen_def cmdIndex_cmds cmdLens_def)

lemma cmdLen_ok_cmds [simp]:
  "cmdLen_ok MoveToCmd" "cmdLen_ok LineToCmd" "cmdLen_ok QuadToCmd"
  "cmdLen_ok CubeToCmd" "cmdLen_ok ArcToCmd" "cmdLen_ok CloseCmd"
  by (simp_all add: cmdLen_ok_def cmdIndex_cmds cmdLens_def)

lemma cmdLen_ge4: "cmdLen_ok c \<Longrightarrow> 4 \<le> cmdLen c"
proof -
  assume "cmdLen_ok c"
  then have "cmdIndex c < 6" by (simp add: cmdLen_ok_def cmdLens_def)
  then show ?thesis by (auto simp: cmdLen_def cmdLens_def nth_Cons')
qed



lemma slot_length: "slot s \<Longrightarrow> 4 \<le> length s"
  by (auto simp: slot_def dest: cmdLen_ge4)

lemma packed_from_concat:
  "list_all slot ss \<Longrightarrow> packed_from (pre @ concat ss) (length pre)"
proof (induction ss arbitrary: pre)
  case Nil
  then show ?case by (subst packed_from.simps) simp
next
  case (Cons s ss)
  from Cons.prems have s: "slot s" and ss: "list_all slot ss" by simp_all
  from s have len: "4 \<le> length s" by (rule slot_length)
  from s have hd: "(pre @ s @ concat ss) ! length pre = hd s"
    by (cases s) (auto simp: slot_def nth_append)
  from s len have lst: "(pre @ s @ concat ss) ! (length pre + length s - 1) = hd s"
    by (auto simp: slot_def nth_append last_conv_nth)
  have "packed_from ((pre @ s) @ concat ss) (length (pre @ s))"
    using Cons.IH[OF ss] .
  then show ?case
    using s len hd lst
    by (subst packed_from.simps) (auto simp: slot_def)
qed

lemma packed_from_slots:
  "packed_from d i \<Longrightarrow> i \<le> length d \<Longrightarrow> \<exists>ss. drop i d = concat ss \<and> list_all slot ss"
proof (induction d i rule: packed_from.induct)
  case (1 d i)
  show ?case
  proof (cases "length d \<le> i")
    case True
    then have "drop i d = concat []" by simp
    moreover have "list_all slot []" by simp
    ultimately show ?thesis by blast
  next
    case False
    let ?n = "cmdLen (d ! i)"
    from False "1.prems" have ok: "cmdLen_ok (d ! i)" and le: "i + ?n \<le> length d"
      and lst: "d ! (i + ?n - 1) = d ! i" and rest: "packed_from d (i + ?n)"
      by (subst (asm) packed_from.simps; simp split: if_splits)+
    from "1.IH"[OF False ok _ rest] le lst
    obtain ss where ss: "drop (i + ?n) d = concat ss" "list_all slot ss" by auto
    let ?s = "take ?n (drop i d)"
    have n4: "4 \<le> ?n" using ok by (rule cmdLen_ge4)
    have len: "length ?s = ?n" using le by simp
    have hd: "hd ?s = d ! i" using n4 False by (simp add: hd_conv_nth)
    have "last ?s = ?s ! (?n - 1)" using len n4 by (simp add: last_conv_nth)
    also have "\<dots> = d ! (i + ?n - 1)" using n4 le by simp
    finally have "last ?s = d ! i" using lst by simp
    with len hd ok n4 have "slot ?s" by (auto simp: slot_def)
    moreover have "drop i d = ?s @ drop (i + ?n) d"
      by (metis append_take_drop_id drop_drop add.commute)
    ultimately have "drop i d = concat (?s # ss) \<and> list_all slot (?s # ss)"
      using ss by simp
    then show ?thesis by blast
  qed
qed

lemma packed_iff: "packed d \<longleftrightarrow> (\<exists>ss. d = concat ss \<and> list_all slot ss)"
  using packed_from_slots[of d 0] packed_from_concat[of _ "[]"]
  by (auto simp: packed_def)

lemma cmds_from_concat:
  "list_all slot ss \<Longrightarrow> cmds_from (pre @ concat ss) (length pre) = map hd ss"
proof (induction ss arbitrary: pre)
  case Nil
  then show ?case by (subst cmds_from.simps) simp
next
  case (Cons s ss)
  from Cons.prems have s: "slot s" and ss: "list_all slot ss" by simp_all
  from s have len: "4 \<le> length s" by (rule slot_length)
  from s have hd: "(pre @ s @ concat ss) ! length pre = hd s"
    by (cases s) (auto simp: slot_def nth_append)
  have "cmds_from ((pre @ s) @ concat ss) (length (pre @ s)) = map hd ss"
    using Cons.IH[OF ss] .
  then show ?case
    using s len hd
    by (subst cmds_from.simps) (auto simp: slot_def)
qed

lemma cmds_concat: "list_all slot ss \<Longrightarrow> cmds (concat ss) = map hd ss"
  using cmds_from_concat[of ss "[]"] by (simp add: cmds_def)

lemma slot4: "slot s \<Longrightarrow> cmdLen (hd s) = 4 \<Longrightarrow> \<exists>a b. s = [hd s, a, b, hd s]"
proof -
  assume s: "slot s" and "cmdLen (hd s) = 4"
  then have "length s = 4" by (simp add: slot_def)
  then obtain c a b e where [simp]: "s = [c, a, b, e]"
    by (auto simp: length_Suc_conv numeral_eq_Suc)
  from s show ?thesis by (simp add: slot_def)
qed

lemma slot_cmd4 [simp]:
  "slot [MoveToCmd, a, b, MoveToCmd]" "slot [LineToCmd, a, b, LineToCmd]"
  "slot [CloseCmd, a, b, CloseCmd]"
  by (simp_all add: slot_def)

lemma slot_cmd6 [simp]: "slot [QuadToCmd, a, b, c, e, QuadToCmd]"
  by (simp add: slot_def)

lemma slot_cmd8 [simp]:
  "slot [CubeToCmd, a, b, c, e, f, g, CubeToCmd]" "slot [ArcToCmd, a, b, c, e, f, g, ArcToCmd]"
  by (simp_all add: slot_def)

lemma slots_length: "list_all slot ss \<Longrightarrow> ss \<noteq> [] \<Longrightarrow> 4 \<le> length (concat ss)"
  by (cases ss) (auto dest: slot_length)

lemma last_nth: "d \<noteq> [] \<Longrightarrow> d ! (length d - Suc 0) = last d"
  by (simp add: last_conv_nth)

lemma nth_append_last [simp]:
  "s \<noteq> [] \<Longrightarrow> (pre @ s) ! (length pre + length s - Suc 0) = last s"
  using last_nth[of "pre @ s"] by simp

lemma MoveTo_slots:
  assumes "list_all slot ss"
  shows "MoveTo (concat ss) x y =
     Inr (concat (if ss \<noteq> [] \<and> hd (last ss) = MoveToCmd
                  then butlast ss @ [[MoveToCmd, x, y, MoveToCmd]]
                  else ss @ [[MoveToCmd, x, y, MoveToCmd]]))"
proof (cases ss rule: rev_cases)
  case Nil
  then show ?thesis by (simp add: MoveTo_def)
next
  case (snoc ss0 s)
  with assms have s: "slot s" by simp
  then have ne: "s \<noteq> []" and lst: "last s = hd s" by (simp_all add: slot_def)
  show ?thesis
  proof (cases "hd s = MoveToCmd")
    case True
    with slot4[OF s] obtain a b where [simp]: "s = [1, a, b, 1]" by auto
    show ?thesis using snoc by (simp add: MoveTo_def nth_append list_update_append)
  next
    case False
    then show ?thesis using snoc ne lst by (simp add: MoveTo_def)
  qed
qed

lemma openSubpath_slots:
  assumes "list_all slot ss"
  shows "openSubpath (concat ss) = Inr (concat (openS ss))"
proof (cases ss rule: rev_cases)
  case Nil
  then show ?thesis by (simp add: openSubpath_def MoveTo_def openS_def)
next
  case (snoc ss0 s)
  with assms have s: "slot s" by simp
  then have ne: "s \<noteq> []" and lst: "last s = hd s" by (simp_all add: slot_def)
  show ?thesis
  proof (cases "hd s = CloseCmd")
    case True
    with slot4[OF s] obtain a b where [simp]: "s = [32, a, b, 32]" by auto
    show ?thesis using snoc
      by (simp add: openSubpath_def MoveTo_def openS_def nth_append)
  next
    case False
    then show ?thesis using snoc ne lst by (simp add: openSubpath_def openS_def)
  qed
qed

lemma Pos_path_slots:
  assumes "list_all slot ss"
  shows "\<exists>pt. Pos_path (concat ss) = Inr pt"
proof (cases "ss = []")
  case True
  then show ?thesis by (simp add: Pos_path_def)
next
  case False
  from slots_length[OF assms False] show ?thesis by (simp add: Pos_path_def)
qed

lemma StartPos_from_slots:
  "list_all slot ss \<Longrightarrow> \<exists>pt. StartPos_from (concat ss @ rest) (length (concat ss)) = Inr pt"
proof (induction ss arbitrary: rest rule: rev_induct)
  case Nil
  then show ?case by (subst StartPos_from.simps) simp
next
  case (snoc s ss)
  then have s: "slot s" and ss: "list_all slot ss" by simp_all
  from s have ne: "s \<noteq> []" and lst: "last s = hd s" and ok: "cmdLen_ok (hd s)"
    and len: "length s = cmdLen (hd s)" by (simp_all add: slot_def)
  from s have l4: "4 \<le> length s" by (rule slot_length)
  let ?d = "concat (ss @ [s]) @ rest"
  let ?i = "length (concat (ss @ [s]))"
  have at: "?d ! (?i - 1) = hd s"
  proof -
    have "?d ! (?i - 1) = ((concat ss @ s) @ rest) ! (length (concat ss @ s) - 1)" by simp
    also have "\<dots> = (concat ss @ s) ! (length (concat ss @ s) - 1)"
      using ne by (subst nth_append) simp
    also have "\<dots> = last s" using ne by simp
    finally show ?thesis using lst by simp
  qed
  from snoc.IH[OF ss, of "s @ rest"]
  obtain pt where pt: "StartPos_from ?d (length (concat ss)) = Inr pt" by auto
  show ?case
    using at ok len l4 pt
    by (subst StartPos_from.simps) (simp add: Let_def)
qed

lemma StartPos_slots: "list_all slot ss \<Longrightarrow> \<exists>pt. StartPos (concat ss) = Inr pt"
  using StartPos_from_slots[of ss "[]"] by (simp add: StartPos_def)

lemma bindE_Inr [simp]: "bindE (Inr v) f = f v"
  by (simp add: bindE_def)

lemma bindE_Inl [simp]: "bindE (Inl e) f = Inl e"
  by (simp add: bindE_def)

lemma concat_snoc_slot: "concat ss @ s = concat (ss @ [s])"
  by simp

lemma LineTo_slots:
  assumes "list_all slot ss"
  shows "LineTo u (concat ss) x y = Inr (concat ss)
         \<or> (ss \<noteq> [] \<and> hd (last ss) = LineToCmd
            \<and> LineTo u (concat ss) x y
                = Inr (concat (butlast ss @ [[LineToCmd, x, y, LineToCmd]])))
         \<or> LineTo u (concat ss) x y
             = Inr (concat (openS ss @ [[LineToCmd, x, y, LineToCmd]]))"
proof -
  from Pos_path_slots[OF assms] obtain pt where pt: "Pos_path (concat ss) = Inr pt" by auto
  have app: "bindE (openSubpath (concat ss)) (\<lambda>d'. Inr (d' @ [LineToCmd, x, y, LineToCmd]))
             = Inr (concat (openS ss @ [[LineToCmd, x, y, LineToCmd]]))"
    by (simp add: openSubpath_slots[OF assms])
  show ?thesis
  proof (cases ss rule: rev_cases)
    case Nil
    then show ?thesis using pt app
      by (auto simp: LineTo_def Let_def)
  next
    case (snoc ss0 s)
    with assms have s: "slot s" and ss0: "list_all slot ss0" by simp_all
    then have ne: "s \<noteq> []" and lst: "last s = hd s" by (simp_all add: slot_def)
    from s have l4: "4 \<le> length s" by (rule slot_length)
    show ?thesis
    proof (cases "hd s = LineToCmd")
      case True
      with slot4[OF s] obtain a b where s4: "s = [2, a, b, 2]" by auto
      have n7: "ss0 \<noteq> [] \<Longrightarrow> 4 \<le> length (concat ss0)"
        using slots_length[OF ss0] by simp
      have upd: "(concat ss)[length (concat ss) - 3 := x, length (concat ss) - 2 := y]
                  = concat (butlast ss @ [[LineToCmd, x, y, LineToCmd]])"
        using snoc s4 by (simp add: list_update_append)
      have nopanic: "\<not> (4 < length (concat ss) \<and> length (concat ss) < 7)"
        using snoc s4 n7 by (cases "ss0 = []") auto
      show ?thesis
        using pt app upd nopanic snoc True
        by (auto simp: LineTo_def Let_def simp del: concat_append concat.simps)
    next
      case False
      then have "concat ss ! (length (concat ss) - 1) \<noteq> LineToCmd"
        using snoc ne lst by simp
      then show ?thesis using pt app
        by (auto simp: LineTo_def Let_def simp del: concat_append concat.simps)
    qed
  qed
qed


lemma QuadTo_slots:
  assumes "list_all slot ss"
  shows "QuadTo u (concat ss) cpx cpy x y = Inr (concat ss)
         \<or> QuadTo u (concat ss) cpx cpy x y = LineTo u (concat ss) x y
         \<or> QuadTo u (concat ss) cpx cpy x y
             = Inr (concat (openS ss @ [[QuadToCmd, cpx, cpy, x, y, QuadToCmd]]))"
proof -
  from Pos_path_slots[OF assms] obtain pt where pt: "Pos_path (concat ss) = Inr pt" by auto
  show ?thesis
    using pt by (simp add: QuadTo_def Let_def openSubpath_slots[OF assms])
qed

lemma CubeTo_slots:
  assumes "list_all slot ss"
  shows "CubeTo u (concat ss) cpx1 cpy1 cpx2 cpy2 x y = Inr (concat ss)
         \<or> CubeTo u (concat ss) cpx1 cpy1 cpx2 cpy2 x y = LineTo u (concat ss) x y
         \<or> CubeTo u (concat ss) cpx1 cpy1 cpx2 cpy2 x y
             = Inr (concat (openS ss @ [[CubeToCmd, cpx1, cpy1, cpx2, cpy2, x, y, CubeToCmd]]))"
proof -
  from Pos_path_slots[OF assms] obtain pt where pt: "Pos_path (concat ss) = Inr pt" by auto
  show ?thesis
    using pt by (simp add: CubeTo_def Let_def openSubpath_slots[OF assms])
qed

lemma ArcTo_slots:
  assumes "list_all slot ss"
  shows "ArcTo u (concat ss) rx ry rot large sweep x y = Inr (concat ss)
         \<or> ArcTo u (concat ss) rx ry rot large sweep x y = LineTo u (concat ss) x y
         \<or> (\<exists>rx' ry' phi. ArcTo u (concat ss) rx ry rot large sweep x y
             = Inr (concat (openS ss
                 @ [[ArcToCmd, rx', ry', phi, fromArcFlags large sweep, x, y, ArcToCmd]])))"
proof -
  from Pos_path_slots[OF assms] obtain pt where pt: "Pos_path (concat ss) = Inr pt" by auto
  show ?thesis
    using pt by (simp add: ArcTo_def Let_def openSubpath_slots[OF assms])
qed

lemma Close_slots:
  assumes "list_all slot ss"
  shows "Close u (concat ss) = Inr (concat ss)
         \<or> (ss \<noteq> [] \<and> hd (last ss) = MoveToCmd \<and> Close u (concat ss) = Inr (concat (butlast ss)))
         \<or> (ss \<noteq> [] \<and> hd (last ss) = LineToCmd
            \<and> (\<exists>a b. Close u (concat ss) = Inr (concat (butlast ss @ [[CloseCmd, a, b, CloseCmd]]))))
         \<or> (ss \<noteq> [] \<and> hd (last ss) \<noteq> CloseCmd \<and> hd (last ss) \<noteq> MoveToCmd
            \<and> (\<exists>a b. Close u (concat ss) = Inr (concat (ss @ [[CloseCmd, a, b, CloseCmd]]))))"
proof (cases ss rule: rev_cases)
  case Nil
  then show ?thesis by (simp add: Close_def)
next
  case (snoc ss0 s)
  with assms have s: "slot s" and ss0: "list_all slot ss0" by simp_all
  then have ne: "s \<noteq> []" and lst: "last s = hd s" by (simp_all add: slot_def)
  from s have l4: "4 \<le> length s" by (rule slot_length)
  from StartPos_slots[OF assms] obtain e where e: "StartPos (concat ss) = Inr e" by auto
  have lastd: "concat ss ! (length (concat ss) - 1) = hd s"
    using snoc ne lst by simp
  have n0: "length (concat ss) \<noteq> 0" using snoc ne by simp
  consider "hd s = CloseCmd" | "hd s = MoveToCmd" | "hd s = LineToCmd"
    | "hd s \<noteq> CloseCmd" "hd s \<noteq> MoveToCmd" "hd s \<noteq> LineToCmd" by blast
  then show ?thesis
  proof cases
    case 1
    then show ?thesis using lastd by (simp add: Close_def Let_def)
  next
    case 2
    with slot4[OF s] obtain a b where s4: "s = [1, a, b, 1]" by auto
    have tk: "take (length (concat ss) - 4) (concat ss) = concat (butlast ss)"
      using snoc s4 by simp
    have l4': "4 \<le> length (concat ss)" using snoc s4 by simp
    have "Close u (concat ss) = Inr (concat (butlast ss))"
      unfolding Close_def Let_def
      using lastd 2 n0 tk l4'
      by (auto simp del: concat_append concat.simps)
    then show ?thesis using snoc 2 by simp
  next
    case 3
    with slot4[OF s] obtain a b where s4: "s = [2, a, b, 2]" by auto
    have n7: "ss0 \<noteq> [] \<Longrightarrow> 4 \<le> length (concat ss0)"
      using slots_length[OF ss0] by simp
    have nopanic: "\<not> (4 < length (concat ss) \<and> length (concat ss) < 7)"
      using snoc s4 n7 by (cases "ss0 = []") auto
    have u1: "(concat ss)[length (concat ss) - 1 := CloseCmd, length (concat ss) - 4 := CloseCmd]
               = concat (butlast ss @ [[CloseCmd, a, b, CloseCmd]])"
      using snoc s4 by (simp add: list_update_append)
    have u2: "(concat ss)[length (concat ss) - 4 := CloseCmd, length (concat ss) - 3 := X e,
                 length (concat ss) - 2 := Y e, length (concat ss) - 1 := CloseCmd]
               = concat (butlast ss @ [[CloseCmd, X e, Y e, CloseCmd]])"
      using snoc s4 by (simp add: list_update_append)
    have l3: "\<not> length (concat ss) < 3" "4 \<le> length (concat ss)" using snoc s4 by simp_all
    have app: "concat ss @ [CloseCmd, X e, Y e, CloseCmd]
                = concat (ss @ [[CloseCmd, X e, Y e, CloseCmd]])" by simp
    have "Close u (concat ss) = Inr (concat (butlast ss @ [[CloseCmd, a, b, CloseCmd]]))
          \<or> Close u (concat ss) = Inr (concat (butlast ss @ [[CloseCmd, X e, Y e, CloseCmd]]))
          \<or> Close u (concat ss) = Inr (concat (ss @ [[CloseCmd, X e, Y e, CloseCmd]]))"
      unfolding Close_def Let_def
      using e lastd 3 nopanic u1 u2 l3 n0 app
      by (auto simp del: concat_append concat.simps)
    then show ?thesis using snoc 3 by auto
  next
    case 4
    have app: "concat ss @ [CloseCmd, X e, Y e, CloseCmd]
                = concat (ss @ [[CloseCmd, X e, Y e, CloseCmd]])" by simp
    have "Close u (concat ss) = Inr (concat (ss @ [[CloseCmd, X e, Y e, CloseCmd]]))"
      unfolding Close_def Let_def
      using e lastd 4 n0 app
      by (auto simp del: concat_append concat.simps)
    then show ?thesis using snoc 4 by auto
  qed
qed

lemma slot6: "slot s \<Longrightarrow> cmdLen (hd s) = 6 \<Longrightarrow> \<exists>a b c e. s = [hd s, a, b, c, e, hd s]"
proof -
  assume s: "slot s" and "cmdLen (hd s) = 6"
  then have "length s = 6" by (simp add: slot_def)
  then obtain c0 a b c e f where [simp]: "s = [c0, a, b, c, e, f]"
    by (auto simp: length_Suc_conv numeral_eq_Suc)
  from s show ?thesis by (simp add: slot_def)
qed

lemma slot8:
  "slot s \<Longrightarrow> cmdLen (hd s) = 8 \<Longrightarrow> \<exists>a b c e f g. s = [hd s, a, b, c, e, f, g, hd s]"
proof -
  assume s: "slot s" and "cmdLen (hd s) = 8"
  then have "length s = 8" by (simp add: slot_def)
  then obtain c0 a b c e f g h where [simp]: "s = [c0, a, b, c, e, f, g, h]"
    by (auto simp: length_Suc_conv numeral_eq_Suc)
  from s show ?thesis by (simp add: slot_def)
qed

lemma nth_pre_mid: "k < length s \<Longrightarrow> (pre @ s @ rest) ! (length pre + k) = s ! k"
  by (simp add: nth_append)

lemma endp_slots:
  assumes "list_all slot ss" "ss \<noteq> []"
  shows "Point ((concat ss @ rest) ! nat (int (length (concat ss)) - 3))
               ((concat ss @ rest) ! nat (int (length (concat ss)) - 2)) = slotEnd (last ss)"
proof -
  from assms obtain ss0 s where ss: "ss = ss0 @ [s]" by (cases ss rule: rev_cases) auto
  with assms have "slot s" by simp
  then have l4: "4 \<le> length s" by (rule slot_length)
  have a: "nat (int (length (concat ss)) - 3) = length (concat ss0) + (length s - 3)"
    using ss l4 by simp
  have b: "nat (int (length (concat ss)) - 2) = length (concat ss0) + (length s - 2)"
    using ss l4 by simp
  have c: "concat ss @ rest = concat ss0 @ s @ rest" using ss by simp
  have "(concat ss @ rest) ! nat (int (length (concat ss)) - 3) = s ! (length s - 3)"
    unfolding a c using l4 by (intro nth_pre_mid) simp
  moreover have "(concat ss @ rest) ! nat (int (length (concat ss)) - 2) = s ! (length s - 2)"
    unfolding b c using l4 by (intro nth_pre_mid) simp
  ultimately show ?thesis using ss by (simp add: slotEnd_def)
qed

lemma prevcmd_slots:
  assumes "list_all slot ss" "ss \<noteq> []"
  shows "(concat ss @ rest) ! nat (int (length (concat ss)) - 1) = hd (last ss)"
proof -
  from assms obtain ss0 s where ss: "ss = ss0 @ [s]" by (cases ss rule: rev_cases) auto
  with assms have s: "slot s" by simp
  then have l4: "4 \<le> length s" by (rule slot_length)
  from s have lst: "last s = hd s" and ne: "s \<noteq> []" by (simp_all add: slot_def)
  have a: "nat (int (length (concat ss)) - 1) = length (concat ss0) + (length s - 1)"
    using ss l4 by simp
  have c: "concat ss @ rest = concat ss0 @ s @ rest" using ss by simp
  have "(concat ss @ rest) ! nat (int (length (concat ss)) - 1) = s ! (length s - 1)"
    unfolding a c using l4 by (intro nth_pre_mid) simp
  then show ?thesis using ss lst ne by (simp add: last_conv_nth)
qed

lemma Reverse_loop_step:
  assumes "0 < i" "\<not> int (length d) < i" "d ! nat (i - 1) = cmd" "cmdLen_ok cmd"
    and "i - int (cmdLen cmd) = j" "\<not> (0 < j \<and> j < 3)"
    and "(if 0 < j then Point (d ! nat (j - 3)) (d ! nat (j - 2)) else Point 0 0) = endp"
  shows "Reverse_loop eps d i (q, clo, first, start) =
             (if cmd = MoveToCmd then
               let q1 = (if clo then q @ [CloseCmd, X first, Y first, CloseCmd] else q);
                   q2 = (if j \<noteq> 0 then q1 @ [MoveToCmd, X endp, Y endp, MoveToCmd] else q1)
               in Reverse_loop eps d j (q2, False, if j \<noteq> 0 then endp else first, endp)
             else if cmd = CloseCmd then
               Reverse_loop eps d j
                 (if \<not> Point_Equals eps start endp
                  then q @ [LineToCmd, X endp, Y endp, LineToCmd] else q,
                  True, first, endp)
             else if cmd = LineToCmd then
               (if clo \<and> j < 0 then Inl IndexOutOfRange
                else if clo \<and> (j = 0 \<or> d ! nat (j - 1) = MoveToCmd) then
                  Reverse_loop eps d j
                    (q @ [CloseCmd, X first, Y first, CloseCmd], False, first, endp)
                else
                  Reverse_loop eps d j
                    (q @ [LineToCmd, X endp, Y endp, LineToCmd], clo, first, endp))
             else if cmd = QuadToCmd then
               (if j + 1 < 0 \<or> int (length d) \<le> j + 2 then Inl IndexOutOfRange
                else
                  Reverse_loop eps d j
                    (q @ [QuadToCmd, d ! nat (j + 1), d ! nat (j + 2), X endp, Y endp, QuadToCmd],
                     clo, first, endp))
             else if cmd = CubeToCmd then
               (if j + 1 < 0 \<or> int (length d) \<le> j + 4 then Inl IndexOutOfRange
                else
                  Reverse_loop eps d j
                    (q @ [CubeToCmd, d ! nat (j + 3), d ! nat (j + 4),
                          d ! nat (j + 1), d ! nat (j + 2), X endp, Y endp, CubeToCmd],
                     clo, first, endp))
             else if cmd = ArcToCmd then
               (if j + 1 < 0 \<or> int (length d) \<le> j + 4 then Inl IndexOutOfRange
                else
                  Reverse_loop eps d j
                    (q @ [ArcToCmd, d ! nat (j + 1), d ! nat (j + 2), d ! nat (j + 3),
                          fromArcFlags (fst (toArcFlags (d ! nat (j + 4))))
                            (\<not> snd (toArcFlags (d ! nat (j + 4)))),
                          X endp, Y endp, ArcToCmd],
                     clo, first, endp))
             else Reverse_loop eps d j (q, clo, first, endp))"
  apply (subst Reverse_loop.simps)
  apply (simp only: assms if_True if_False Let_def not_not)
  apply simp
  done


lemma Reverse_loop_slots:
  "list_all slot ss \<Longrightarrow>
   Reverse_loop eps (concat ss @ rest) (int (length (concat ss))) (concat q, clo, first, start)
     = Inr (concat (reverseSlots eps (rev ss) (q, clo, first, start)))"
proof (induction ss arbitrary: rest q clo first start rule: rev_induct)
  case Nil
  show ?case by (subst Reverse_loop.simps) simp
next
  case (snoc s ss)
  then have s: "slot s" and ss: "list_all slot ss" by simp_all
  from s have ne: "s \<noteq> []" and lst: "last s = hd s" and ok: "cmdLen_ok (hd s)"
    and len: "length s = cmdLen (hd s)" by (simp_all add: slot_def)
  from s have l4: "4 \<le> length s" by (rule slot_length)
  define d where "d = concat (ss @ [s]) @ rest"
  define i where "i = int (length (concat (ss @ [s])))"
  define j where "j = int (length (concat ss))"
  define E where "E = (if ss = [] then Point 0 0 else slotEnd (last ss))"
  have d: "d = concat ss @ (s @ rest)" by (simp add: d_def)
  have at: "d ! nat (i - 1) = hd s"
    unfolding d_def i_def using prevcmd_slots[of "ss @ [s]" rest] snoc.prems by simp
  have ij: "i - int (cmdLen (hd s)) = j" using len by (simp add: i_def j_def)
  have ipos: "0 < i" "\<not> int (length d) < i" using l4 by (simp_all add: i_def d_def)
  have j3: "\<not> (0 < j \<and> j < 3)"
    unfolding j_def using slots_length[OF ss] by (cases "ss = []") auto
  have jneg: "\<not> j < 0" by (simp add: j_def)
  have jpos: "0 < j \<longleftrightarrow> ss \<noteq> []" "j = 0 \<longleftrightarrow> ss = []"
  proof -
    have "4 \<le> j" if "ss \<noteq> []"
      using slots_length[OF ss that] unfolding j_def by linarith
    moreover have "j = 0" if "ss = []" using that by (simp add: j_def)
    ultimately show "0 < j \<longleftrightarrow> ss \<noteq> []" "j = 0 \<longleftrightarrow> ss = []" by fastforce+
  qed
  have endp: "(if 0 < j then Point (d ! nat (j - 3)) (d ! nat (j - 2)) else Point 0 0) = E"
  proof (cases "ss = []")
    case True
    then show ?thesis using jpos by (simp add: E_def)
  next
    case False
    have "Point (d ! nat (j - 3)) (d ! nat (j - 2)) = slotEnd (last ss)"
      unfolding d j_def by (rule endp_slots[OF ss False])
    then show ?thesis using False jpos by (simp add: E_def)
  qed
  have prev: "ss \<noteq> [] \<Longrightarrow> d ! nat (j - 1) = hd (last ss)"
    unfolding d j_def by (rule prevcmd_slots[OF ss])
  have cur: "d ! nat (j + int k) = s ! k" if "k < length s" for k
  proof -
    have "nat (j + int k) = length (concat ss) + k" by (simp add: j_def)
    then show ?thesis unfolding d using nth_pre_mid[OF that] by simp
  qed
  have cur1: "1 < length s \<Longrightarrow> d ! nat (j + 1) = s ! 1" using cur[of 1] by simp
  have cur2: "2 < length s \<Longrightarrow> d ! nat (j + 2) = s ! 2" using cur[of 2] by simp
  have cur3: "3 < length s \<Longrightarrow> d ! nat (j + 3) = s ! 3" using cur[of 3] by simp
  have cur4: "4 < length s \<Longrightarrow> d ! nat (j + 4) = s ! 4" using cur[of 4] by simp
  have lend: "int (length d) = j + int (length s) + int (length rest)"
    by (simp add: d j_def)
  have IH: "Reverse_loop eps d j (concat q', c', f', s')
            = Inr (concat (reverseSlots eps (rev ss) (q', c', f', s')))" for q' c' f' s'
    unfolding d j_def by (rule snoc.IH[OF ss])
  have hdlast: "ss \<noteq> [] \<Longrightarrow> hd (rev ss) = last ss" by (simp add: hd_rev)
  have Erev: "(if rev ss = [] then Point 0 0 else slotEnd (hd (rev ss))) = E"
    by (simp add: E_def hd_rev)
  note step = Reverse_loop_step[OF ipos at ok ij j3 endp, of eps "concat q" clo first start]
  have goal: "Reverse_loop eps d i (concat q, clo, first, start)
     = Inr (concat (reverseSlots eps (s # rev ss) (q, clo, first, start)))"
  proof -
    consider "hd s = MoveToCmd" | "hd s = CloseCmd" | "hd s = LineToCmd" | "hd s = QuadToCmd"
      | "hd s = CubeToCmd" | "hd s = ArcToCmd"
      | "hd s \<noteq> MoveToCmd" "hd s \<noteq> CloseCmd" "hd s \<noteq> LineToCmd" "hd s \<noteq> QuadToCmd"
        "hd s \<noteq> CubeToCmd" "hd s \<noteq> ArcToCmd" by blast
    then show ?thesis
    proof cases
      case 1
      show ?thesis
      proof (cases "ss = []")
        case True
        have "Reverse_loop eps d i (concat q, clo, first, start)
            = Reverse_loop eps d j
                (concat (if clo then q @ [[CloseCmd, X first, Y first, CloseCmd]] else q),
                 False, first, E)"
          unfolding step using 1 True jpos by simp
        then show ?thesis
          unfolding IH using 1 True by (simp add: Let_def)
      next
        case False
        have "Reverse_loop eps d i (concat q, clo, first, start)
            = Reverse_loop eps d j
                (concat ((if clo then q @ [[CloseCmd, X first, Y first, CloseCmd]] else q)
                   @ [[MoveToCmd, X E, Y E, MoveToCmd]]),
                 False, E, E)"
          unfolding step using 1 False jpos by simp
        then show ?thesis
          unfolding IH using 1 False Erev by (simp add: Let_def)
      qed
    next
      case 2
      have "Reverse_loop eps d i (concat q, clo, first, start)
          = Reverse_loop eps d j
              (concat (if \<not> Point_Equals eps start E
                       then q @ [[LineToCmd, X E, Y E, LineToCmd]] else q),
               True, first, E)"
        unfolding step using 2 by simp
      then show ?thesis
        unfolding IH using 2 Erev by (simp add: Let_def)
    next
      case 3
      show ?thesis
      proof (cases "clo \<and> (ss = [] \<or> hd (last ss) = MoveToCmd)")
        case True
        then have c: "clo \<and> (j = 0 \<or> d ! nat (j - 1) = MoveToCmd)"
          using jpos prev by auto
        have "Reverse_loop eps d i (concat q, clo, first, start)
            = Reverse_loop eps d j
                (concat (q @ [[CloseCmd, X first, Y first, CloseCmd]]), False, first, E)"
          unfolding step using 3 c jpos jneg by auto
        then show ?thesis
          unfolding IH using 3 True Erev by (auto simp: Let_def hd_rev)
      next
        case False
        then have c: "\<not> (clo \<and> (j = 0 \<or> d ! nat (j - 1) = MoveToCmd))"
          using jpos prev by auto
        have "Reverse_loop eps d i (concat q, clo, first, start)
            = Reverse_loop eps d j
                (concat (q @ [[LineToCmd, X E, Y E, LineToCmd]]), clo, first, E)"
          unfolding step using 3 c jpos jneg by auto
        then show ?thesis
          unfolding IH using 3 False Erev by (auto simp: Let_def hd_rev)
      qed
    next
      case 4
      then have l6: "length s = 6" using len by simp
      have b: "\<not> (j + 1 < 0 \<or> int (length d) \<le> j + 2)" using jneg lend l6 by simp
      have "Reverse_loop eps d i (concat q, clo, first, start)
          = Reverse_loop eps d j
              (concat (q @ [[QuadToCmd, s ! 1, s ! 2, X E, Y E, QuadToCmd]]), clo, first, E)"
        unfolding step using 4 b cur1 cur2 l6 by simp
      then show ?thesis
        unfolding IH using 4 Erev by (simp add: Let_def)
    next
      case 5
      then have l8: "length s = 8" using len by simp
      have b: "\<not> (j + 1 < 0 \<or> int (length d) \<le> j + 4)" using jneg lend l8 by simp
      have "Reverse_loop eps d i (concat q, clo, first, start)
          = Reverse_loop eps d j
              (concat (q @ [[CubeToCmd, s ! 3, s ! 4, s ! 1, s ! 2, X E, Y E, CubeToCmd]]),
               clo, first, E)"
        unfolding step using 5 b cur1 cur2 cur3 cur4 l8 by simp
      then show ?thesis
        unfolding IH using 5 Erev by (simp add: Let_def)
    next
      case 6
      then have l8: "length s = 8" using len by simp
      have b: "\<not> (j + 1 < 0 \<or> int (length d) \<le> j + 4)" using jneg lend l8 by simp
      have "Reverse_loop eps d i (concat q, clo, first, start)
          = Reverse_loop eps d j
              (concat (q @ [[ArcToCmd, s ! 1, s ! 2, s ! 3,
                  fromArcFlags (fst (toArcFlags (s ! 4))) (\<not> snd (toArcFlags (s ! 4))),
                  X E, Y E, ArcToCmd]]),
               clo, first, E)"
        unfolding step using 6 b cur1 cur2 cur3 cur4 l8 by simp
      then show ?thesis
        unfolding IH using 6 Erev by (simp add: Let_def)
    next
      case 7
      have "Reverse_loop eps d i (concat q, clo, first, start)
          = Reverse_loop eps d j (concat q, clo, first, E)"
        unfolding step using 7 by simp
      then show ?thesis
        unfolding IH using 7 Erev by (simp add: Let_def)
    qed
  qed
  then show ?case by (simp add: d_def i_def)
qed

lemma concat_slots_Nil: "list_all slot ss \<Longrightarrow> concat ss = [] \<longleftrightarrow> ss = []"
  by (cases ss) (auto simp: slot_def)

lemma Reverse_slots:
  assumes "list_all slot ss"
  shows "Reverse eps (concat ss) = Inr (concat (ReverseS eps ss))"
proof (cases "ss = []")
  case True
  then show ?thesis by (simp add: Reverse_def ReverseS_def)
next
  case False
  from slots_length[OF assms False] have l4: "4 \<le> length (concat ss)" .
  have e: "Point (concat ss ! (length (concat ss) - 3)) (concat ss ! (length (concat ss) - 2))
           = slotEnd (last ss)"
  proof -
    have "nat (int (length (concat ss)) - 3) = length (concat ss) - 3"
         "nat (int (length (concat ss)) - 2) = length (concat ss) - 2" by simp_all
    then show ?thesis using endp_slots[OF assms False, of "[]"] by simp
  qed
  have "Reverse eps (concat ss)
        = Reverse_loop eps (concat ss @ []) (int (length (concat ss)))
            (concat [[MoveToCmd, X (slotEnd (last ss)), Y (slotEnd (last ss)), MoveToCmd]],
             False, slotEnd (last ss), slotEnd (last ss))"
  proof -
    have "length (concat ss) \<noteq> 0" "\<not> length (concat ss) < 3" using l4 by linarith+
    then show ?thesis unfolding Reverse_def Let_def e by (simp only: if_False append_Nil2 concat.simps)
  qed
  then show ?thesis
    unfolding Reverse_loop_slots[OF assms] using False by (simp add: ReverseS_def)
qed

lemma reverseSlots_slots:
  "list_all slot q \<Longrightarrow> list_all slot (reverseSlots eps rs (q, clo, first, start))"
  by (induction rs arbitrary: q clo first start) (auto simp: Let_def)

lemma ReverseS_slots: "list_all slot (ReverseS eps ss)"
  by (simp add: ReverseS_def reverseSlots_slots)

lemma Reverse_packed: "packed d \<Longrightarrow> \<exists>q. Reverse eps d = Inr q \<and> packed q"
proof -
  assume "packed d"
  then obtain ss where ss: "d = concat ss" "list_all slot ss" by (auto simp: packed_iff)
  have "packed (concat (ReverseS eps ss))"
    unfolding packed_iff using ReverseS_slots by blast
  then show ?thesis using Reverse_slots[OF ss(2)] ss(1) by simp
qed

lemma Transform_loop_step4:
  assumes "c = MoveToCmd \<or> c = LineToCmd \<or> c = CloseCmd"
  shows "Transform_loop u ops m (pre @ [c, a, b, c] @ rest) (length pre)
         = Transform_loop u ops m
             (pre @ [c, X (Matrix_Dot ops m (Point a b)), Y (Matrix_Dot ops m (Point a b)), c]
                @ rest)
             (length pre + 4)"
  apply (subst Transform_loop.simps)
  using assms
  apply (elim disjE)
    apply (simp_all add: Let_def nth_append list_update_append)
  done

lemma Transform_loop_step6:
  "Transform_loop u ops m (pre @ [QuadToCmd, a, b, c, e, QuadToCmd] @ rest) (length pre)
         = Transform_loop u ops m
             (pre @ [QuadToCmd, X (Matrix_Dot ops m (Point a b)), Y (Matrix_Dot ops m (Point a b)),
                     X (Matrix_Dot ops m (Point c e)), Y (Matrix_Dot ops m (Point c e)), QuadToCmd]
                @ rest)
             (length pre + 6)"
  apply (subst Transform_loop.simps)
  apply (simp add: Let_def nth_append list_update_append)
  done

lemma Transform_loop_step8c:
  "Transform_loop u ops m (pre @ [CubeToCmd, a, b, c, e, f, g, CubeToCmd] @ rest) (length pre)
         = Transform_loop u ops m
             (pre @ [CubeToCmd, X (Matrix_Dot ops m (Point a b)), Y (Matrix_Dot ops m (Point a b)),
                     X (Matrix_Dot ops m (Point c e)), Y (Matrix_Dot ops m (Point c e)),
                     X (Matrix_Dot ops m (Point f g)), Y (Matrix_Dot ops m (Point f g)), CubeToCmd]
                @ rest)
             (length pre + 8)"
  apply (subst Transform_loop.simps)
  apply (simp add: Let_def nth_append list_update_append)
  done

lemma Transform_loop_step8a:
  "\<exists>rx ry phi fl. Transform_loop u ops m (pre @ [ArcToCmd, a, b, c, e, f, g, ArcToCmd] @ rest) (length pre)
         = Transform_loop u ops m
             (pre @ [ArcToCmd, rx, ry, phi, fl,
                     X (Matrix_Dot ops m (Point f g)), Y (Matrix_Dot ops m (Point f g)), ArcToCmd]
                @ rest)
             (length pre + 8)"
  apply (subst Transform_loop.simps)
  apply (cases "Transform_arc u ops m a b c e")
  apply (simp add: Let_def nth_append list_update_append)
  apply blast
  done

lemma Transform_loop_skip:
  assumes "slot s" "hd s \<noteq> MoveToCmd" "hd s \<noteq> CloseCmd" "hd s \<noteq> LineToCmd" "hd s \<noteq> QuadToCmd"
      "hd s \<noteq> CubeToCmd" "hd s \<noteq> ArcToCmd"
  shows "Transform_loop u ops m (pre @ s @ rest) (length pre)
         = Transform_loop u ops m (pre @ s @ rest) (length pre + length s)"
proof -
  from assms(1) have ne: "s \<noteq> []" and ok: "cmdLen_ok (hd s)" and len: "length s = cmdLen (hd s)"
    by (simp_all add: slot_def)
  have at: "(pre @ s @ rest) ! length pre = hd s" using ne by (simp add: nth_append hd_conv_nth)
  show ?thesis
    apply (subst Transform_loop.simps)
    using assms(2-) ne ok len at slot_length[OF assms(1)]
    apply (simp add: Let_def)
    done
qed


lemma Transform_loop_slots:
  "list_all slot ss \<Longrightarrow>
   \<exists>ss'. Transform_loop u ops m (pre @ concat ss) (length pre) = Inr (pre @ concat ss')
         \<and> list_all slot ss' \<and> map hd ss' = map hd ss"
proof (induction ss arbitrary: pre)
  case Nil
  have "Transform_loop u ops m (pre @ concat []) (length pre) = Inr (pre @ concat [])"
    by (subst Transform_loop.simps) simp
  moreover have "list_all slot []" "map hd ([]::float64 list list) = map hd []" by simp_all
  ultimately show ?case by blast
next
  case (Cons s ss)
  then have s: "slot s" and ss: "list_all slot ss" by simp_all
  have fin: "\<exists>ss'. Transform_loop u ops m (pre @ concat (s # ss)) (length pre)
                = Inr (pre @ concat ss')
         \<and> list_all slot ss' \<and> map hd ss' = map hd (s # ss)"
    if step: "Transform_loop u ops m (pre @ s @ concat ss) (length pre)
              = Transform_loop u ops m (pre @ s' @ concat ss) (length pre + length s')"
      and s': "slot s'" "hd s' = hd s" for s'
  proof -
    from Cons.IH[OF ss, of "pre @ s'"] obtain ss' where
      "Transform_loop u ops m ((pre @ s') @ concat ss) (length (pre @ s'))
         = Inr ((pre @ s') @ concat ss')" "list_all slot ss'" "map hd ss' = map hd ss" by blast
    then have "Transform_loop u ops m (pre @ concat (s # ss)) (length pre)
                 = Inr (pre @ concat (s' # ss'))
       \<and> list_all slot (s' # ss') \<and> map hd (s' # ss') = map hd (s # ss)"
      using step s' by simp
    then show ?thesis by blast
  qed
  consider "hd s = MoveToCmd \<or> hd s = LineToCmd \<or> hd s = CloseCmd" | "hd s = QuadToCmd"
    | "hd s = CubeToCmd" | "hd s = ArcToCmd"
    | "hd s \<noteq> MoveToCmd" "hd s \<noteq> CloseCmd" "hd s \<noteq> LineToCmd" "hd s \<noteq> QuadToCmd"
      "hd s \<noteq> CubeToCmd" "hd s \<noteq> ArcToCmd" by blast
  then show ?case
  proof cases
    case 1
    then have "cmdLen (hd s) = 4" by auto
    with slot4[OF s] obtain a b where s4: "s = [hd s, a, b, hd s]" by auto
    define s' where "s' = [hd s, X (Matrix_Dot ops m (Point a b)),
                           Y (Matrix_Dot ops m (Point a b)), hd s]"
    have ls': "length s' = 4" by (simp add: s'_def)
    have "Transform_loop u ops m (pre @ s @ concat ss) (length pre)
          = Transform_loop u ops m (pre @ s' @ concat ss) (length pre + length s')"
      unfolding ls'
      apply (subst s4)
      using Transform_loop_step4[OF 1, of u ops m pre a b "concat ss"]
      apply (simp add: s'_def)
      done
    moreover have "slot s'" "hd s' = hd s" using 1 by (auto simp: s'_def slot_def)
    ultimately show ?thesis by (rule fin)
  next
    case 2
    then have "cmdLen (hd s) = 6" by auto
    with slot6[OF s] 2 obtain a b c e where s6: "s = [QuadToCmd, a, b, c, e, QuadToCmd]" by auto
    define s' where "s' = [QuadToCmd, X (Matrix_Dot ops m (Point a b)),
                           Y (Matrix_Dot ops m (Point a b)), X (Matrix_Dot ops m (Point c e)),
                           Y (Matrix_Dot ops m (Point c e)), QuadToCmd]"
    have ls': "length s' = 6" by (simp add: s'_def)
    have "Transform_loop u ops m (pre @ s @ concat ss) (length pre)
          = Transform_loop u ops m (pre @ s' @ concat ss) (length pre + length s')"
      unfolding ls'
      apply (subst s6)
      using Transform_loop_step6[of u ops m pre a b c e "concat ss"]
      apply (simp add: s'_def)
      done
    moreover have "slot s'" "hd s' = hd s" using 2 by (auto simp: s'_def)
    ultimately show ?thesis by (rule fin)
  next
    case 3
    then have "cmdLen (hd s) = 8" by auto
    with slot8[OF s] 3 obtain a b c e f g where s8: "s = [CubeToCmd, a, b, c, e, f, g, CubeToCmd]"
      by auto
    define s' where "s' = [CubeToCmd, X (Matrix_Dot ops m (Point a b)),
                     Y (Matrix_Dot ops m (Point a b)),
                     X (Matrix_Dot ops m (Point c e)), Y (Matrix_Dot ops m (Point c e)),
                     X (Matrix_Dot ops m (Point f g)), Y (Matrix_Dot ops m (Point f g)), CubeToCmd]"
    have ls': "length s' = 8" by (simp add: s'_def)
    have "Transform_loop u ops m (pre @ s @ concat ss) (length pre)
          = Transform_loop u ops m (pre @ s' @ concat ss) (length pre + length s')"
      unfolding ls'
      apply (subst s8)
      using Transform_loop_step8c[of u ops m pre a b c e f g "concat ss"]
      apply (simp add: s'_def)
      done
    moreover have "slot s'" "hd s' = hd s" using 3 by (auto simp: s'_def)
    ultimately show ?thesis by (rule fin)
  next
    case 4
    then have "cmdLen (hd s) = 8" by auto
    with slot8[OF s] 4 obtain a b c e f g where s8: "s = [ArcToCmd, a, b, c, e, f, g, ArcToCmd]"
      by auto
    from Transform_loop_step8a[of u ops m pre a b c e f g "concat ss"]
    obtain rx ry phi fl where st:
      "Transform_loop u ops m (pre @ [ArcToCmd, a, b, c, e, f, g, ArcToCmd] @ concat ss) (length pre)
         = Transform_loop u ops m
             (pre @ [ArcToCmd, rx, ry, phi, fl,
                     X (Matrix_Dot ops m (Point f g)), Y (Matrix_Dot ops m (Point f g)), ArcToCmd]
                @ concat ss)
             (length pre + 8)" by blast
    define s' where "s' = [ArcToCmd, rx, ry, phi, fl,
                     X (Matrix_Dot ops m (Point f g)), Y (Matrix_Dot ops m (Point f g)), ArcToCmd]"
    have ls': "length s' = 8" by (simp add: s'_def)
    have "Transform_loop u ops m (pre @ s @ concat ss) (length pre)
          = Transform_loop u ops m (pre @ s' @ concat ss) (length pre + length s')"
      unfolding ls'
      apply (subst s8)
      using st
      apply (simp add: s'_def)
      done
    moreover have "slot s'" "hd s' = hd s" using 4 by (auto simp: s'_def)
    ultimately show ?thesis by (rule fin)
  next
    case 5
    have "Transform_loop u ops m (pre @ s @ concat ss) (length pre)
          = Transform_loop u ops m (pre @ s @ concat ss) (length pre + length s)"
      by (rule Transform_loop_skip[OF s 5])
    then show ?thesis using s by (intro fin) simp_all
  qed
qed

lemma Transform_packed:
  assumes "packed d"
  shows "\<exists>d'. Transform u ops m d = Inr d' \<and> packed d' \<and> cmds d' = cmds d
              \<and> length d' = length d"
proof -
  from assms obtain ss where ss: "d = concat ss" "list_all slot ss" by (auto simp: packed_iff)
  from Transform_loop_slots[OF ss(2), of u ops m "[]"] obtain ss' where
    t: "Transform u ops m d = Inr (concat ss')" and s': "list_all slot ss'"
    and h: "map hd ss' = map hd ss"
    using ss(1) by (auto simp: Transform_def)
  have "packed (concat ss')" unfolding packed_iff using s' by blast
  moreover have "cmds (concat ss') = cmds d" using cmds_concat s' ss h by simp
  moreover have "length (concat ss') = length d"
  proof -
    have "map length ss' = map (\<lambda>s. cmdLen (hd s)) ss'"
      using s' by (induction ss') (auto simp: slot_def)
    also have "\<dots> = map cmdLen (map hd ss')" by simp
    also have "\<dots> = map cmdLen (map hd ss)" by (simp only: h)
    also have "\<dots> = map (\<lambda>s. cmdLen (hd s)) ss" by simp
    also have "\<dots> = map length ss"
      using ss(2) by (induction ss) (auto simp: slot_def)
    finally show ?thesis using ss(1) by (simp add: length_concat)
  qed
  ultimately show ?thesis using t by simp
qed

lemma slotStep_slots: "list_all slot ss \<Longrightarrow> slotStep ss ss' \<Longrightarrow> list_all slot ss'"
proof -
  assume ss: "list_all slot ss" and st: "slotStep ss ss'"
  have bl: "list_all slot (butlast ss)"
    using ss by (cases ss rule: rev_cases) simp_all
  have op: "list_all slot (openS ss)" using ss by (simp add: openS_def)
  show ?thesis
    using st ss bl op unfolding slotStep_def
    by (elim disjE conjE exE) (auto simp: slot_def)
qed

lemma slotStep_draw:
  "slot s \<Longrightarrow> hd s = LineToCmd \<or> hd s = QuadToCmd \<or> hd s = CubeToCmd \<or> hd s = ArcToCmd
   \<Longrightarrow> slotStep ss (openS ss @ [s])"
  unfolding slotStep_def by blast

lemma slotStep_refl: "slotStep ss ss"
  unfolding slotStep_def by simp

lemma MoveTo_step:
  assumes "list_all slot ss"
  shows "\<exists>ss'. MoveTo (concat ss) x y = Inr (concat ss') \<and> slotStep ss ss'"
proof (cases "ss \<noteq> [] \<and> hd (last ss) = MoveToCmd")
  case True
  then have "slotStep ss (butlast ss @ [[MoveToCmd, x, y, MoveToCmd]])"
    unfolding slotStep_def by auto
  moreover have "MoveTo (concat ss) x y = Inr (concat (butlast ss @ [[MoveToCmd, x, y, MoveToCmd]]))"
    using MoveTo_slots[OF assms, of x y] True by (simp del: concat_append concat.simps)
  ultimately show ?thesis by blast
next
  case False
  then have "slotStep ss (ss @ [[MoveToCmd, x, y, MoveToCmd]])"
    unfolding slotStep_def by auto
  moreover have "MoveTo (concat ss) x y = Inr (concat (ss @ [[MoveToCmd, x, y, MoveToCmd]]))"
    using MoveTo_slots[OF assms, of x y] False by (auto simp del: concat_append concat.simps)
  ultimately show ?thesis by blast
qed

lemma LineTo_step:
  assumes "list_all slot ss"
  shows "\<exists>ss'. LineTo u (concat ss) x y = Inr (concat ss') \<and> slotStep ss ss'"
proof -
  have b: "ss \<noteq> [] \<Longrightarrow> hd (last ss) = LineToCmd
           \<Longrightarrow> slotStep ss (butlast ss @ [[LineToCmd, x, y, LineToCmd]])"
    unfolding slotStep_def by auto
  have c: "slotStep ss (openS ss @ [[LineToCmd, x, y, LineToCmd]])"
    by (rule slotStep_draw) simp_all
  from LineTo_slots[OF assms, of u x y] slotStep_refl[of ss] b c show ?thesis by blast
qed

lemma QuadTo_step:
  assumes "list_all slot ss"
  shows "\<exists>ss'. QuadTo u (concat ss) cpx cpy x y = Inr (concat ss') \<and> slotStep ss ss'"
proof -
  have c: "slotStep ss (openS ss @ [[QuadToCmd, cpx, cpy, x, y, QuadToCmd]])"
    by (rule slotStep_draw) simp_all
  from QuadTo_slots[OF assms, of u cpx cpy x y] LineTo_step[OF assms, of u x y]
    slotStep_refl[of ss] c
  show ?thesis by metis
qed

lemma CubeTo_step:
  assumes "list_all slot ss"
  shows "\<exists>ss'. CubeTo u (concat ss) cpx1 cpy1 cpx2 cpy2 x y = Inr (concat ss')
               \<and> slotStep ss ss'"
proof -
  have c: "slotStep ss (openS ss @ [[CubeToCmd, cpx1, cpy1, cpx2, cpy2, x, y, CubeToCmd]])"
    by (rule slotStep_draw) simp_all
  from CubeTo_slots[OF assms, of u cpx1 cpy1 cpx2 cpy2 x y] LineTo_step[OF assms, of u x y]
    slotStep_refl[of ss] c
  show ?thesis by metis
qed

lemma ArcTo_step:
  assumes "list_all slot ss"
  shows "\<exists>ss'. ArcTo u (concat ss) rx ry rot large sweep x y = Inr (concat ss')
               \<and> slotStep ss ss'"
proof -
  have c: "slotStep ss (openS ss @ [[ArcToCmd, rx', ry', phi, fl, x, y, ArcToCmd]])"
    for rx' ry' phi fl
    by (rule slotStep_draw) simp_all
  from ArcTo_slots[OF assms, of u rx ry rot large sweep x y] LineTo_step[OF assms, of u x y]
    slotStep_refl[of ss] c
  show ?thesis by metis
qed

lemma Close_step:
  assumes "list_all slot ss"
  shows "\<exists>ss'. Close u (concat ss) = Inr (concat ss') \<and> slotStep ss ss'"
proof -
  have a: "slotStep ss ss" by (rule slotStep_refl)
  have b: "ss \<noteq> [] \<Longrightarrow> hd (last ss) = MoveToCmd \<Longrightarrow> slotStep ss (butlast ss)"
    unfolding slotStep_def by simp
  have c: "ss \<noteq> [] \<Longrightarrow> hd (last ss) = LineToCmd
           \<Longrightarrow> slotStep ss (butlast ss @ [[CloseCmd, a, b, CloseCmd]])" for a b
    unfolding slotStep_def by auto
  have e: "ss \<noteq> [] \<Longrightarrow> hd (last ss) \<noteq> CloseCmd \<Longrightarrow> hd (last ss) \<noteq> MoveToCmd
           \<Longrightarrow> slotStep ss (ss @ [[CloseCmd, a, b, CloseCmd]])" for a b
    unfolding slotStep_def by auto
  from Close_slots[OF assms, of u] a b c e show ?thesis by metis
qed

lemma call_step:
  assumes "list_all slot ss"
  shows "\<exists>ss'. call u (concat ss) m = Inr (concat ss') \<and> slotStep ss ss'"
  using MoveTo_step[OF assms] LineTo_step[OF assms] QuadTo_step[OF assms] CubeTo_step[OF assms]
    ArcTo_step[OF assms] Close_step[OF assms]
  by (cases m) simp_all

lemma moveToAfterClose_snoc:
  "moveToAfterClose (cs @ [c])
     \<longleftrightarrow> moveToAfterClose cs \<and> (cs \<noteq> [] \<longrightarrow> last cs = CloseCmd \<longrightarrow> c = MoveToCmd)"
  by (induction cs rule: moveToAfterClose.induct) auto

lemma noDoubleMoveTo_snoc:
  "noDoubleMoveTo (cs @ [c])
     \<longleftrightarrow> noDoubleMoveTo cs \<and> \<not> (cs \<noteq> [] \<and> last cs = MoveToCmd \<and> c = MoveToCmd)"
  by (induction cs rule: noDoubleMoveTo.induct) auto

lemma startsWithMoveTo_snoc:
  "startsWithMoveTo (cs @ [c]) \<longleftrightarrow> (if cs = [] then c = MoveToCmd else startsWithMoveTo cs)"
  by (cases cs) (simp_all add: startsWithMoveTo_def)

lemma startsWithMoveTo_simps [simp]:
  "startsWithMoveTo []" "startsWithMoveTo (c # cs) = (c = MoveToCmd)"
  by (simp_all add: startsWithMoveTo_def)

lemma startsWithMoveTo_append: "cs \<noteq> [] \<Longrightarrow> startsWithMoveTo (cs @ xs) = startsWithMoveTo cs"
  by (cases cs) simp_all

lemma moveToAfterClose_butlast: "moveToAfterClose cs \<Longrightarrow> moveToAfterClose (butlast cs)"
  by (cases cs rule: rev_cases) (simp_all add: moveToAfterClose_snoc)

lemma noDoubleMoveTo_butlast: "noDoubleMoveTo cs \<Longrightarrow> noDoubleMoveTo (butlast cs)"
  by (cases cs rule: rev_cases) (simp_all add: noDoubleMoveTo_snoc)

lemma startsWithMoveTo_butlast: "startsWithMoveTo cs \<Longrightarrow> startsWithMoveTo (butlast cs)"
  by (cases cs rule: rev_cases) (auto simp: startsWithMoveTo_def split: list.splits)

lemma map_hd_openS:
  "map hd (openS ss) =
     (if ss = [] then [MoveToCmd]
      else if hd (last ss) = CloseCmd then map hd ss @ [MoveToCmd] else map hd ss)"
  by (simp add: openS_def)

lemma last_map_hd: "ss \<noteq> [] \<Longrightarrow> last (map hd ss) = hd (last ss)"
  by (simp add: last_map)

lemma slotStep_cases [consumes 1, case_names same coords move draw drop close closeNew]:
  assumes "slotStep ss ss'"
  obtains "ss' = ss"
  | x y where "ss \<noteq> []" "ss' = butlast ss @ [[hd (last ss), x, y, hd (last ss)]]"
  | x y where "ss = [] \<or> hd (last ss) \<noteq> MoveToCmd" "ss' = ss @ [[MoveToCmd, x, y, MoveToCmd]]"
  | s where "slot s"
      "hd s = LineToCmd \<or> hd s = QuadToCmd \<or> hd s = CubeToCmd \<or> hd s = ArcToCmd"
      "ss' = openS ss @ [s]"
  | "ss \<noteq> []" "hd (last ss) = MoveToCmd" "ss' = butlast ss"
  | a b where "ss \<noteq> []" "hd (last ss) = LineToCmd" "ss' = butlast ss @ [[CloseCmd, a, b, CloseCmd]]"
  | a b where "ss \<noteq> []" "hd (last ss) \<noteq> CloseCmd" "hd (last ss) \<noteq> MoveToCmd"
      "ss' = ss @ [[CloseCmd, a, b, CloseCmd]]"
  using assms unfolding slotStep_def by blast

lemma slotStep_noDouble:
  assumes "slotStep ss ss'" "noDoubleMoveTo (map hd ss)"
  shows "noDoubleMoveTo (map hd ss')"
  using assms(1)
proof (cases rule: slotStep_cases)
  case same
  then show ?thesis using assms(2) by simp
next
  case (coords x y)
  then have "map hd ss' = map hd ss"
    by (cases ss rule: rev_cases) simp_all
  then show ?thesis using assms(2) by simp
next
  case (move x y)
  then show ?thesis using assms(2) by (auto simp: noDoubleMoveTo_snoc last_map_hd)
next
  case (draw s)
  then show ?thesis using assms(2)
    by (auto simp: noDoubleMoveTo_snoc map_hd_openS last_map_hd)
next
  case drop
  then show ?thesis using assms(2) noDoubleMoveTo_butlast[of "map hd ss"] by (simp add: map_butlast)
next
  case (close a b)
  then show ?thesis using assms(2) noDoubleMoveTo_butlast[of "map hd ss"]
    by (simp add: noDoubleMoveTo_snoc map_butlast)
next
  case (closeNew a b)
  then show ?thesis using assms(2) by (simp add: noDoubleMoveTo_snoc)
qed

lemma slotStep_subpaths:
  assumes "slotStep ss ss'" "startsWithMoveTo (map hd ss)" "moveToAfterClose (map hd ss)"
  shows "startsWithMoveTo (map hd ss') \<and> moveToAfterClose (map hd ss')"
  using assms(1)
proof (cases rule: slotStep_cases)
  case same
  then show ?thesis using assms(2,3) by simp
next
  case (coords x y)
  then have "map hd ss' = map hd ss"
    by (cases ss rule: rev_cases) simp_all
  then show ?thesis using assms(2,3) by simp
next
  case (move x y)
  then show ?thesis using assms(2,3)
    by (auto simp: moveToAfterClose_snoc startsWithMoveTo_snoc)
next
  case (draw s)
  then show ?thesis using assms(2,3)
    by (auto simp: moveToAfterClose_snoc startsWithMoveTo_append map_hd_openS last_map_hd)
next
  case drop
  then show ?thesis
    using assms(2,3) moveToAfterClose_butlast[of "map hd ss"] startsWithMoveTo_butlast[of "map hd ss"]
    by (simp add: map_butlast)
next
  case (close a b)
  from close(1) obtain ss0 s where ss: "ss = ss0 @ [s]" by (cases ss rule: rev_cases) auto
  with close(2) have hs: "hd s = LineToCmd" by simp
  from assms(2) ss hs have ne0: "ss0 \<noteq> []" by (auto simp: startsWithMoveTo_def)
  from assms(3) ss hs ne0 have "last (map hd ss0) \<noteq> CloseCmd"
    by (auto simp: moveToAfterClose_snoc)
  then show ?thesis
    using assms(2,3) ss close(3) ne0
    by (auto simp: moveToAfterClose_snoc startsWithMoveTo_snoc)
next
  case (closeNew a b)
  then show ?thesis using assms(2,3)
    by (auto simp: moveToAfterClose_snoc startsWithMoveTo_snoc last_map_hd)
qed

lemma build_slots:
  "list_all slot ss \<Longrightarrow>
   \<exists>ss'. build u (concat ss) ms = Inr (concat ss') \<and> list_all slot ss'
      \<and> (noDoubleMoveTo (map hd ss) \<longrightarrow> noDoubleMoveTo (map hd ss'))
      \<and> (startsWithMoveTo (map hd ss) \<and> moveToAfterClose (map hd ss)
           \<longrightarrow> startsWithMoveTo (map hd ss') \<and> moveToAfterClose (map hd ss'))"
proof (induction ms arbitrary: ss)
  case Nil
  then show ?case by auto
next
  case (Cons m ms)
  from call_step[OF Cons.prems, of u m] obtain ss1 where
    c: "call u (concat ss) m = Inr (concat ss1)" and st: "slotStep ss ss1" by blast
  from slotStep_slots[OF Cons.prems st] have s1: "list_all slot ss1" .
  from Cons.IH[OF s1] obtain ss' where
    b: "build u (concat ss1) ms = Inr (concat ss')" and s': "list_all slot ss'"
    and n: "noDoubleMoveTo (map hd ss1) \<longrightarrow> noDoubleMoveTo (map hd ss')"
    and p: "startsWithMoveTo (map hd ss1) \<and> moveToAfterClose (map hd ss1)
           \<longrightarrow> startsWithMoveTo (map hd ss') \<and> moveToAfterClose (map hd ss')" by blast
  have "build u (concat ss) (m # ms) = Inr (concat ss')" using c b by simp
  moreover have "noDoubleMoveTo (map hd ss) \<longrightarrow> noDoubleMoveTo (map hd ss')"
    using n slotStep_noDouble[OF st] by blast
  moreover have "startsWithMoveTo (map hd ss) \<and> moveToAfterClose (map hd ss)
           \<longrightarrow> startsWithMoveTo (map hd ss') \<and> moveToAfterClose (map hd ss')"
    using p slotStep_subpaths[OF st] by blast
  ultimately show ?case using s' by blast
qed

lemma build_invariants:
  "\<exists>d. build u [] ms = Inr d \<and> packed d \<and> noDoubleMoveTo (cmds d)
       \<and> startsWithMoveTo (cmds d) \<and> moveToAfterClose (cmds d)"
proof -
  from build_slots[of "[]" u ms] obtain ss' where
    b: "build u [] ms = Inr (concat ss')" and s': "list_all slot ss'"
    and n: "noDoubleMoveTo (map hd ss')"
    and p: "startsWithMoveTo (map hd ss')" "moveToAfterClose (map hd ss')"
    by (auto simp: startsWithMoveTo_def)
  have "packed (concat ss')" unfolding packed_iff using s' by blast
  then show ?thesis using b n p cmds_concat[OF s'] by simp
qed

lemma call_packed: "packed d \<Longrightarrow> \<exists>d'. call u d m = Inr d' \<and> packed d'"
proof -
  assume "packed d"
  then obtain ss where ss: "d = concat ss" "list_all slot ss" by (auto simp: packed_iff)
  from call_step[OF ss(2), of u m] obtain ss1 where
    c: "call u (concat ss) m = Inr (concat ss1)" and st: "slotStep ss ss1" by blast
  from slotStep_slots[OF ss(2) st] have "packed (concat ss1)" unfolding packed_iff by blast
  then show ?thesis using c ss(1) by blast
qed

lemma draw_step:
  assumes "list_all slot ss" "isDrawing m"
  shows "call u (concat ss) m = Inr (concat ss)
       \<or> (ss \<noteq> [] \<and> hd (last ss) = LineToCmd
           \<and> (\<exists>x y. call u (concat ss) m = Inr (concat (butlast ss @ [[LineToCmd, x, y, LineToCmd]]))))
       \<or> (\<exists>s. slot s
           \<and> (hd s = LineToCmd \<or> hd s = QuadToCmd \<or> hd s = CubeToCmd \<or> hd s = ArcToCmd)
           \<and> call u (concat ss) m = Inr (concat (openS ss @ [s])))"
proof -
  define G :: "error + Path \<Rightarrow> bool" where
    "G r \<longleftrightarrow> r = Inr (concat ss)
       \<or> (ss \<noteq> [] \<and> hd (last ss) = LineToCmd
           \<and> (\<exists>x y. r = Inr (concat (butlast ss @ [[LineToCmd, x, y, LineToCmd]]))))
       \<or> (\<exists>s. slot s
           \<and> (hd s = LineToCmd \<or> hd s = QuadToCmd \<or> hd s = CubeToCmd \<or> hd s = ArcToCmd)
           \<and> r = Inr (concat (openS ss @ [s])))" for r
  have G1: "G (Inr (concat ss))" by (simp add: G_def)
  have G3: "G (Inr (concat (openS ss @ [s])))"
    if "slot s" "hd s = LineToCmd \<or> hd s = QuadToCmd \<or> hd s = CubeToCmd \<or> hd s = ArcToCmd" for s
    unfolding G_def using that by blast
  have L: "G (LineTo u (concat ss) x y)" for x y
  proof -
    have "slot [LineToCmd, x, y, LineToCmd]" "hd [LineToCmd, x, y, LineToCmd] = LineToCmd"
      by simp_all
    then show ?thesis unfolding G_def using LineTo_slots[OF assms(1), of u x y] by blast
  qed
  have "G (call u (concat ss) m)"
  proof (cases m)
    case (CallMoveTo x y)
    then show ?thesis using assms(2) by simp
  next
    case (CallLineTo x y)
    then show ?thesis using L[of x y] by simp
  next
    case (CallQuadTo cpx cpy x y)
    have "G (Inr (concat (openS ss @ [[QuadToCmd, cpx, cpy, x, y, QuadToCmd]])))"
      by (rule G3) simp_all
    then have "G (QuadTo u (concat ss) cpx cpy x y)"
      using QuadTo_slots[OF assms(1), of u cpx cpy x y] L[of x y] G1 by metis
    then show ?thesis using CallQuadTo by simp
  next
    case (CallCubeTo cpx1 cpy1 cpx2 cpy2 x y)
    have "G (Inr (concat (openS ss @ [[CubeToCmd, cpx1, cpy1, cpx2, cpy2, x, y, CubeToCmd]])))"
      by (rule G3) simp_all
    then have "G (CubeTo u (concat ss) cpx1 cpy1 cpx2 cpy2 x y)"
      using CubeTo_slots[OF assms(1), of u cpx1 cpy1 cpx2 cpy2 x y] L[of x y] G1 by metis
    then show ?thesis using CallCubeTo by simp
  next
    case (CallArcTo rx ry rot large sweep x y)
    have "G (Inr (concat (openS ss @ [[ArcToCmd, rx', ry', phi, fl, x, y, ArcToCmd]])))"
      for rx' ry' phi fl
      by (rule G3) simp_all
    then have "G (ArcTo u (concat ss) rx ry rot large sweep x y)"
      using ArcTo_slots[OF assms(1), of u rx ry rot large sweep x y] L[of x y] G1 by metis
    then show ?thesis using CallArcTo by simp
  next
    case CallClose
    then show ?thesis using assms(2) by simp
  qed
  then show ?thesis unfolding G_def .
qed

lemma packed_Nil: "packed []"
  by (simp add: packed_def packed_from.simps)

text \<open>
  Claim C9. The packed encoding is kept by every operation that builds or rewrites path
  data. The empty path is packed. On packed data each mutator, \<open>Reverse\<close> and \<open>Transform\<close>
  return (no index leaves the slice) and what they return is packed again: every command
  occupies \<open>cmdLen cmd\<close> consecutive values and its value is stored at both ends of the slot.
\<close>

theorem packed_kept:
  "packed []
   \<and> (packed d \<longrightarrow>
        (\<exists>d'. call u d m = Inr d' \<and> packed d')
        \<and> (\<exists>q. Reverse eps d = Inr q \<and> packed q)
        \<and> (\<exists>d'. Transform u ops t d = Inr d' \<and> packed d'))"
proof -
  have "\<exists>d'. Transform u ops t d = Inr d' \<and> packed d'" if "packed d"
    using Transform_packed[OF that, of u ops t] by blast
  then show ?thesis
    using packed_Nil call_packed[of d u m] Reverse_packed[of d eps] by blast
qed

lemma packed_example: "packed [1, 0, 0, 1, 2, 3, 4, 2]"
proof -
  have "list_all slot [[MoveToCmd, 0, 0, MoveToCmd], [LineToCmd, 3, 4, LineToCmd]]" by simp
  then have "packed (concat [[MoveToCmd, 0, 0, MoveToCmd], [LineToCmd, 3, 4, LineToCmd]])"
    unfolding packed_iff by blast
  then show ?thesis by simp
qed

text \<open>
  The statement at the path \<open>M 0 0 L 3 4\<close>, closed by \<open>Close\<close>, reversed and transformed.
\<close>

theorem packed_kept_witness:
  "packed [1, 0, 0, 1, 2, 3, 4, 2]
   \<and> (\<exists>d'. call (tolerance (1 / 1000000)) [1, 0, 0, 1, 2, 3, 4, 2] CallClose = Inr d' \<and> packed d')
   \<and> (\<exists>q. Reverse (1 / 1000000) [1, 0, 0, 1, 2, 3, 4, 2] = Inr q \<and> packed q)
   \<and> (\<exists>d'. Transform (tolerance (1 / 1000000)) anyMatrixOps () [1, 0, 0, 1, 2, 3, 4, 2] = Inr d'
          \<and> packed d')"
  using packed_kept[of "[1, 0, 0, 1, 2, 3, 4, 2]" "tolerance (1 / 1000000)" CallClose
      "1 / 1000000" anyMatrixOps "()"] packed_example
  by blast

lemma subpaths_Nil: "subpathsStartWithMoveTo []"
  by (simp add: subpathsStartWithMoveTo_def packed_Nil cmds_def cmds_from.simps)

lemma call_subpaths:
  assumes "subpathsStartWithMoveTo d"
  shows "\<exists>d'. call u d m = Inr d' \<and> subpathsStartWithMoveTo d'"
proof -
  from assms obtain ss where d: "d = concat ss" and s: "list_all slot ss"
    unfolding subpathsStartWithMoveTo_def packed_iff by blast
  from assms have inv: "startsWithMoveTo (map hd ss)" "moveToAfterClose (map hd ss)"
    unfolding subpathsStartWithMoveTo_def d using cmds_concat[OF s] by simp_all
  from call_step[OF s, of u m] obtain ss' where
    c: "call u (concat ss) m = Inr (concat ss')" and st: "slotStep ss ss'" by blast
  from slotStep_slots[OF s st] have s': "list_all slot ss'" .
  have "packed (concat ss')" unfolding packed_iff using s' by blast
  then have "subpathsStartWithMoveTo (concat ss')"
    unfolding subpathsStartWithMoveTo_def
    using slotStep_subpaths[OF st inv] cmds_concat[OF s'] by simp
  then show ?thesis using c d by blast
qed

lemma LineTo_exact:
  assumes "Pos_path d = Inr start" "openSubpath d = Inr d'"
    and "\<not> (cmdLen LineToCmd \<le> length d \<and> d ! (length d - 1) = LineToCmd)"
  shows "LineTo u d x y =
           (if Point_Equals (Epsilon u) start (Point x y) then Inr d
            else Inr (d' @ [LineToCmd, x, y, LineToCmd]))"
proof -
  define n where "n = length d"
  have c: "(cmdLen LineToCmd \<le> n \<and> d ! (n - 1) = LineToCmd) = False"
    using assms(3) by (simp add: n_def)
  show ?thesis
    unfolding LineTo_def Let_def n_def[symmetric] c
    using assms(1,2) by simp
qed

lemma draw_exact:
  assumes pos: "Pos_path d = Inr start" and op: "openSubpath d = Inr d'"
    and nl: "\<not> (cmdLen LineToCmd \<le> length d \<and> d ! (length d - 1) = LineToCmd)"
    and dr: "isDrawing m"
  shows "if dropped (Epsilon u) start m then call u d m = Inr d
         else (\<exists>s. drawsAs m s \<and> call u d m = Inr (d' @ s))"
proof (cases m)
  case (CallMoveTo x y)
  with dr show ?thesis by simp
next
  case (CallLineTo x y)
  then show ?thesis by (simp add: LineTo_exact[OF pos op nl])
next
  case (CallQuadTo cpx cpy x y)
  then show ?thesis
    by (simp add: QuadTo_def Let_def pos op LineTo_exact[OF pos op nl])
next
  case (CallCubeTo cpx1 cpy1 cpx2 cpy2 x y)
  then show ?thesis
    by (simp add: CubeTo_def Let_def pos op LineTo_exact[OF pos op nl])
next
  case (CallArcTo rx ry rot large sweep x y)
  then show ?thesis
    by (simp add: ArcTo_def Let_def pos op LineTo_exact[OF pos op nl])
next
  case CallClose
  with dr show ?thesis by simp
qed

lemma draw_on_empty:
  assumes "isDrawing m"
  shows "if dropped (Epsilon u) (Point 0 0) m then call u [] m = Inr []
         else (\<exists>s. drawsAs m s \<and> call u [] m = Inr ([MoveToCmd, 0, 0, MoveToCmd] @ s))"
proof -
  have "Pos_path [] = Inr (Point 0 0)" by (simp add: Pos_path_def)
  moreover have "openSubpath [] = Inr [MoveToCmd, 0, 0, MoveToCmd]"
    by (simp add: openSubpath_def MoveTo_def)
  moreover have "\<not> (cmdLen LineToCmd \<le> length ([] :: Path)
                    \<and> ([] :: Path) ! (length ([] :: Path) - 1) = LineToCmd)" by simp
  ultimately show ?thesis using draw_exact[OF _ _ _ assms, of "[]"] by blast
qed

lemma draw_after_close:
  assumes "isDrawing m" "packed d" "d \<noteq> []" "last d = CloseCmd"
  shows "if dropped (Epsilon u) (Point (d ! (length d - 3)) (d ! (length d - 2))) m
         then call u d m = Inr d
         else (\<exists>s. drawsAs m s \<and> call u d m
                 = Inr (d @ [MoveToCmd, d ! (length d - 3), d ! (length d - 2), MoveToCmd] @ s))"
proof -
  from assms(2) obtain ss where d: "d = concat ss" and s: "list_all slot ss"
    unfolding packed_iff by blast
  from assms(3) d have ne: "ss \<noteq> []" by auto
  then obtain pre l where ss: "ss = pre @ [l]" by (metis append_butlast_last_id)
  from s ss have sl: "slot l" by simp
  then have lne: "l \<noteq> []" by (simp add: slot_def)
  have "last d = last l" unfolding d ss using lne by simp
  then have hl: "hd l = CloseCmd" using sl assms(4) by (simp add: slot_def)
  from slot4[OF sl] hl obtain a b where l: "l = [CloseCmd, a, b, CloseCmd]" by auto
  have dd: "d = concat pre @ [CloseCmd, a, b, CloseCmd]" unfolding d ss l by simp
  have c3: "d ! (length d - 3) = a" unfolding dd by (simp add: nth_append)
  have c2: "d ! (length d - 2) = b" unfolding dd by (simp add: nth_append)
  have c1: "d ! (length d - 1) = CloseCmd" unfolding dd by (simp add: nth_append)
  have pos: "Pos_path d = Inr (Point a b)"
    using c3 c2 unfolding Pos_path_def dd by simp
  have op: "openSubpath d = Inr (d @ [MoveToCmd, a, b, MoveToCmd])"
    using c3 c2 c1 assms(3) unfolding openSubpath_def MoveTo_def
    by (simp add: dd)
  have nl: "\<not> (cmdLen LineToCmd \<le> length d \<and> d ! (length d - 1) = LineToCmd)"
    using c1 by simp
  from draw_exact[OF pos op nl assms(1), of u] show ?thesis
    unfolding c3 c2 by (auto split: if_splits)
qed

text \<open>
  Claim C4, amended. Every mutator keeps the invariant that the path's first command is
  \<open>MoveTo\<close> and that a \<open>Close\<close> is followed by a \<open>MoveTo\<close> or by nothing, so every path
  built through the mutators has it: each subpath starts with \<open>MoveTo\<close>. A drawing command
  on the empty path is dropped, leaving the path empty, exactly when its end point and (for
  a curve) its control points equal the current position \<open>(0,0)\<close> within the tolerance;
  every other drawing command puts \<open>MoveTo(0,0)\<close> first and then one slot of its own: a
  \<open>LineTo\<close> to its end point, or its own command with its control points (its flags, for
  an arc) and its end point. A drawing command directly after a \<open>Close\<close> is dropped exactly
  when it is such a no-op at the end point of the \<open>Close\<close>; every other one puts a
  \<open>MoveTo\<close> to the end point of the \<open>Close\<close> first and then one slot of its own.
\<close>

theorem subpaths_start_with_MoveTo:
  "subpathsStartWithMoveTo []
   \<and> (subpathsStartWithMoveTo d \<longrightarrow>
         (\<exists>d'. call u d m = Inr d' \<and> subpathsStartWithMoveTo d'))
   \<and> (\<exists>p. build u [] ms = Inr p \<and> subpathsStartWithMoveTo p)
   \<and> (isDrawing m \<longrightarrow>
         (if dropped (Epsilon u) (Point 0 0) m then call u [] m = Inr []
          else (\<exists>s. drawsAs m s \<and> call u [] m = Inr ([MoveToCmd, 0, 0, MoveToCmd] @ s))))
   \<and> (isDrawing m \<and> packed d \<and> d \<noteq> [] \<and> last d = CloseCmd \<longrightarrow>
         (if dropped (Epsilon u) (Point (d ! (length d - 3)) (d ! (length d - 2))) m
          then call u d m = Inr d
          else (\<exists>s. drawsAs m s \<and> call u d m
                  = Inr (d @ [MoveToCmd, d ! (length d - 3), d ! (length d - 2), MoveToCmd]
                           @ s))))"
proof -
  have "\<exists>p. build u [] ms = Inr p \<and> subpathsStartWithMoveTo p"
    using build_invariants[of u ms] unfolding subpathsStartWithMoveTo_def by blast
  then show ?thesis
    using subpaths_Nil call_subpaths[of d u m] draw_on_empty[of m u]
      draw_after_close[of m d u] by blast
qed

lemma closed_example:
  "packed [1, 0, 0, 1, 2, 1, 0, 2, 32, 0, 0, 32]"
  "subpathsStartWithMoveTo [1, 0, 0, 1, 2, 1, 0, 2, 32, 0, 0, 32]"
proof -
  let ?ss = "[[MoveToCmd, 0, 0, MoveToCmd], [LineToCmd, 1, 0, LineToCmd],
              [CloseCmd, 0, 0, CloseCmd]]"
  have s: "list_all slot ?ss" by simp
  then have p: "packed (concat ?ss)" unfolding packed_iff by blast
  then show "packed [1, 0, 0, 1, 2, 1, 0, 2, 32, 0, 0, 32]" by simp
  have "subpathsStartWithMoveTo (concat ?ss)"
    unfolding subpathsStartWithMoveTo_def using p cmds_concat[OF s] by simp
  then show "subpathsStartWithMoveTo [1, 0, 0, 1, 2, 1, 0, 2, 32, 0, 0, 32]" by simp
qed

text \<open>
  The statement at the closed path \<open>M 0 0 L 1 0 z\<close> and the command \<open>LineTo(5,5)\<close>.
\<close>

theorem subpaths_start_with_MoveTo_witness:
  "subpathsStartWithMoveTo [1, 0, 0, 1, 2, 1, 0, 2, 32, 0, 0, 32]
   \<and> isDrawing (CallLineTo 5 5)
   \<and> packed [1, 0, 0, 1, 2, 1, 0, 2, 32, 0, 0, 32]
   \<and> last [1, 0, 0, 1, 2, 1, 0, 2, 32, 0, 0, 32 :: float64] = CloseCmd
   \<and> \<not> dropped (1 / 1000000) (Point 0 0) (CallLineTo 5 5)
   \<and> (\<exists>d'. call (tolerance (1 / 1000000)) [1, 0, 0, 1, 2, 1, 0, 2, 32, 0, 0, 32] (CallLineTo 5 5)
            = Inr d' \<and> subpathsStartWithMoveTo d')
   \<and> call (tolerance (1 / 1000000)) [] (CallLineTo 5 5) = Inr [1, 0, 0, 1, 2, 5, 5, 2]
   \<and> call (tolerance (1 / 1000000)) [1, 0, 0, 1, 2, 1, 0, 2, 32, 0, 0, 32] (CallLineTo 5 5)
       = Inr [1, 0, 0, 1, 2, 1, 0, 2, 32, 0, 0, 32, 1, 0, 0, 1, 2, 5, 5, 2]"
proof -
  have nd: "\<not> dropped (1 / 1000000) (Point 0 0) (CallLineTo 5 5)"
    by (simp add: Point_Equals_def Equal_def)
  show ?thesis
    using subpaths_start_with_MoveTo[of "[1, 0, 0, 1, 2, 1, 0, 2, 32, 0, 0, 32]"
        "tolerance (1 / 1000000)" "CallLineTo 5 5" "[]"] closed_example nd
    by auto
qed

text \<open>
  Claim C4 as stated says that a drawing command issued on an empty path first inserts
  \<open>MoveTo(0,0)\<close>. \<open>LineTo(0,0)\<close> on the empty path is a drawing command and inserts
  nothing: its end point equals the current position \<open>(0,0)\<close>, and \<open>LineTo\<close> returns before
  it looks at the data.
\<close>

theorem LineTo_on_empty_path_inserts_nothing:
  "isDrawing (CallLineTo 0 0) \<and> call (tolerance (1 / 1000000)) [] (CallLineTo 0 0) = Inr []"
  by (simp add: LineTo_def Pos_path_def tolerance_def Point_Equals_def Equal_def)

text \<open>
  Claim C10. \<open>MoveTo\<close> on a path whose last command is a \<open>MoveTo\<close> appends nothing: the
  result has the same length, every value before the last three is unchanged, and the last
  three values are the new coordinates and the command. A path built through the mutators
  never holds two consecutive \<open>MoveTo\<close> commands.
\<close>

theorem MoveTo_coalesces:
  "(packed d \<and> d \<noteq> [] \<and> last d = MoveToCmd \<longrightarrow>
      (\<exists>d'. MoveTo d x y = Inr d' \<and> length d' = length d
           \<and> take (length d - 3) d' = take (length d - 3) d
           \<and> drop (length d - 3) d' = [x, y, MoveToCmd]))
   \<and> (\<exists>p. build u [] ms = Inr p \<and> noDoubleMoveTo (cmds p))"
proof -
  have "\<exists>d'. MoveTo d x y = Inr d' \<and> length d' = length d
           \<and> take (length d - 3) d' = take (length d - 3) d
           \<and> drop (length d - 3) d' = [x, y, MoveToCmd]"
    if p: "packed d" and ne: "d \<noteq> []" and l: "last d = MoveToCmd"
  proof -
    from p obtain ss where d: "d = concat ss" and s: "list_all slot ss"
      unfolding packed_iff by blast
    from ne d have "ss \<noteq> []" by auto
    from slots_length[OF s this] have len: "4 \<le> length d" unfolding d .
    define pre where "pre = take (length d - 3) d"
    define suf where "suf = drop (length d - 3) d"
    have split: "d = pre @ suf" by (simp add: pre_def suf_def)
    have "length suf = 3" using len by (simp add: suf_def)
    then obtain a b c where "suf = [a, b, c]"
      by (auto simp: length_Suc_conv numeral_3_eq_3)
    with split have dd: "d = pre @ [a, b, c]" by simp
    from l have c: "c = MoveToCmd" unfolding dd by simp
    show ?thesis
      unfolding dd c by (simp add: MoveTo_def nth_append list_update_append)
  qed
  then show ?thesis using build_invariants[of u ms] by blast
qed

text \<open>
  The statement at the path \<open>M 0 0\<close>, moved to \<open>(3,4)\<close>, and at two \<open>MoveTo\<close> calls in a row.
\<close>

theorem MoveTo_coalesces_witness:
  "packed [1, 0, 0, 1] \<and> last [1, 0, 0, 1 :: float64] = MoveToCmd
   \<and> (\<exists>d'. MoveTo [1, 0, 0, 1] 3 4 = Inr d' \<and> length d' = length [1, 0, 0, 1 :: float64]
        \<and> take (length [1, 0, 0, 1 :: float64] - 3) d'
            = take (length [1, 0, 0, 1 :: float64] - 3) [1, 0, 0, 1]
        \<and> drop (length [1, 0, 0, 1 :: float64] - 3) d' = [3, 4, MoveToCmd])
   \<and> (\<exists>p. build (tolerance (1 / 1000000)) [] [CallMoveTo 1 1, CallMoveTo 2 2] = Inr p
        \<and> noDoubleMoveTo (cmds p))"
proof -
  have "list_all slot [[MoveToCmd, 0, 0, MoveToCmd]]" by simp
  then have "packed (concat [[MoveToCmd, 0, 0, MoveToCmd]])" unfolding packed_iff by blast
  then have p: "packed [1, 0, 0, 1]" by simp
  show ?thesis
    using MoveTo_coalesces[of "[1, 0, 0, 1]" 3 4 "tolerance (1 / 1000000)"
        "[CallMoveTo 1 1, CallMoveTo 2 2]"] p
    by simp
qed

lemma arcCenter_ok:
  assumes "7 \<le> length s"
  shows "\<exists>c th0 th1. arcCenter u s0 s = Inr (c, Point (s ! 1) (s ! 2), s ! 3 * pi / 180, th0, th1)"
  using assms by (simp add: arcCenter_def Let_def split_beta)

lemma segment_hd: "segment s \<Longrightarrow> \<not> length s < 1 \<and> s ! 0 = hd s"
  by (cases s) (simp_all add: segment_def)

lemma segment_arc: "segment s \<Longrightarrow> hd s = ArcToCmd \<Longrightarrow> 7 \<le> length s"
  by (simp add: segment_def)

lemma Intersections_add_append:
  "\<exists>z. Intersections_add zs pos ta tb dira dirb tangent same = zs @ [z]"
  by (simp add: Intersections_add_def Let_def)

lemma intersectionEllipseEllipse_not_circles:
  assumes "\<not> Equal (Epsilon u) (X r0) (Y r0) \<or> \<not> Equal (Epsilon u) (X r1) (Y r1)"
  shows "intersectionEllipseEllipse u zs c0 r0 phi0 ts0 te0 c1 r1 phi1 ts1 te1
           = Inl (Panic ''not handled'')"
  using assms by (simp add: intersectionEllipseEllipse_def Let_def)

lemma intersectionEllipseEllipse_circles:
  assumes "Equal (Epsilon u) (X r0) (Y r0)" "Equal (Epsilon u) (X r1) (Y r1)"
  shows "\<exists>new. intersectionEllipseEllipse u zs c0 r0 phi0 ts0 te0 c1 r1 phi1 ts1 te1
           = Inr (zs @ new)"
  using assms
  by (simp add: intersectionEllipseEllipse_def Intersections_add_def Let_def)

lemma hd_kinds [simp]:
  "isLine QuadToCmd = False" "isLine CubeToCmd = False" "isLine ArcToCmd = False"
  by (simp_all add: isLine_def)

text \<open>
  Claim C1. For the kind pairs quad-quad, quad-cube, cube-cube, quad-arc and cube-arc, in
  either order, \<open>intersectionSegment\<close> ends in the explicit panic that names the pair; on
  these pairs it never returns a list, whatever the slices hold behind their command.
\<close>

theorem unsupported_pairs_panic:
  "(segment a \<and> segment b
      \<and> (hd a = QuadToCmd \<or> hd a = CubeToCmd \<or> hd a = ArcToCmd)
      \<and> (hd b = QuadToCmd \<or> hd b = CubeToCmd \<or> hd b = ArcToCmd)
      \<and> (hd a, hd b) \<noteq> (ArcToCmd, ArcToCmd)
    \<longrightarrow> intersectionSegment u sv zs a0 a b0 b
          = Inl (Panic (''unsupported intersection for '' @ kindName (hd a) @ ''-''
                          @ kindName (hd b))))
   \<and> (a \<noteq> [] \<and> b \<noteq> []
      \<and> (hd a = QuadToCmd \<or> hd a = CubeToCmd \<or> hd a = ArcToCmd)
      \<and> (hd b = QuadToCmd \<or> hd b = CubeToCmd \<or> hd b = ArcToCmd)
      \<and> (hd a, hd b) \<noteq> (ArcToCmd, ArcToCmd)
    \<longrightarrow> (\<exists>e. intersectionSegment u sv zs a0 a b0 b = Inl e))"
proof -
  have 1: "intersectionSegment u sv zs a0 a b0 b
          = Inl (Panic (''unsupported intersection for '' @ kindName (hd a) @ ''-''
                          @ kindName (hd b)))"
    if sa: "segment a" and sb: "segment b"
      and ka: "hd a = QuadToCmd \<or> hd a = CubeToCmd \<or> hd a = ArcToCmd"
      and kb: "hd b = QuadToCmd \<or> hd b = CubeToCmd \<or> hd b = ArcToCmd"
      and nn: "(hd a, hd b) \<noteq> (ArcToCmd, ArcToCmd)"
  proof -
    note ha = segment_hd[OF sa] and hb = segment_hd[OF sb]
    from ka show ?thesis
    proof (elim disjE)
      assume q: "hd a = QuadToCmd"
      show ?thesis using kb ha hb q
        by (auto simp: intersectionSegment_def kindName_def)
    next
      assume c: "hd a = CubeToCmd"
      show ?thesis using kb ha hb c
        by (auto simp: intersectionSegment_def kindName_def)
    next
      assume r: "hd a = ArcToCmd"
      from arcCenter_ok[OF segment_arc[OF sa r], of u a0] obtain c th0 th1 where
        ac: "arcCenter u a0 a = Inr (c, Point (a ! 1) (a ! 2), a ! 3 * pi / 180, th0, th1)"
        by blast
      show ?thesis using kb ha hb r nn
        by (auto simp: intersectionSegment_def kindName_def ac bindE_def)
    qed
  qed
  have 2: "\<exists>e. intersectionSegment u sv zs a0 a b0 b = Inl e"
    if na: "a \<noteq> []" and nb: "b \<noteq> []"
      and ka: "hd a = QuadToCmd \<or> hd a = CubeToCmd \<or> hd a = ArcToCmd"
      and kb: "hd b = QuadToCmd \<or> hd b = CubeToCmd \<or> hd b = ArcToCmd"
      and nn: "(hd a, hd b) \<noteq> (ArcToCmd, ArcToCmd)"
  proof -
    have ha: "\<not> length a < 1 \<and> a ! 0 = hd a" using na by (cases a) simp_all
    have hb: "\<not> length b < 1 \<and> b ! 0 = hd b" using nb by (cases b) simp_all
    from ka show ?thesis
    proof (elim disjE)
      assume q: "hd a = QuadToCmd"
      show ?thesis using kb ha hb q by (auto simp: intersectionSegment_def)
    next
      assume c: "hd a = CubeToCmd"
      show ?thesis using kb ha hb c by (auto simp: intersectionSegment_def)
    next
      assume r: "hd a = ArcToCmd"
      show ?thesis
      proof (cases "length a < 7")
        case True
        then show ?thesis using ha r by (simp add: intersectionSegment_def arcCenter_def bindE_def)
      next
        case False
        then have "7 \<le> length a" by simp
        from arcCenter_ok[OF this, of u a0] obtain c th0 th1 where
          ac: "arcCenter u a0 a = Inr (c, Point (a ! 1) (a ! 2), a ! 3 * pi / 180, th0, th1)"
          by blast
        show ?thesis using kb ha hb r nn
          by (auto simp: intersectionSegment_def ac bindE_def)
      qed
    qed
  qed
  show ?thesis using 1 2 by blast
qed

text \<open>
  The statement at a quadratic segment and an arc segment.
\<close>

theorem unsupported_pairs_panic_witness:
  "segment [4, 1, 1, 2, 0, 4] \<and> segment [16, 1, 1, 0, 0, 4, 0, 16]
   \<and> intersectionSegment (tolerance (1 / 10 ^ 10)) anySolvers [] (Point 0 0) [4, 1, 1, 2, 0, 4]
        (Point 2 0) [16, 1, 1, 0, 0, 4, 0, 16]
       = Inl (Panic ''unsupported intersection for quad-arc'')
   \<and> (\<exists>e. intersectionSegment (tolerance (1 / 10 ^ 10)) anySolvers [] (Point 0 0)
              [4, 1, 1, 2, 0, 4] (Point 2 0) [16, 1, 1, 0, 0, 4, 0, 16] = Inl e)"
  using unsupported_pairs_panic[of "[4, 1, 1, 2, 0, 4]" "[16, 1, 1, 0, 0, 4, 0, 16]"
      "tolerance (1 / 10 ^ 10)" anySolvers "[]" "Point 0 0" "Point 2 0"]
  by (simp add: segment_def kindName_def)

text \<open>
  Claim C3, amended. For two arc segments \<open>intersectionSegment\<close> reaches the
  ellipse-ellipse solver. When both arcs are circular within the tolerance
  (\<open>Equal rx ry\<close>), it returns the given list with the new intersections appended. When one
  of them is not, it ends in \<open>panic("not handled")\<close>.
\<close>

theorem arcs_supported_iff_circles:
  "segment a \<and> segment b \<and> hd a = ArcToCmd \<and> hd b = ArcToCmd \<longrightarrow>
     (if Equal (Epsilon u) (a ! 1) (a ! 2) \<and> Equal (Epsilon u) (b ! 1) (b ! 2)
      then \<exists>new. intersectionSegment u sv zs a0 a b0 b = Inr (zs @ new)
      else intersectionSegment u sv zs a0 a b0 b = Inl (Panic ''not handled''))"
proof (intro impI, elim conjE)
  assume sa: "segment a" and sb: "segment b" and ka: "hd a = ArcToCmd" and kb: "hd b = ArcToCmd"
  note ha = segment_hd[OF sa] and hb = segment_hd[OF sb]
  from arcCenter_ok[OF segment_arc[OF sa ka], of u a0] obtain c th0 th1 where
    ac: "arcCenter u a0 a = Inr (c, Point (a ! 1) (a ! 2), a ! 3 * pi / 180, th0, th1)"
    by blast
  from arcCenter_ok[OF segment_arc[OF sb kb], of u b0] obtain c2 th20 th21 where
    bc: "arcCenter u b0 b = Inr (c2, Point (b ! 1) (b ! 2), b ! 3 * pi / 180, th20, th21)"
    by blast
  have eq: "intersectionSegment u sv zs a0 a b0 b
      = intersectionEllipseEllipse u zs c (Point (a ! 1) (a ! 2)) (a ! 3 * pi / 180) th0 th1
          c2 (Point (b ! 1) (b ! 2)) (b ! 3 * pi / 180) th20 th21"
    using ha hb ka kb by (simp add: intersectionSegment_def ac bc bindE_def)
  show "if Equal (Epsilon u) (a ! 1) (a ! 2) \<and> Equal (Epsilon u) (b ! 1) (b ! 2)
      then \<exists>new. intersectionSegment u sv zs a0 a b0 b = Inr (zs @ new)
      else intersectionSegment u sv zs a0 a b0 b = Inl (Panic ''not handled'')"
  proof (cases "Equal (Epsilon u) (a ! 1) (a ! 2) \<and> Equal (Epsilon u) (b ! 1) (b ! 2)")
    case True
    then show ?thesis unfolding eq
      using intersectionEllipseEllipse_circles[of u "Point (a ! 1) (a ! 2)" "Point (b ! 1) (b ! 2)"]
      by simp
  next
    case False
    then show ?thesis unfolding eq
      using intersectionEllipseEllipse_not_circles[of u "Point (a ! 1) (a ! 2)"
          "Point (b ! 1) (b ! 2)"]
      by auto
  qed
qed

text \<open>
  The statement at two arcs of radius 1.
\<close>

theorem arcs_supported_iff_circles_witness:
  "segment [16, 1, 1, 0, 0, 4, 0, 16] \<and> segment [16, 2, 1, 0, 0, 4, 0, 16]
   \<and> (\<exists>new. intersectionSegment (tolerance (1 / 10 ^ 10)) anySolvers [] (Point 0 0)
          [16, 1, 1, 0, 0, 4, 0, 16] (Point 0 0) [16, 1, 1, 0, 0, 4, 0, 16] = Inr ([] @ new))"
  using arcs_supported_iff_circles[of "[16, 1, 1, 0, 0, 4, 0, 16]" "[16, 1, 1, 0, 0, 4, 0, 16]"
      "tolerance (1 / 10 ^ 10)" anySolvers "[]" "Point 0 0" "Point 0 0"]
  by (simp add: segment_def Equal_def)

text \<open>
  Claim C3 as stated covers any radii. Two arc segments with \<open>rx = 2\<close> and \<open>ry = 1\<close> make
  \<open>intersectionSegment\<close> panic.
\<close>

theorem ellipse_arcs_panic:
  "segment [16, 2, 1, 0, 0, 4, 0, 16]
   \<and> intersectionSegment (tolerance (1 / 10 ^ 10)) anySolvers [] (Point 0 0)
        [16, 2, 1, 0, 0, 4, 0, 16] (Point 0 0) [16, 2, 1, 0, 0, 4, 0, 16]
       = Inl (Panic ''not handled'')"
proof -
  from arcCenter_ok[of "[16, 2, 1, 0, 0, 4, 0, 16]" "tolerance (1 / 10 ^ 10)" "Point 0 0"]
  obtain c th0 th1 where
    ac: "arcCenter (tolerance (1 / 10 ^ 10)) (Point 0 0) [16, 2, 1, 0, 0, 4, 0, 16]
           = Inr (c, Point 2 1, 0, th0, th1)"
    by auto
  show ?thesis using ac
    by (simp add: segment_def intersectionSegment_def bindE_def isLine_def
        intersectionEllipseEllipse_def Equal_def)
qed

text \<open>
  Claim C7. With a tolerance that is not negative, \<open>quadraticBezierLength\<close> of
  \<open>(0,0)\<close>, \<open>(1,0)\<close>, \<open>(2,0)\<close> is 2; in general, when the control point is the midpoint of
  the end points the quadratic coefficient vanishes and the result is the distance between
  the end points.
\<close>

theorem quadraticBezierLength_straight:
  "(0 \<le> eps \<longrightarrow> quadraticBezierLength eps (Point 0 0) (Point 1 0) (Point 2 0) = Some 2)
   \<and> (0 \<le> eps \<and> Point_Add (Point_Sub q0 (Point_Mul q1 2)) q2 = Point 0 0
        \<longrightarrow> quadraticBezierLength eps q0 q1 q2 = Some (Point_Length (Point_Sub q2 q0)))"
proof -
  have g: "quadraticBezierLength eps q0 q1 q2 = Some (Point_Length (Point_Sub q2 q0))"
    if "0 \<le> eps" "Point_Add (Point_Sub q0 (Point_Mul q1 2)) q2 = Point 0 0" for q0 q1 q2
    using that by (simp add: quadraticBezierLength_def Let_def Point_Dot_def Equal_def)
  have "Point_Add (Point_Sub (Point 0 0) (Point_Mul (Point 1 0) 2)) (Point 2 0) = Point 0 0"
    by (simp add: Point_Add_def Point_Sub_def Point_Mul_def)
  from g[OF _ this] have "0 \<le> eps \<Longrightarrow>
      quadraticBezierLength eps (Point 0 0) (Point 1 0) (Point 2 0) = Some 2"
    by (simp add: Point_Length_def Point_Sub_def)
  then show ?thesis using g by blast
qed

text \<open>
  The statement at the tolerance \<open>10\<^sup>-\<^sup>1\<^sup>0\<close> and at the points \<open>(1,1)\<close>, \<open>(2,3)\<close>, \<open>(3,5)\<close>.
\<close>

theorem quadraticBezierLength_straight_witness:
  "(0::real) \<le> 1 / 10 ^ 10
   \<and> quadraticBezierLength (1 / 10 ^ 10) (Point 0 0) (Point 1 0) (Point 2 0) = Some 2
   \<and> Point_Add (Point_Sub (Point 1 1) (Point_Mul (Point 2 3) 2)) (Point 3 5) = Point 0 0
   \<and> quadraticBezierLength (1 / 10 ^ 10) (Point 1 1) (Point 2 3) (Point 3 5)
       = Some (Point_Length (Point_Sub (Point 3 5) (Point 1 1)))"
  using quadraticBezierLength_straight[of "1 / 10 ^ 10" "Point 1 1" "Point 2 3" "Point 3 5"]
  by (simp add: Point_Add_def Point_Sub_def Point_Mul_def)

lemma growX_snd: "v \<le> snd (growX mm v)" "snd mm \<le> snd (growX mm v)"
  by (simp_all add: growX_def)

lemma rootGrow_snd: "snd mm \<le> snd (rootGrow u t pos mm)"
  by (cases t) (simp_all add: rootGrow_def growX_def)

lemma bounds_loop_end:
  "length d \<le> i \<Longrightarrow>
   bounds_loop step d i s e bx
     = Inr \<lparr> X0 = fst bx, Y0 = fst (snd (snd bx)), X1 = fst (snd bx), Y1 = snd (snd (snd bx)) \<rparr>"
  by (subst bounds_loop.simps) (simp add: split_beta)

lemma FastBounds_cubic:
  "FastBounds u [1, 0, 0, 1, 8, 0, 0, 0, 0, 10, 0, 8] = Inr \<lparr> X0 = 0, Y0 = 0, X1 = 0, Y1 = 0 \<rparr>"
proof -
  let ?d = "[1, 0, 0, 1, 8, 0, 0, 0, 0, 10, 0, 8] :: float64 list"
  have step: "FastBounds_step u ?d 4 (Point 0 0) (Point 0 0) (0, 0, 0, 0)
                = Inr (Point 10 0, (0, 0, 0, 0))"
    by (simp add: FastBounds_step_def)
  have fin: "bounds_loop (FastBounds_step u) ?d 12 (Point 10 0) (Point 10 0) (0, 0, 0, 0)
                = Inr \<lparr> X0 = 0, Y0 = 0, X1 = 0, Y1 = 0 \<rparr>"
    by (subst bounds_loop.simps) simp
  have "bounds_loop (FastBounds_step u) ?d 4 (Point 0 0) (Point 0 0) (0, 0, 0, 0)
                = Inr \<lparr> X0 = 0, Y0 = 0, X1 = 0, Y1 = 0 \<rparr>"
    by (subst bounds_loop.simps) (simp add: step fin)
  then show ?thesis by (simp add: FastBounds_def)
qed

lemma Bounds_cubic:
  "\<exists>r. Bounds u [1, 0, 0, 1, 8, 0, 0, 0, 0, 10, 0, 8] = Inr r \<and> 10 \<le> X1 r"
proof -
  let ?d = "[1, 0, 0, 1, 8, 0, 0, 0, 0, 10, 0, 8] :: float64 list"
  obtain tx1 tx2 where tx: "solveQuadraticFormula u 10 0 0 = (tx1, tx2)" by force
  obtain ty1 ty2 where ty: "solveQuadraticFormula u 0 0 0 = (ty1, ty2)" by force
  define pos where "pos = (\<lambda>t. X (cubicBezierPos (Point 0 0) (Point 0 0) (Point 0 0) (Point 10 0) t))"
  define posy where "posy = (\<lambda>t. Y (cubicBezierPos (Point 0 0) (Point 0 0) (Point 0 0) (Point 10 0) t))"
  define xs where "xs = rootGrow u tx2 pos (rootGrow u tx1 pos (growX (0, 0) 10))"
  define ys where "ys = rootGrow u ty2 posy (rootGrow u ty1 posy (growX (0, 0) 0))"
  have "10 \<le> snd (growX (0, 0) (10::real))" by (rule growX_snd)
  also have "\<dots> \<le> snd (rootGrow u tx1 pos (growX (0, 0) 10))" by (rule rootGrow_snd)
  also have "\<dots> \<le> snd xs" unfolding xs_def by (rule rootGrow_snd)
  finally have x10: "10 \<le> snd xs" .
  have step: "Bounds_step u ?d 4 (Point 0 0) (Point 0 0) (0, 0, 0, 0)
                = Inr (Point 10 0, (fst xs, snd xs, fst ys, snd ys))"
    by (simp add: Bounds_step_def Let_def tx ty xs_def ys_def pos_def posy_def)
  have "bounds_loop (Bounds_step u) ?d 4 (Point 0 0) (Point 0 0) (0, 0, 0, 0)
                = Inr \<lparr> X0 = fst xs, Y0 = fst ys, X1 = snd xs, Y1 = snd ys \<rparr>"
    by (subst bounds_loop.simps) (simp add: step bounds_loop_end)
  then show ?thesis using x10 by (simp add: Bounds_def)
qed

text \<open>
  Claim C2 fails on the code. For the path \<open>M 0 0 C 0 0 0 0 10 0\<close>, a cubic that runs from
  the origin to \<open>(10,0)\<close>, \<open>FastBounds\<close> returns the box \<open>(0,0)-(0,0)\<close> while \<open>Bounds\<close>
  returns a box whose upper x is at least 10: the box of \<open>FastBounds\<close> does not contain the
  box of \<open>Bounds\<close>. The cubic case of \<open>FastBounds\<close> takes
  \<open>math.Max(cp1.X, math.Min(cp2.X, end.X))\<close> where the maximum of the three is meant.
\<close>

theorem FastBounds_misses_cubic_end:
  "FastBounds (tolerance (1 / 10 ^ 10)) [1, 0, 0, 1, 8, 0, 0, 0, 0, 10, 0, 8]
     = Inr \<lparr> X0 = 0, Y0 = 0, X1 = 0, Y1 = 0 \<rparr>
   \<and> \<not> isl (Bounds (tolerance (1 / 10 ^ 10)) [1, 0, 0, 1, 8, 0, 0, 0, 0, 10, 0, 8])
   \<and> 10 \<le> X1 (projr (Bounds (tolerance (1 / 10 ^ 10)) [1, 0, 0, 1, 8, 0, 0, 0, 0, 10, 0, 8]))
   \<and> \<not> contains (projr (FastBounds (tolerance (1 / 10 ^ 10)) [1, 0, 0, 1, 8, 0, 0, 0, 0, 10, 0, 8]))
                 (projr (Bounds (tolerance (1 / 10 ^ 10)) [1, 0, 0, 1, 8, 0, 0, 0, 0, 10, 0, 8]))"
proof -
  from Bounds_cubic[of "tolerance (1 / 10 ^ 10)"] obtain r where
    b: "Bounds (tolerance (1 / 10 ^ 10)) [1, 0, 0, 1, 8, 0, 0, 0, 0, 10, 0, 8] = Inr r"
    and r: "10 \<le> X1 r" by blast
  show ?thesis
    unfolding FastBounds_cubic b using r by (simp add: contains_def)
qed

lemma skip_le: "k + skipCommaWhitespace (drop k path) \<le> length path" if "k \<le> length path"
proof -
  have "skipCommaWhitespace (drop k path) \<le> length (drop k path)"
    unfolding skipCommaWhitespace_def by (rule length_takeWhile_le)
  with that show ?thesis by simp
qed

lemma parseArgs_Bad:
  "parseArgs pf path cmd CMD r j i f = Bad e \<Longrightarrow> i \<le> length path \<Longrightarrow> CMD = upperCmd cmd \<Longrightarrow>
   positional path e"
proof (induction pf path cmd CMD r j i f rule: parseArgs.induct)
  case (1 pf path cmd CMD r j i f)
  show ?case
  proof (cases "j < argCount CMD")
    case False
    with "1.prems" show ?thesis by (simp add: parseArgs.simps)
  next
    case j: True
    show ?thesis
    proof (cases "CMD = CHR ''A'' \<and> (j = 3 \<or> j = 4)")
      case flag: True
      consider (one) "i < length path \<and> path ! i = CHR ''1''"
        | (zero) "\<not> (i < length path \<and> path ! i = CHR ''1'')"
                 "i < length path \<and> path ! i = CHR ''0''"
        | (bad) "\<not> (i < length path \<and> path ! i = CHR ''1'')"
                "\<not> (i < length path \<and> path ! i = CHR ''0'')"
        by blast
      then show ?thesis
      proof cases
        case one
        with "1.prems" j flag have
          "parseArgs pf path cmd CMD r (j + 1)
             (i + 1 + skipCommaWhitespace (drop (i + 1) path)) (f[j := 1]) = Bad e"
          by (subst (asm) parseArgs.simps) simp
        moreover have "i + 1 + skipCommaWhitespace (drop (i + 1) path) \<le> length path"
          using one by (intro skip_le) simp
        ultimately show ?thesis using "1.IH"(1)[OF j flag one] "1.prems"(3) by blast
      next
        case zero
        with "1.prems" j flag have
          "parseArgs pf path cmd CMD r (j + 1)
             (i + 1 + skipCommaWhitespace (drop (i + 1) path)) (f[j := 0]) = Bad e"
          by (subst (asm) parseArgs.simps) simp
        moreover have "i + 1 + skipCommaWhitespace (drop (i + 1) path) \<le> length path"
          using zero by (intro skip_le) simp
        ultimately show ?thesis using "1.IH"(2)[OF j flag zero] "1.prems"(3) by blast
      next
        case bad
        with "1.prems"(1) j flag have "e = BadFlags cmd (i + 1)"
          by (subst (asm) parseArgs.simps) (auto split: if_splits)
        with bad flag "1.prems"(2,3) show ?thesis by auto
      qed
    next
      case noflag: False
      obtain num n where pf: "pf (drop i path) = (num, n)" by force
      show ?thesis
      proof (cases "n = 0")
        case True
        with "1.prems"(1) j noflag pf have
          "e = UnknownCommand (path ! i) (i + 1) \<or> e = SetsOfNumbers (argCount CMD) cmd (i + 1)
           \<or> e = NumberExpected cmd (i + 1)"
          by (subst (asm) parseArgs.simps) (auto split: if_splits)
        with "1.prems"(2) show ?thesis by auto
      next
        case n: False
        show ?thesis
        proof (cases "length path < i + n")
          case True
          with "1.prems"(1) j noflag pf n show ?thesis
            by (subst (asm) parseArgs.simps) (auto split: if_splits)
        next
          case False
          with "1.prems"(1) j noflag pf n have
            "parseArgs pf path cmd CMD r (j + 1)
               (i + n + skipCommaWhitespace (drop (i + n) path)) (f[j := num]) = Bad e"
            by (subst (asm) parseArgs.simps) simp
          moreover have "i + n + skipCommaWhitespace (drop (i + n) path) \<le> length path"
            using False by (intro skip_le) simp
          ultimately show ?thesis
            using "1.IH"(3)[OF j noflag pf[symmetric]] n False "1.prems"(3) by blast
        qed
      qed
    qed
  qed
qed

lemma parseArgs_Good:
  "parseArgs pf path cmd CMD r j i f = Good (i', f') \<Longrightarrow> i \<le> length path \<Longrightarrow> i' \<le> length path"
proof (induction pf path cmd CMD r j i f rule: parseArgs.induct)
  case (1 pf path cmd CMD r j i f)
  show ?case
  proof (cases "j < argCount CMD")
    case False
    with "1.prems" show ?thesis by (simp add: parseArgs.simps)
  next
    case j: True
    show ?thesis
    proof (cases "CMD = CHR ''A'' \<and> (j = 3 \<or> j = 4)")
      case flag: True
      consider (one) "i < length path \<and> path ! i = CHR ''1''"
        | (zero) "\<not> (i < length path \<and> path ! i = CHR ''1'')"
                 "i < length path \<and> path ! i = CHR ''0''"
        | (bad) "\<not> (i < length path \<and> path ! i = CHR ''1'')"
                "\<not> (i < length path \<and> path ! i = CHR ''0'')"
        by blast
      then show ?thesis
      proof cases
        case one
        with "1.prems" j flag have
          "parseArgs pf path cmd CMD r (j + 1)
             (i + 1 + skipCommaWhitespace (drop (i + 1) path)) (f[j := 1]) = Good (i', f')"
          by (subst (asm) parseArgs.simps) simp
        moreover have "i + 1 + skipCommaWhitespace (drop (i + 1) path) \<le> length path"
          using one by (intro skip_le) simp
        ultimately show ?thesis using "1.IH"(1)[OF j flag one] by blast
      next
        case zero
        with "1.prems" j flag have
          "parseArgs pf path cmd CMD r (j + 1)
             (i + 1 + skipCommaWhitespace (drop (i + 1) path)) (f[j := 0]) = Good (i', f')"
          by (subst (asm) parseArgs.simps) simp
        moreover have "i + 1 + skipCommaWhitespace (drop (i + 1) path) \<le> length path"
          using zero by (intro skip_le) simp
        ultimately show ?thesis using "1.IH"(2)[OF j flag zero] by blast
      next
        case bad
        with "1.prems"(1) j flag show ?thesis
          by (subst (asm) parseArgs.simps) (auto split: if_splits)
      qed
    next
      case noflag: False
      obtain num n where pf: "pf (drop i path) = (num, n)" by force
      show ?thesis
      proof (cases "n = 0 \<or> length path < i + n")
        case True
        with "1.prems"(1) j noflag pf show ?thesis
          by (subst (asm) parseArgs.simps) (auto split: if_splits)
      next
        case False
        with "1.prems"(1) j noflag pf have
          "parseArgs pf path cmd CMD r (j + 1)
             (i + n + skipCommaWhitespace (drop (i + n) path)) (f[j := num]) = Good (i', f')"
          by (subst (asm) parseArgs.simps) simp
        moreover have "i + n + skipCommaWhitespace (drop (i + n) path) \<le> length path"
          using False by (intro skip_le) simp
        moreover from False have "n \<noteq> 0" "\<not> length path < i + n" by simp_all
        ultimately show ?thesis
          using "1.IH"(3)[OF j noflag pf[symmetric]] by blast
      qed
    qed
  qed
qed

lemma andThen_Good: "(andThen r k = Good st') = (\<exists>v. r = Inr v \<and> st' = k v)"
  by (cases r) (auto simp: andThen_def)

lemma andThen_Bad [simp]: "andThen r k \<noteq> Bad e"
  by (cases r) (auto simp: andThen_def)

lemma execCmd_unknown:
  "cmd \<notin> set ''MmZzLlHhVvCcSsQqTtAa'' \<Longrightarrow>
   execCmd u cmd st = Bad (UnknownCommand cmd (idx st + 1))"
  by (simp add: execCmd_def)

lemma execCmd_letters:
  assumes "cmd \<in> set ''MmZzLlHhVvCcSsQqTtAa''"
  shows "execCmd u cmd st \<noteq> Bad e"
    and "execCmd u cmd st = Good st' \<Longrightarrow> idx st' = idx st"
proof -
  from assms have c:
    "cmd = CHR ''M'' \<or> cmd = CHR ''m'' \<or> cmd = CHR ''Z'' \<or> cmd = CHR ''z''
     \<or> cmd = CHR ''L'' \<or> cmd = CHR ''l'' \<or> cmd = CHR ''H'' \<or> cmd = CHR ''h''
     \<or> cmd = CHR ''V'' \<or> cmd = CHR ''v'' \<or> cmd = CHR ''C'' \<or> cmd = CHR ''c''
     \<or> cmd = CHR ''S'' \<or> cmd = CHR ''s'' \<or> cmd = CHR ''Q'' \<or> cmd = CHR ''q''
     \<or> cmd = CHR ''T'' \<or> cmd = CHR ''t'' \<or> cmd = CHR ''A'' \<or> cmd = CHR ''a''"
    by simp
  from c show "execCmd u cmd st \<noteq> Bad e"
    by (elim disjE; simp add: execCmd_def Let_def split: sum.split)
  from c show "execCmd u cmd st = Good st' \<Longrightarrow> idx st' = idx st"
    by (elim disjE; clarsimp simp: execCmd_def Let_def andThen_Good split: sum.split_asm)
qed

lemma execCmd_Bad:
  "execCmd u cmd st = Bad e \<Longrightarrow> e = UnknownCommand cmd (idx st + 1)"
  using execCmd_unknown[of cmd u st] execCmd_letters(1)[of cmd u st e] by fastforce

lemma execCmd_idx: "execCmd u cmd st = Good st' \<Longrightarrow> idx st' = idx st"
  using execCmd_unknown[of cmd u st] execCmd_letters(2)[of cmd u st st'] by fastforce

lemma parseCommand_cases:
  assumes "idx st < length path"
  shows "(parseCommand pf u path st = Bad e \<longrightarrow> positional path e)
       \<and> (parseCommand pf u path st = Good st' \<longrightarrow> idx st' \<le> length path)"
proof -
  define fresh where "fresh = freshCmd path st"
  define cmd where "cmd = cmdAt path st"
  define i' where "i' = argsAt path st"
  have pc: "parseCommand pf u path st =
      (case parseArgs pf path cmd (upperCmd cmd) (\<not> fresh) 0 i' (fs st) of
           Crash e \<Rightarrow> Crash e
         | Bad e \<Rightarrow> Bad e
         | Good (i'', f) \<Rightarrow> execCmd u cmd (st \<lparr> idx := i'', fs := f \<rparr>))"
    unfolding parseCommand_def Let_def fresh_def cmd_def i'_def ..
  have i': "i' \<le> length path"
    unfolding i'_def argsAt_def using assms skip_le[of "idx st + 1" path] by simp
  show ?thesis
  proof (cases "parseArgs pf path cmd (upperCmd cmd) (\<not> fresh) 0 i' (fs st)")
    case (Crash x)
    then show ?thesis by (simp add: pc)
  next
    case (Bad x)
    from parseArgs_Bad[OF Bad i' refl] show ?thesis by (auto simp: pc Bad)
  next
    case (Good r)
    obtain i'' f where r: "r = (i'', f)" by force
    from parseArgs_Good[OF Good[unfolded r] i'] have le: "i'' \<le> length path" .
    have pc': "parseCommand pf u path st = execCmd u cmd (st \<lparr> idx := i'', fs := f \<rparr>)"
      by (simp add: pc Good r)
    show ?thesis
    proof (intro conjI impI)
      assume "parseCommand pf u path st = Bad e"
      from execCmd_Bad[OF this[unfolded pc']] le show "positional path e" by simp
    next
      assume "parseCommand pf u path st = Good st'"
      from execCmd_idx[OF this[unfolded pc']] le show "idx st' \<le> length path" by simp
    qed
  qed
qed

lemma parseLoop_Bad:
  "parseLoop pf u path st = Bad e \<Longrightarrow> positional path e"
proof (induction pf u path st rule: parseLoop.induct)
  case (1 pf u path st)
  define i where "i = idx st + skipCommaWhitespace (drop (idx st) path)"
  from "1.prems" have a: "\<not> length path < idx st"
    by (subst (asm) parseLoop.simps) (auto split: if_splits)
  from "1.prems" a have b: "\<not> length path \<le> i"
    by (subst (asm) parseLoop.simps) (auto simp: i_def Let_def split: if_splits)
  from "1.prems" a b have c:
    "(case parseCommand pf u path (st \<lparr> idx := i \<rparr>) of
             Crash e \<Rightarrow> Crash e
           | Bad e \<Rightarrow> Bad e
           | Good st' \<Rightarrow> parseLoop pf u path st') = Bad e"
    by (subst (asm) parseLoop.simps) (simp add: i_def Let_def)
  from b have lt: "idx (st \<lparr> idx := i \<rparr>) < length path" by simp
  show ?case
  proof (cases "parseCommand pf u path (st \<lparr> idx := i \<rparr>)")
    case (Crash x)
    with c show ?thesis by simp
  next
    case (Bad x)
    with c have "x = e" by simp
    with parseCommand_cases[OF lt, of pf u e] Bad show ?thesis by simp
  next
    case (Good st')
    with c have "parseLoop pf u path st' = Bad e" by simp
    from "1.IH"[OF a i_def b Good this] show ?thesis .
  qed
qed

lemma parseLoop_first_error:
  assumes "\<not> length path < idx st"
    and "idx st + skipCommaWhitespace (drop (idx st) path) < length path"
    and "parseCommand pf u path (st \<lparr> idx := idx st + skipCommaWhitespace (drop (idx st) path) \<rparr>)
           = Bad e"
  shows "parseLoop pf u path st = Bad e"
  using assms by (subst parseLoop.simps) (simp add: Let_def)

lemma parseCommand_first_error:
  assumes "parseArgs pf path (cmdAt path st) (upperCmd (cmdAt path st)) (\<not> freshCmd path st) 0
             (argsAt path st) (fs st) = Bad e"
  shows "parseCommand pf u path st = Bad e"
  using assms unfolding parseCommand_def Let_def by simp

lemma parseArgs_flag:
  assumes "j = 3 \<or> j = 4"
    and "\<not> (i < length path \<and> (path ! i = CHR ''0'' \<or> path ! i = CHR ''1''))"
  shows "parseArgs pf path cmd (CHR ''A'') r j i f = Bad (BadFlags cmd (i + 1))"
  using assms by (subst parseArgs.simps) (auto simp: argCount_def)

lemma ParseSVGPath_Bad:
  assumes "ParseSVGPath pf u s = Bad e"
  shows "e = NoLeadingCommand \<or> positional s e"
proof (cases "e = NoLeadingCommand")
  case True
  then show ?thesis by simp
next
  case False
  with assms have "parseLoop pf u s (newParser (skipCommaWhitespace s)) = Bad e"
    by (auto simp: ParseSVGPath_def Let_def split: if_splits)
  from parseLoop_Bad[OF this] show ?thesis by simp
qed

lemma ParseSVGPath_leading:
  assumes "s \<noteq> []"
    and "s ! 0 = CHR '',''
         \<or> (skipCommaWhitespace s < length s \<and> (of_char (s ! skipCommaWhitespace s) :: nat) < 65)"
  shows "ParseSVGPath pf u s = Bad NoLeadingCommand"
  using assms by (auto simp: ParseSVGPath_def Let_def)

lemma readArgs_parseArgs:
  "readArgs k pf path CMD j i f = Some (i', f') \<Longrightarrow>
   parseArgs pf path cmd CMD r j i f = parseArgs pf path cmd CMD r (j + k) i' f'"
proof (induction k arbitrary: j i f)
  case 0
  then show ?case by simp
next
  case (Suc k)
  from Suc.prems have j: "j < argCount CMD" by (simp split: if_splits)
  show ?case
  proof (cases "CMD = CHR ''A'' \<and> (j = 3 \<or> j = 4)")
    case flag: True
    consider (one) "i < length path \<and> path ! i = CHR ''1''"
      | (zero) "\<not> (i < length path \<and> path ! i = CHR ''1'')"
               "i < length path \<and> path ! i = CHR ''0''"
      | (bad) "\<not> (i < length path \<and> path ! i = CHR ''1'')"
              "\<not> (i < length path \<and> path ! i = CHR ''0'')"
      by blast
    then show ?thesis
    proof cases
      case one
      with Suc.prems j flag have
        "readArgs k pf path CMD (j + 1)
           (i + 1 + skipCommaWhitespace (drop (i + 1) path)) (f[j := 1]) = Some (i', f')"
        by simp
      from Suc.IH[OF this] have
        "parseArgs pf path cmd CMD r (j + 1)
           (i + 1 + skipCommaWhitespace (drop (i + 1) path)) (f[j := 1])
         = parseArgs pf path cmd CMD r (j + Suc k) i' f'" by simp
      moreover have "parseArgs pf path cmd CMD r j i f
         = parseArgs pf path cmd CMD r (j + 1)
             (i + 1 + skipCommaWhitespace (drop (i + 1) path)) (f[j := 1])"
        using j flag one by (subst parseArgs.simps) simp
      ultimately show ?thesis by simp
    next
      case zero
      with Suc.prems j flag have
        "readArgs k pf path CMD (j + 1)
           (i + 1 + skipCommaWhitespace (drop (i + 1) path)) (f[j := 0]) = Some (i', f')"
        by simp
      from Suc.IH[OF this] have
        "parseArgs pf path cmd CMD r (j + 1)
           (i + 1 + skipCommaWhitespace (drop (i + 1) path)) (f[j := 0])
         = parseArgs pf path cmd CMD r (j + Suc k) i' f'" by simp
      moreover have "parseArgs pf path cmd CMD r j i f
         = parseArgs pf path cmd CMD r (j + 1)
             (i + 1 + skipCommaWhitespace (drop (i + 1) path)) (f[j := 0])"
        using j flag zero by (subst parseArgs.simps) simp
      ultimately show ?thesis by simp
    next
      case bad
      with Suc.prems j flag show ?thesis by (auto split: if_splits)
    qed
  next
    case noflag: False
    obtain num n where pf: "pf (drop i path) = (num, n)" by force
    from Suc.prems j noflag pf have n: "n \<noteq> 0" "\<not> length path < i + n"
      by (auto split: if_splits)
    with Suc.prems j noflag pf have
      "readArgs k pf path CMD (j + 1)
         (i + n + skipCommaWhitespace (drop (i + n) path)) (f[j := num]) = Some (i', f')"
      by (auto split: if_splits)
    from Suc.IH[OF this] have
      "parseArgs pf path cmd CMD r (j + 1)
         (i + n + skipCommaWhitespace (drop (i + n) path)) (f[j := num])
       = parseArgs pf path cmd CMD r (j + Suc k) i' f'" by simp
    moreover have "parseArgs pf path cmd CMD r j i f
       = parseArgs pf path cmd CMD r (j + 1)
           (i + n + skipCommaWhitespace (drop (i + n) path)) (f[j := num])"
      using j noflag pf n by (subst parseArgs.simps) auto
    ultimately show ?thesis by simp
  qed
qed

lemma commands_parseLoop:
  "commands k pf u path st = Some st' \<Longrightarrow> parseLoop pf u path st = parseLoop pf u path st'"
proof (induction k arbitrary: st)
  case 0
  then show ?case by simp
next
  case (Suc k)
  from Suc.prems have a: "\<not> length path < idx st" "\<not> length path \<le> idx (atCommand path st)"
    by (auto split: if_splits)
  from Suc.prems a obtain st1 where
    pc: "parseCommand pf u path (atCommand path st) = Good st1"
    and c: "commands k pf u path st1 = Some st'"
    by (auto split: outcome.splits)
  have "parseLoop pf u path st = parseLoop pf u path st1"
    using a pc by (subst parseLoop.simps) (simp add: atCommand_def Let_def)
  with Suc.IH[OF c] show ?case by simp
qed

lemma parseLoop_error_at:
  assumes "commands k pf u path st = Some st'"
    and "idx (atCommand path st') < length path"
    and "parseCommand pf u path (atCommand path st') = Bad e"
  shows "parseLoop pf u path st = Bad e"
proof -
  have le: "idx st' \<le> idx (atCommand path st')" by (simp add: atCommand_def)
  have "parseLoop pf u path st' = Bad e"
    using assms(2,3) le by (subst parseLoop.simps) (simp add: atCommand_def Let_def)
  with commands_parseLoop[OF assms(1)] show ?thesis by simp
qed

lemma ParseSVGPath_loop:
  "startsWithCommand s \<Longrightarrow>
   ParseSVGPath pf u s = parseLoop pf u s (newParser (skipCommaWhitespace s))"
  by (simp add: ParseSVGPath_def startsWithCommand_def Let_def)

lemma fs_atCommand [simp]: "fs (atCommand path st) = fs st"
  by (simp add: atCommand_def)

lemma parseCommand_args_error:
  assumes "readArgs j pf s (upperCmd (cmdAt s st)) 0 (argsAt s st) (fs st) = Some (i, f)"
    and "parseArgs pf s (cmdAt s st) (upperCmd (cmdAt s st)) (\<not> freshCmd s st) j i f = Bad e"
  shows "parseCommand pf u s st = Bad e"
proof -
  from readArgs_parseArgs[OF assms(1), of "cmdAt s st" "\<not> freshCmd s st"] assms(2)
  have "parseArgs pf s (cmdAt s st) (upperCmd (cmdAt s st)) (\<not> freshCmd s st) 0
          (argsAt s st) (fs st) = Bad e" by simp
  then show ?thesis by (rule parseCommand_first_error)
qed

lemma bad_flag_error:
  assumes lead: "startsWithCommand s"
    and run: "commands k pf u s (newParser (skipCommaWhitespace s)) = Some st"
    and at: "idx (atCommand s st) < length s"
    and arc: "upperCmd (cmdAt s (atCommand s st)) = CHR ''A''"
    and j: "j = 3 \<or> j = 4"
    and ra: "readArgs j pf s (CHR ''A'') 0 (argsAt s (atCommand s st)) (fs st) = Some (i, f)"
    and bad: "\<not> (i < length s \<and> (s ! i = CHR ''0'' \<or> s ! i = CHR ''1''))"
  shows "ParseSVGPath pf u s = Bad (BadFlags (cmdAt s (atCommand s st)) (i + 1))"
proof -
  let ?st = "atCommand s st"
  have "parseArgs pf s (cmdAt s ?st) (CHR ''A'') (\<not> freshCmd s ?st) j i f
          = Bad (BadFlags (cmdAt s ?st) (i + 1))"
    using j bad by (rule parseArgs_flag)
  with ra arc have "parseCommand pf u s ?st = Bad (BadFlags (cmdAt s ?st) (i + 1))"
    using parseCommand_args_error[of j pf s ?st i f "BadFlags (cmdAt s ?st) (i + 1)" u]
    by simp
  from parseLoop_error_at[OF run at this] show ?thesis
    by (simp add: ParseSVGPath_loop[OF lead])
qed

lemma parseArgs_no_number:
  assumes "j < argCount CMD" "\<not> (CMD = CHR ''A'' \<and> (j = 3 \<or> j = 4))"
    and "snd (pf (drop i path)) = 0"
  shows "parseArgs pf path cmd CMD r j i f =
           Bad (if r \<and> j = 0 \<and> i < length path then UnknownCommand (path ! i) (i + 1)
                else if 1 < argCount CMD then SetsOfNumbers (argCount CMD) cmd (i + 1)
                else NumberExpected cmd (i + 1))"
proof -
  obtain num n where pf: "pf (drop i path) = (num, n)" by force
  with assms(3) have "n = 0" by simp
  with assms(1,2) pf show ?thesis by (subst parseArgs.simps) auto
qed

lemma missing_number_error:
  assumes lead: "startsWithCommand s"
    and run: "commands k pf u s (newParser (skipCommaWhitespace s)) = Some st"
    and at: "idx (atCommand s st) < length s"
    and ra: "readArgs j pf s (upperCmd (cmdAt s (atCommand s st))) 0
               (argsAt s (atCommand s st)) (fs st) = Some (i, f)"
    and more: "j < argCount (upperCmd (cmdAt s (atCommand s st)))"
    and nf: "\<not> (upperCmd (cmdAt s (atCommand s st)) = CHR ''A'' \<and> (j = 3 \<or> j = 4))"
    and none: "snd (pf (drop i s)) = 0"
  shows "ParseSVGPath pf u s =
           Bad (if \<not> freshCmd s (atCommand s st) \<and> j = 0 \<and> i < length s
                then UnknownCommand (s ! i) (i + 1)
                else if 1 < argCount (upperCmd (cmdAt s (atCommand s st)))
                then SetsOfNumbers (argCount (upperCmd (cmdAt s (atCommand s st))))
                       (cmdAt s (atCommand s st)) (i + 1)
                else NumberExpected (cmdAt s (atCommand s st)) (i + 1))"
proof -
  let ?st = "atCommand s st"
  have pa: "parseArgs pf s (cmdAt s ?st) (upperCmd (cmdAt s ?st)) (\<not> freshCmd s ?st) j i f =
           Bad (if \<not> freshCmd s ?st \<and> j = 0 \<and> i < length s
                then UnknownCommand (s ! i) (i + 1)
                else if 1 < argCount (upperCmd (cmdAt s ?st))
                then SetsOfNumbers (argCount (upperCmd (cmdAt s ?st))) (cmdAt s ?st) (i + 1)
                else NumberExpected (cmdAt s ?st) (i + 1))"
    using more nf none by (rule parseArgs_no_number)
  from ra have ra': "readArgs j pf s (upperCmd (cmdAt s ?st)) 0 (argsAt s ?st) (fs ?st)
                       = Some (i, f)" by simp
  from parseCommand_args_error[OF ra' pa]
  have "parseCommand pf u s ?st =
           Bad (if \<not> freshCmd s ?st \<and> j = 0 \<and> i < length s
                then UnknownCommand (s ! i) (i + 1)
                else if 1 < argCount (upperCmd (cmdAt s ?st))
                then SetsOfNumbers (argCount (upperCmd (cmdAt s ?st))) (cmdAt s ?st) (i + 1)
                else NumberExpected (cmdAt s ?st) (i + 1))" .
  from parseLoop_error_at[OF run at this] show ?thesis
    by (simp add: ParseSVGPath_loop[OF lead])
qed

lemma unknown_command_error:
  assumes lead: "startsWithCommand s"
    and run: "commands k pf u s (newParser (skipCommaWhitespace s)) = Some st"
    and at: "idx (atCommand s st) < length s"
    and un: "cmdAt s (atCommand s st) \<notin> set ''MmZzLlHhVvCcSsQqTtAa''"
    and no: "argCount (upperCmd (cmdAt s (atCommand s st))) = 0"
  shows "ParseSVGPath pf u s
           = Bad (UnknownCommand (cmdAt s (atCommand s st)) (argsAt s (atCommand s st) + 1))"
proof -
  let ?st = "atCommand s st"
  have "parseArgs pf s (cmdAt s ?st) (upperCmd (cmdAt s ?st)) (\<not> freshCmd s ?st) 0
          (argsAt s ?st) (fs ?st) = Good (argsAt s ?st, fs ?st)"
    using no by (subst parseArgs.simps) simp
  then have "parseCommand pf u s ?st
               = execCmd u (cmdAt s ?st) (?st \<lparr> idx := argsAt s ?st, fs := fs ?st \<rparr>)"
    by (simp add: parseCommand_def Let_def)
  also have "\<dots> = Bad (UnknownCommand (cmdAt s ?st) (argsAt s ?st + 1))"
    using execCmd_unknown[OF un, of u "?st \<lparr> idx := argsAt s ?st, fs := fs ?st \<rparr>"] by simp
  finally have "parseCommand pf u s ?st
                  = Bad (UnknownCommand (cmdAt s ?st) (argsAt s ?st + 1))" .
  from parseLoop_error_at[OF run at this] show ?thesis
    by (simp add: ParseSVGPath_loop[OF lead])
qed

lemma any_error_returned:
  assumes lead: "startsWithCommand s"
    and run: "commands k pf u s (newParser (skipCommaWhitespace s)) = Some st"
    and at: "idx (atCommand s st) < length s"
    and err: "parseCommand pf u s (atCommand s st) = Bad e"
  shows "ParseSVGPath pf u s = Bad e"
  using parseLoop_error_at[OF run at err] by (simp add: ParseSVGPath_loop[OF lead])

text \<open>
  Claim C8, amended. Wherever in the string it stands, an arc command whose largeArc or
  sweep argument is not the byte \<open>0\<close> or \<open>1\<close> makes \<open>ParseSVGPath\<close> return the flag error
  with the position of that byte: after any number \<open>k\<close> of commands that were parsed and
  executed, at a command \<open>A\<close> or \<open>a\<close> whose first three (or four) arguments were read and
  ended at index \<open>i\<close>, a byte at \<open>i\<close> other than \<open>0\<close> and \<open>1\<close> (or the end of the string)
  gives the error at position \<open>i + 1\<close>. A missing number gives the error of the argument
  count (or, for a repeated command's first number, of the unknown command) at the position
  where the number should start, and a byte that is no command gives the unknown-command
  error behind it. In general an error that any iteration of the loop raises is what
  \<open>ParseSVGPath\<close> returns: no error is recovered from. Every error returned other than "path
  should start with command" carries a position between 1 and one past the end of the
  string, and the flag error's position holds a byte that is not \<open>0\<close> or \<open>1\<close>. A string
  that starts with a comma, or whose first byte behind the separators is below \<open>A\<close>, gets
  the error "path should start with command", which has no position.
\<close>

theorem ParseSVGPath_errors:
  "(startsWithCommand s
      \<and> commands k pf u s (newParser (skipCommaWhitespace s)) = Some st
      \<and> idx (atCommand s st) < length s
      \<and> upperCmd (cmdAt s (atCommand s st)) = CHR ''A''
      \<and> (j = 3 \<or> j = 4)
      \<and> readArgs j pf s (CHR ''A'') 0 (argsAt s (atCommand s st)) (fs st) = Some (i, f)
      \<and> \<not> (i < length s \<and> (s ! i = CHR ''0'' \<or> s ! i = CHR ''1''))
    \<longrightarrow> ParseSVGPath pf u s = Bad (BadFlags (cmdAt s (atCommand s st)) (i + 1)))
   \<and> (startsWithCommand s2
      \<and> commands k2 pf u s2 (newParser (skipCommaWhitespace s2)) = Some st2
      \<and> idx (atCommand s2 st2) < length s2
      \<and> readArgs j2 pf s2 (upperCmd (cmdAt s2 (atCommand s2 st2))) 0
           (argsAt s2 (atCommand s2 st2)) (fs st2) = Some (i2, f2)
      \<and> j2 < argCount (upperCmd (cmdAt s2 (atCommand s2 st2)))
      \<and> \<not> (upperCmd (cmdAt s2 (atCommand s2 st2)) = CHR ''A'' \<and> (j2 = 3 \<or> j2 = 4))
      \<and> snd (pf (drop i2 s2)) = 0
    \<longrightarrow> ParseSVGPath pf u s2 =
          Bad (if \<not> freshCmd s2 (atCommand s2 st2) \<and> j2 = 0 \<and> i2 < length s2
               then UnknownCommand (s2 ! i2) (i2 + 1)
               else if 1 < argCount (upperCmd (cmdAt s2 (atCommand s2 st2)))
               then SetsOfNumbers (argCount (upperCmd (cmdAt s2 (atCommand s2 st2))))
                      (cmdAt s2 (atCommand s2 st2)) (i2 + 1)
               else NumberExpected (cmdAt s2 (atCommand s2 st2)) (i2 + 1)))
   \<and> (startsWithCommand s3
      \<and> commands k3 pf u s3 (newParser (skipCommaWhitespace s3)) = Some st3
      \<and> idx (atCommand s3 st3) < length s3
      \<and> cmdAt s3 (atCommand s3 st3) \<notin> set ''MmZzLlHhVvCcSsQqTtAa''
      \<and> argCount (upperCmd (cmdAt s3 (atCommand s3 st3))) = 0
    \<longrightarrow> ParseSVGPath pf u s3
          = Bad (UnknownCommand (cmdAt s3 (atCommand s3 st3))
                   (argsAt s3 (atCommand s3 st3) + 1)))
   \<and> (startsWithCommand s
      \<and> commands k pf u s (newParser (skipCommaWhitespace s)) = Some st
      \<and> idx (atCommand s st) < length s
      \<and> parseCommand pf u s (atCommand s st) = Bad e
    \<longrightarrow> ParseSVGPath pf u s = Bad e)
   \<and> (ParseSVGPath pf u s = Bad e \<longrightarrow> e = NoLeadingCommand \<or> positional s e)
   \<and> (t \<noteq> []
       \<and> (t ! 0 = CHR '',''
          \<or> (skipCommaWhitespace t < length t
              \<and> (of_char (t ! skipCommaWhitespace t) :: nat) < 65))
      \<longrightarrow> ParseSVGPath pf u t = Bad NoLeadingCommand \<and> position NoLeadingCommand = None)"
  using bad_flag_error[of s k pf u st j i f]
    missing_number_error[of s2 k2 pf u st2 j2 i2 f2]
    unknown_command_error[of s3 k3 pf u st3]
    any_error_returned[of s k pf u st e]
    ParseSVGPath_Bad[of pf u s e]
    ParseSVGPath_leading[of t pf u]
  by (intro conjI impI) simp_all

text \<open>
  The statement at the string \<open>M1 2A1 1 0 2 0 1 1\<close>, whose second command has the byte \<open>2\<close>
  as its first flag, at position 12; at \<open>MM\<close>, where a number is missing at position 2; at
  \<open>M1 2X\<close>, whose second command is unknown; and at \<open>,M\<close>.
\<close>

theorem ParseSVGPath_errors_witness:
  "commands (Suc 0) digitFloat (tolerance (1 / 10 ^ 10)) ''M1 2A1 1 0 2 0 1 1'' (newParser 0)
     = Some \<lparr> idx = 4, pth = [1, 1, 2, 1], qpt = Point 0 0, cpt = Point 0 0, p0 = Point 1 2,
              p1 = Point 1 2, prevCmd = CHR ''L'', fs = [1, 2, 0, 0, 0, 0, 0] \<rparr>
   \<and> readArgs 3 digitFloat ''M1 2A1 1 0 2 0 1 1'' (CHR ''A'') 0 5 [1, 2, 0, 0, 0, 0, 0]
       = Some (11, [1, 1, 0, 0, 0, 0, 0])
   \<and> ParseSVGPath digitFloat (tolerance (1 / 10 ^ 10)) ''M1 2A1 1 0 2 0 1 1''
       = Bad (BadFlags (CHR ''A'') 12)
   \<and> positional ''M1 2A1 1 0 2 0 1 1'' (BadFlags (CHR ''A'') 12)
   \<and> ParseSVGPath digitFloat (tolerance (1 / 10 ^ 10)) ''MM''
       = Bad (SetsOfNumbers 2 (CHR ''M'') 2)
   \<and> ParseSVGPath digitFloat (tolerance (1 / 10 ^ 10)) ''M1 2X''
       = Bad (UnknownCommand (CHR ''X'') 6)
   \<and> ParseSVGPath digitFloat (tolerance (1 / 10 ^ 10)) '',M'' = Bad NoLeadingCommand"
proof -
  let ?u = "tolerance (1 / 10 ^ 10)"
  let ?s = "''M1 2A1 1 0 2 0 1 1''"
  let ?s2 = "''MM''"
  let ?s3 = "''M1 2X''"
  let ?st = "\<lparr> idx = 4, pth = [1, 1, 2, 1], qpt = Point 0 0, cpt = Point 0 0, p0 = Point 1 2,
              p1 = Point 1 2, prevCmd = CHR ''L'', fs = [1, 2, 0, 0, 0, 0, 0] \<rparr>"
  note ev = atCommand_def parseCommand_def cmdAt_def freshCmd_def argsAt_def startsNumber_def
    upperCmd_def parseArgs.simps argCount_def digitFloat_def skipCommaWhitespace_def
    isSeparator_def execCmd_def andThen_def MoveTo_def newParser_def Let_def
    startsWithCommand_def
  have rep: "replicate 7 (0 :: float64) = [0, 0, 0, 0, 0, 0, 0]"
    by (simp add: numeral_eq_Suc)
  have sk: "skipCommaWhitespace ?s = 0" "skipCommaWhitespace ?s2 = 0"
    "skipCommaWhitespace ?s3 = 0"
    by (simp_all add: skipCommaWhitespace_def isSeparator_def)
  have lead: "startsWithCommand ?s" "startsWithCommand ?s2" "startsWithCommand ?s3"
    by (simp_all add: ev)
  have run: "commands (Suc 0) digitFloat ?u ?s (newParser 0) = Some ?st"
    by (simp add: ev rep)
  have run3: "commands (Suc 0) digitFloat ?u ?s3 (newParser 0) = Some ?st"
    by (simp add: ev rep)
  have run2: "commands 0 digitFloat ?u ?s2 (newParser 0) = Some (newParser 0)"
    by simp
  have at: "atCommand ?s ?st = ?st" "atCommand ?s3 ?st = ?st"
    "atCommand ?s2 (newParser 0) = newParser 0"
    by (simp_all add: atCommand_def skipCommaWhitespace_def isSeparator_def newParser_def)
  have cm: "cmdAt ?s ?st = CHR ''A''" "cmdAt ?s3 ?st = CHR ''X''"
    "cmdAt ?s2 (newParser 0) = CHR ''M''"
    by (simp_all add: cmdAt_def freshCmd_def startsNumber_def newParser_def)
  have fr: "freshCmd ?s2 (newParser 0)"
    by (simp add: freshCmd_def newParser_def)
  have up: "upperCmd (CHR ''A'') = CHR ''A''" "upperCmd (CHR ''X'') = CHR ''X''"
    "upperCmd (CHR ''M'') = CHR ''M''"
    by (simp_all add: upperCmd_def)
  have ar: "argsAt ?s ?st = 5" "argsAt ?s3 ?st = 5" "argsAt ?s2 (newParser 0) = 1"
    by (simp_all add: argsAt_def freshCmd_def startsNumber_def newParser_def
        skipCommaWhitespace_def isSeparator_def)
  have ra: "readArgs 3 digitFloat ?s (CHR ''A'') 0 5 [1, 2, 0, 0, 0, 0, 0]
              = Some (11, [1, 1, 0, 0, 0, 0, 0])"
    by (simp add: numeral_3_eq_3 argCount_def digitFloat_def skipCommaWhitespace_def
        isSeparator_def)
  have ra2: "readArgs 0 digitFloat ?s2 (CHR ''M'') 0 1 (replicate 7 0) = Some (1, replicate 7 0)"
    by simp
  have f0: "fs (newParser 0) = replicate 7 0" by (simp add: newParser_def)
  note inst = ParseSVGPath_errors[of ?s "Suc 0" digitFloat ?u ?st 3 11 "[1, 1, 0, 0, 0, 0, 0]"
      ?s2 0 "newParser 0" 0 1 "replicate 7 0" ?s3 "Suc 0" ?st "BadFlags (CHR ''A'') 12" "'',M''"]
  have fst: "fs ?st = [1, 2, 0, 0, 0, 0, 0]" by simp
  note i1 = inst[THEN conjunct1, unfolded sk at cm up ar fst]
  note i2 = inst[THEN conjunct2, THEN conjunct1, unfolded sk at cm up ar f0]
  note i3 = inst[THEN conjunct2, THEN conjunct2, THEN conjunct1, unfolded sk at cm up ar]
  note i5 = inst[THEN conjunct2, THEN conjunct2, THEN conjunct2, THEN conjunct2, THEN conjunct1]
  note i6 = inst[THEN conjunct2, THEN conjunct2, THEN conjunct2, THEN conjunct2, THEN conjunct2]
  have b1: "idx ?st < length ?s" "idx ?st < length ?s3" "idx (newParser 0) < length ?s2"
    by (simp_all add: newParser_def)
  have b2: "\<not> (11 < length ?s \<and> (?s ! 11 = CHR ''0'' \<or> ?s ! 11 = CHR ''1''))"
    by simp
  have b3: "(0 :: nat) < argCount (CHR ''M'')"
    "\<not> (CHR ''M'' = CHR ''A'' \<and> ((0 :: nat) = 3 \<or> (0 :: nat) = 4))"
    "snd (digitFloat (drop 1 ?s2)) = 0"
    by (simp_all add: argCount_def digitFloat_def)
  have b4: "CHR ''X'' \<notin> set ''MmZzLlHhVvCcSsQqTtAa''" "argCount (CHR ''X'') = 0"
    by (simp_all add: argCount_def)
  have j3: "(3 :: nat) = 3 \<or> (3 :: nat) = 4" by simp
  from i1 lead(1) run b1(1) ra b2 j3
  have "ParseSVGPath digitFloat ?u ?s = Bad (BadFlags (CHR ''A'') (11 + 1))" by blast
  then have 1: "ParseSVGPath digitFloat ?u ?s = Bad (BadFlags (CHR ''A'') 12)" by simp
  from i5 1 have 2: "positional ?s (BadFlags (CHR ''A'') 12)" by blast
  from i2 lead(2) run2 b1(3) ra2 b3
  have "ParseSVGPath digitFloat ?u ?s2 =
          Bad (if \<not> freshCmd ?s2 (newParser 0) \<and> (0 :: nat) = 0 \<and> 1 < length ?s2
               then UnknownCommand (?s2 ! 1) (1 + 1)
               else if 1 < argCount (CHR ''M'')
               then SetsOfNumbers (argCount (CHR ''M'')) (CHR ''M'') (1 + 1)
               else NumberExpected (CHR ''M'') (1 + 1))" by blast
  then have 3: "ParseSVGPath digitFloat ?u ?s2 = Bad (SetsOfNumbers 2 (CHR ''M'') 2)"
    using fr by (simp add: argCount_def)
  from i3 lead(3) run3 b1(2) b4
  have "ParseSVGPath digitFloat ?u ?s3 = Bad (UnknownCommand (CHR ''X'') (5 + 1))" by blast
  then have 4: "ParseSVGPath digitFloat ?u ?s3 = Bad (UnknownCommand (CHR ''X'') 6)" by simp
  have 5: "ParseSVGPath digitFloat ?u '',M'' = Bad NoLeadingCommand"
    using i6 by simp
  from run ra 1 2 3 4 5 show ?thesis by blast
qed

text \<open>
  Claim C8 as stated gives a malformed leading token a positional error. The string \<open>5\<close>
  starts with a byte below \<open>A\<close>; its error is "bad path: path should start with command",
  which names no position.
\<close>

theorem leading_token_error_has_no_position:
  "ParseSVGPath digitFloat (tolerance (1 / 10 ^ 10)) ''5'' = Bad NoLeadingCommand
   \<and> position NoLeadingCommand = None"
  by (simp add: ParseSVGPath_def skipCommaWhitespace_def isSeparator_def)

text \<open>
  \<open>Reverse\<close> on a path given as its list of subpaths: the subpaths come out in the opposite
  order, each of them reversed (\<open>revSub\<close>).
\<close>

lemma slot_basic [simp]:
  "slot (moveSlot p)" "slot (lineSlot p)" "slot (closeSlot p)"
  "hd (moveSlot p) = MoveToCmd" "hd (lineSlot p) = LineToCmd" "hd (closeSlot p) = CloseCmd"
  "slotEnd (moveSlot p) = p" "slotEnd (lineSlot p) = p" "slotEnd (closeSlot p) = p"
  by (simp_all add: moveSlot_def lineSlot_def closeSlot_def slotEnd_def)

lemma drawingSlot_slot: "drawingSlot s \<Longrightarrow> slot s"
  by (simp add: drawingSlot_def)

lemma drawingSlot_hd:
  "drawingSlot s \<Longrightarrow> hd s = LineToCmd \<or> hd s = QuadToCmd \<or> hd s = CubeToCmd \<or> hd s = ArcToCmd"
  by (auto simp: drawingSlot_def)

lemma revSeg_drawing: "drawingSlot s \<Longrightarrow> drawingSlot (revSeg e s)"
  by (auto simp: drawingSlot_def revSeg_def fromArcFlags_def)

lemma revSeg_hd: "drawingSlot s \<Longrightarrow> hd (revSeg e s) = hd s"
  by (auto simp: drawingSlot_def revSeg_def)

lemma revSeg_end: "slotEnd (revSeg e s) = e"
  by (simp add: revSeg_def slotEnd_def)

lemma segEnd_snoc [simp]: "segEnd m (segs @ [s]) = slotEnd s"
  by (simp add: segEnd_def)

lemma segEnd_Nil [simp]: "segEnd m [] = m"
  by (simp add: segEnd_def)

lemma segEnd_Cons: "segEnd m (s # segs) = segEnd (slotEnd s) segs"
  by (simp add: segEnd_def)

lemma revSegs_snoc: "revSegs m (segs @ [s]) = revSeg (segEnd m segs) s # revSegs m segs"
  by (induction segs arbitrary: m) (simp_all add: segEnd_Cons)

lemma revSegs_drawing: "list_all drawingSlot segs \<Longrightarrow> list_all drawingSlot (revSegs m segs)"
  by (induction segs arbitrary: m) (simp_all add: revSeg_drawing)

lemma seg_step:
  assumes "drawingSlot s" "rs \<noteq> []" "\<not> (hd s = LineToCmd \<and> clo \<and> hd (hd rs) = MoveToCmd)"
  shows "reverseSlots eps (s # rs) (q, clo, first, start)
           = reverseSlots eps rs (q @ [revSeg (slotEnd (hd rs)) s], clo, first, slotEnd (hd rs))"
  using assms drawingSlot_hd[OF assms(1)]
  by (auto simp: Let_def revSeg_def)

lemma move_step:
  "reverseSlots eps (moveSlot m # rest) (q, clo, first, start)
     = reverseSlots eps rest
         ((if clo then q @ [closeSlot first] else q)
            @ (if rest \<noteq> [] then [moveSlot (slotEnd (hd rest))] else []),
          False, if rest \<noteq> [] then slotEnd (hd rest) else first,
          if rest = [] then Point 0 0 else slotEnd (hd rest))"
  by (cases "rest = []") (auto simp: Let_def moveSlot_def closeSlot_def)

lemma open_segs:
  assumes "list_all drawingSlot segs"
  shows "reverseSlots eps (rev segs @ moveSlot m # rest) (q, False, first, start)
           = reverseSlots eps rest
               (q @ revSegs m segs @ (if rest \<noteq> [] then [moveSlot (slotEnd (hd rest))] else []),
                False, if rest \<noteq> [] then slotEnd (hd rest) else first,
                if rest = [] then Point 0 0 else slotEnd (hd rest))"
  using assms
proof (induction segs arbitrary: q start rule: rev_induct)
  case Nil
  show ?case by (simp add: move_step del: reverseSlots.simps)
next
  case (snoc s segs)
  then have ds: "drawingSlot s" and dsegs: "list_all drawingSlot segs" by simp_all
  have e: "slotEnd (hd (rev segs @ moveSlot m # rest)) = segEnd m segs"
    by (cases segs rule: rev_cases) (simp_all add: segEnd_def)
  have "reverseSlots eps (rev (segs @ [s]) @ moveSlot m # rest) (q, False, first, start)
      = reverseSlots eps (rev segs @ moveSlot m # rest)
          (q @ [revSeg (segEnd m segs) s], False, first, segEnd m segs)"
    using seg_step[OF ds, of "rev segs @ moveSlot m # rest" False eps q first start] e
    by (simp del: reverseSlots.simps)
  also note snoc.IH[OF dsegs]
  finally show ?case by (simp add: revSegs_snoc del: reverseSlots.simps)
qed

lemma closed_segs:
  assumes "list_all drawingSlot segs"
  shows "reverseSlots eps (rev segs @ moveSlot m # rest) (q, True, first, start)
           = reverseSlots eps rest
               (q @ (if segs \<noteq> [] \<and> hd (hd segs) = LineToCmd
                     then revSegs (slotEnd (hd segs)) (tl segs) else revSegs m segs)
                  @ [closeSlot first]
                  @ (if rest \<noteq> [] then [moveSlot (slotEnd (hd rest))] else []),
                False, if rest \<noteq> [] then slotEnd (hd rest) else first,
                if rest = [] then Point 0 0 else slotEnd (hd rest))"
  using assms
proof (induction segs arbitrary: q start rule: rev_induct)
  case Nil
  show ?case by (simp add: move_step del: reverseSlots.simps)
next
  case (snoc s segs)
  then have ds: "drawingSlot s" and dsegs: "list_all drawingSlot segs" by simp_all
  show ?case
  proof (cases "segs = []")
    case True
    show ?thesis
    proof (cases "hd s = LineToCmd")
      case line: True
      have "reverseSlots eps (s # moveSlot m # rest) (q, True, first, start)
          = reverseSlots eps (moveSlot m # rest) (q @ [closeSlot first], False, first, m)"
        using line by (simp add: Let_def closeSlot_def)
      then show ?thesis using True line
        by (simp add: move_step del: reverseSlots.simps)
    next
      case False
      from seg_step[OF ds, of "moveSlot m # rest" True eps q first start] False
      have "reverseSlots eps (s # moveSlot m # rest) (q, True, first, start)
          = reverseSlots eps (moveSlot m # rest) (q @ [revSeg m s], True, first, m)"
        by (simp del: reverseSlots.simps)
      then show ?thesis using True False
        by (simp add: move_step del: reverseSlots.simps)
    qed
  next
    case False
    then obtain segs0 t where segs: "segs = segs0 @ [t]" by (cases segs rule: rev_cases) auto
    with dsegs have dt: "drawingSlot t" by simp
    from drawingSlot_hd[OF dt] have nm: "hd t \<noteq> MoveToCmd" by auto
    have e: "slotEnd (hd (rev segs @ moveSlot m # rest)) = segEnd m segs"
      using segs by simp
    have h: "hd (hd (rev segs @ moveSlot m # rest)) \<noteq> MoveToCmd"
      using segs nm by simp
    have "reverseSlots eps (rev (segs @ [s]) @ moveSlot m # rest) (q, True, first, start)
        = reverseSlots eps (rev segs @ moveSlot m # rest)
            (q @ [revSeg (segEnd m segs) s], True, first, segEnd m segs)"
      using seg_step[OF ds, of "rev segs @ moveSlot m # rest" True eps q first start] e h
      by (simp del: reverseSlots.simps)
    also note snoc.IH[OF dsegs]
    finally have main: "reverseSlots eps (rev (segs @ [s]) @ moveSlot m # rest)
                 (q, True, first, start)
        = reverseSlots eps rest
            ((q @ [revSeg (segEnd m segs) s])
               @ (if segs \<noteq> [] \<and> hd (hd segs) = LineToCmd
                  then revSegs (slotEnd (hd segs)) (tl segs) else revSegs m segs)
               @ [closeSlot first]
               @ (if rest \<noteq> [] then [moveSlot (slotEnd (hd rest))] else []),
             False, if rest \<noteq> [] then slotEnd (hd rest) else first,
             if rest = [] then Point 0 0 else slotEnd (hd rest))" .
    have hdeq: "hd (segs @ [s]) = hd segs" using False by simp
    have tleq: "tl (segs @ [s]) = tl segs @ [s]" using False by simp
    have se: "segEnd (slotEnd (hd segs)) (tl segs) = segEnd m segs"
      using False by (cases segs) (simp_all add: segEnd_Cons)
    have body: "(if segs @ [s] \<noteq> [] \<and> hd (hd (segs @ [s])) = LineToCmd
                  then revSegs (slotEnd (hd (segs @ [s]))) (tl (segs @ [s]))
                  else revSegs m (segs @ [s]))
        = revSeg (segEnd m segs) s
            # (if segs \<noteq> [] \<and> hd (hd segs) = LineToCmd
               then revSegs (slotEnd (hd segs)) (tl segs) else revSegs m segs)"
      unfolding hdeq tleq using False by (simp add: revSegs_snoc se)
    show ?thesis unfolding main body by simp
  qed
qed

lemma close_step:
  "reverseSlots eps (closeSlot c # rs) (q, clo, first, start)
     = reverseSlots eps rs
         (if \<not> Point_Equals eps start (if rs = [] then Point 0 0 else slotEnd (hd rs))
          then q @ [lineSlot (if rs = [] then Point 0 0 else slotEnd (hd rs))] else q,
          True, first, if rs = [] then Point 0 0 else slotEnd (hd rs))"
  by (cases "rs = []") (auto simp: Let_def closeSlot_def lineSlot_def)

lemma slotsOf_last: "slotEnd (last (slotsOf sp)) = subEnd sp"
  by (cases "closing sp"; cases "segments sp" rule: rev_cases)
     (simp_all add: slotsOf_def subEnd_def)

lemma slotsOf_ne [simp]: "slotsOf sp \<noteq> []"
  by (simp add: slotsOf_def)

lemma spStart_revSub: "spStart (revSub eps sp) = subEnd sp"
  by (cases "closing sp") (simp_all add: revSub_def subEnd_def Let_def)

lemma sub_step:
  assumes "list_all drawingSlot (segments sp)"
  shows "reverseSlots eps (rev (slotsOf sp) @ rest)
           (q @ [moveSlot (subEnd sp)], False, subEnd sp, subEnd sp)
         = reverseSlots eps rest
             (q @ slotsOf (revSub eps sp)
                @ (if rest \<noteq> [] then [moveSlot (slotEnd (hd rest))] else []),
              False, if rest \<noteq> [] then slotEnd (hd rest) else subEnd sp,
              if rest = [] then Point 0 0 else slotEnd (hd rest))"
proof (cases "closing sp")
  case None
  then have r: "rev (slotsOf sp) @ rest = rev (segments sp) @ moveSlot (spStart sp) # rest"
    by (simp add: slotsOf_def)
  have s: "slotsOf (revSub eps sp)
             = moveSlot (subEnd sp) # revSegs (spStart sp) (segments sp)"
    using None by (simp add: revSub_def slotsOf_def subEnd_def Let_def)
  show ?thesis unfolding r s open_segs[OF assms] by simp
next
  case (Some c)
  then have r: "rev (slotsOf sp) @ rest
                  = closeSlot c # (rev (segments sp) @ moveSlot (spStart sp) # rest)"
    by (simp add: slotsOf_def)
  have e: "slotEnd (hd (rev (segments sp) @ moveSlot (spStart sp) # rest))
             = segEnd (spStart sp) (segments sp)"
    by (cases "segments sp" rule: rev_cases) (simp_all add: segEnd_def)
  have c: "subEnd sp = c" using Some by (simp add: subEnd_def)
  have s: "slotsOf (revSub eps sp)
             = moveSlot c
                # ((if Point_Equals eps c (segEnd (spStart sp) (segments sp)) then []
                    else [lineSlot (segEnd (spStart sp) (segments sp))])
                   @ (if segments sp \<noteq> [] \<and> hd (hd (segments sp)) = LineToCmd
                      then revSegs (slotEnd (hd (segments sp))) (tl (segments sp))
                      else revSegs (spStart sp) (segments sp)))
                @ [closeSlot c]"
    using Some by (simp add: revSub_def slotsOf_def Let_def)
  show ?thesis
    unfolding r c s
    by (simp add: close_step e closed_segs[OF assms] del: reverseSlots.simps)
qed

lemma slotsAll_last: "sps \<noteq> [] \<Longrightarrow> slotEnd (last (slotsAll sps)) = subEnd (last sps)"
  by (cases sps rule: rev_cases) (simp_all add: slotsAll_def slotsOf_last)

lemma slotsAll_ne: "sps \<noteq> [] \<Longrightarrow> slotsAll sps \<noteq> []"
  by (cases sps) (simp_all add: slotsAll_def)

lemma all_subs:
  assumes "list_all (\<lambda>sp. list_all drawingSlot (segments sp)) sps" "sps \<noteq> []"
  shows "reverseSlots eps (rev (slotsAll sps))
           (q @ [moveSlot (subEnd (last sps))], False, subEnd (last sps), subEnd (last sps))
         = q @ slotsAll (map (revSub eps) (rev sps))"
  using assms
proof (induction sps arbitrary: q rule: rev_induct)
  case Nil
  then show ?case by simp
next
  case (snoc sp sps)
  then have d: "list_all drawingSlot (segments sp)"
    and ds: "list_all (\<lambda>sp. list_all drawingSlot (segments sp)) sps" by simp_all
  have r: "rev (slotsAll (sps @ [sp])) = rev (slotsOf sp) @ rev (slotsAll sps)"
    by (simp add: slotsAll_def)
  show ?case
  proof (cases "sps = []")
    case True
    then show ?thesis
      unfolding r using sub_step[OF d, of eps "[]" q]
      by (simp add: slotsAll_def del: reverseSlots.simps(2))
  next
    case False
    have ne: "rev (slotsAll sps) \<noteq> []" using slotsAll_ne[OF False] by simp
    have hd: "slotEnd (hd (rev (slotsAll sps))) = subEnd (last sps)"
      using slotsAll_last[OF False] slotsAll_ne[OF False] by (simp add: hd_rev)
    have "reverseSlots eps (rev (slotsAll (sps @ [sp])))
           (q @ [moveSlot (subEnd sp)], False, subEnd sp, subEnd sp)
        = reverseSlots eps (rev (slotsAll sps))
            ((q @ slotsOf (revSub eps sp)) @ [moveSlot (subEnd (last sps))], False,
             subEnd (last sps), subEnd (last sps))"
      unfolding r sub_step[OF d] using ne hd by (simp del: reverseSlots.simps)
    also note snoc.IH[OF ds False]
    finally show ?thesis by (simp add: slotsAll_def)
  qed
qed

lemma ReverseS_subpaths:
  assumes "list_all (\<lambda>sp. list_all drawingSlot (segments sp)) sps"
  shows "ReverseS eps (slotsAll sps) = slotsAll (map (revSub eps) (rev sps))"
proof (cases "sps = []")
  case True
  then show ?thesis by (simp add: ReverseS_def slotsAll_def)
next
  case False
  from all_subs[OF assms False, of eps "[]"] show ?thesis
    using slotsAll_ne[OF False] slotsAll_last[OF False]
    by (simp add: ReverseS_def moveSlot_def del: reverseSlots.simps)
qed

text \<open>
  Reversing the drawing commands of a subpath twice gives them back; the end point of the last
  one is the start point handed to the second reversal, which may differ from the original
  end point within the tolerance.
\<close>

lemma Equal_refl: "0 \<le> eps \<Longrightarrow> Equal eps a a"
  by (simp add: Equal_def)

lemma Equal_sym: "Equal eps a b \<Longrightarrow> Equal eps b a"
  by (simp add: Equal_def abs_minus_commute)

lemma Point_Equals_refl: "0 \<le> eps \<Longrightarrow> Point_Equals eps p p"
  by (simp add: Point_Equals_def Equal_refl)

lemma Point_Equals_sym: "Point_Equals eps p q \<Longrightarrow> Point_Equals eps q p"
  by (simp add: Point_Equals_def Equal_sym)

lemma same_refl: "0 \<le> eps \<Longrightarrow> list_all2 (Equal eps) s s"
  by (simp add: list_all2_refl Equal_refl)

lemma approx_refl: "0 \<le> eps \<Longrightarrow> approx eps ss ss"
  by (simp add: approx_def list_all2_refl Equal_refl)

lemma lineSlot_slotEnd: "drawingSlot s \<Longrightarrow> hd s = LineToCmd \<Longrightarrow> lineSlot (slotEnd s) = s"
proof -
  assume d: "drawingSlot s" and h: "hd s = LineToCmd"
  from slot4[OF drawingSlot_slot[OF d]] h obtain a b where "s = [2, a, b, 2]" by auto
  then show ?thesis by (simp add: lineSlot_def slotEnd_def)
qed

lemma flags_twice:
  "f = 0 \<or> f = 1 \<or> f = 2 \<or> f = 3 \<Longrightarrow>
   fromArcFlags
     (fst (toArcFlags (fromArcFlags (fst (toArcFlags f)) (\<not> snd (toArcFlags f)))))
     (\<not> snd (toArcFlags (fromArcFlags (fst (toArcFlags f)) (\<not> snd (toArcFlags f))))) = f"
  by (auto simp: toArcFlags_def fromArcFlags_def)

lemma revSeg_twice_approx:
  assumes d: "drawingSlot s" and eps: "0 \<le> eps" and c: "Point_Equals eps c (slotEnd s)"
  shows "list_all2 (Equal eps) (revSeg c (revSeg e s)) s"
proof -
  from c have cx: "Equal eps (X c) (X (slotEnd s))" and cy: "Equal eps (Y c) (Y (slotEnd s))"
    by (simp_all add: Point_Equals_def)
  note r = Equal_refl[OF eps]
  from drawingSlot_hd[OF d] consider "hd s = LineToCmd" | "hd s = QuadToCmd"
    | "hd s = CubeToCmd" | "hd s = ArcToCmd" by blast
  then show ?thesis
  proof cases
    case 1
    from slot4[OF drawingSlot_slot[OF d]] 1 obtain a b where s: "s = [2, a, b, 2]" by auto
    show ?thesis using cx cy r unfolding s by (simp add: revSeg_def slotEnd_def)
  next
    case 2
    from slot6[OF drawingSlot_slot[OF d]] 2 obtain a b x y where s: "s = [4, a, b, x, y, 4]"
      by auto
    show ?thesis using cx cy r unfolding s by (simp add: revSeg_def slotEnd_def)
  next
    case 3
    from slot8[OF drawingSlot_slot[OF d]] 3 obtain a b a' b' x y where
      s: "s = [8, a, b, a', b', x, y, 8]" by auto
    show ?thesis using cx cy r unfolding s by (simp add: revSeg_def slotEnd_def)
  next
    case 4
    from slot8[OF drawingSlot_slot[OF d]] 4 obtain a b p f x y where
      s: "s = [16, a, b, p, f, x, y, 16]" by auto
    from d 4 s have f: "f = 0 \<or> f = 1 \<or> f = 2 \<or> f = 3" by (simp add: drawingSlot_def)
    show ?thesis using cx cy r flags_twice[OF f] unfolding s
      by (simp add: revSeg_def slotEnd_def)
  qed
qed

lemma revSegs_Nil_iff [simp]: "revSegs m segs = [] \<longleftrightarrow> segs = []"
  by (cases segs) simp_all

lemma last_revSegs: "segs \<noteq> [] \<Longrightarrow> last (revSegs m segs) = revSeg m (hd segs)"
  by (cases segs) simp_all

lemma hd_revSegs:
  "segs \<noteq> [] \<Longrightarrow> hd (revSegs m segs) = revSeg (segEnd m (butlast segs)) (last segs)"
  by (cases segs rule: rev_cases) (simp_all add: revSegs_snoc)

lemma tl_revSegs: "segs \<noteq> [] \<Longrightarrow> tl (revSegs m segs) = revSegs m (butlast segs)"
  by (cases segs rule: rev_cases) (simp_all add: revSegs_snoc)

lemma segEnd_revSegs: "segEnd e (revSegs m segs) = (if segs = [] then e else m)"
  by (simp add: segEnd_def last_revSegs revSeg_end)

lemma revSegs_twice_approx:
  assumes "list_all drawingSlot segs" "0 \<le> eps" "Point_Equals eps c (segEnd m segs)"
  shows "approx eps (revSegs c (revSegs m segs)) segs"
  using assms
proof (induction segs arbitrary: m)
  case Nil
  show ?case by (simp add: approx_def)
next
  case (Cons s ss)
  then have ds: "drawingSlot s" and dss: "list_all drawingSlot ss" by simp_all
  have r: "revSegs c (revSegs m (s # ss))
      = revSeg (segEnd c (revSegs (slotEnd s) ss)) (revSeg m s)
          # revSegs c (revSegs (slotEnd s) ss)"
    by (simp add: revSegs_snoc)
  show ?case
  proof (cases "ss = []")
    case True
    with Cons.prems(3) have "Point_Equals eps c (slotEnd s)" by (simp add: segEnd_def)
    from revSeg_twice_approx[OF ds Cons.prems(2) this, of m] True show ?thesis
      unfolding r by (simp add: approx_def)
  next
    case False
    then have e: "segEnd c (revSegs (slotEnd s) ss) = slotEnd s"
      by (simp add: segEnd_revSegs)
    have h: "list_all2 (Equal eps) (revSeg (slotEnd s) (revSeg m s)) s"
      by (rule revSeg_twice_approx[OF ds Cons.prems(2) Point_Equals_refl[OF Cons.prems(2)]])
    from Cons.prems(3) False have "Point_Equals eps c (segEnd (slotEnd s) ss)"
      by (simp add: segEnd_def)
    from Cons.IH[OF dss Cons.prems(2) this] h show ?thesis
      unfolding r e by (simp add: approx_def)
  qed
qed

lemma closed_twice:
  assumes D: "list_all drawingSlot segs" and eps: "0 \<le> eps" and mc: "Point_Equals eps m c"
    and cond: "segs = []
         \<or> (\<not> (hd (hd segs) = LineToCmd \<and> Point_Equals eps c (slotEnd (hd segs)))
            \<and> \<not> (hd (last segs) = LineToCmd \<and> Point_Equals eps c (slotEnd (last segs))))"
  shows "approx eps
           (segments (revSub eps (Subpath c (segments (revSub eps (Subpath m segs (Some c))))
                                    (Some c))))
           segs"
proof -
  define e where "e = segEnd m segs"
  define segs1 where "segs1 = segments (revSub eps (Subpath m segs (Some c)))"
  have s1: "segs1 = (if Point_Equals eps c e then [] else [lineSlot e])
               @ (if segs \<noteq> [] \<and> hd (hd segs) = LineToCmd
                  then revSegs (slotEnd (hd segs)) (tl segs) else revSegs m segs)"
    by (simp add: segs1_def revSub_def Let_def e_def)
  have s2: "segments (revSub eps (Subpath c segs1 (Some c)))
      = (if Point_Equals eps c (segEnd c segs1) then [] else [lineSlot (segEnd c segs1)])
          @ (if segs1 \<noteq> [] \<and> hd (hd segs1) = LineToCmd
             then revSegs (slotEnd (hd segs1)) (tl segs1) else revSegs c segs1)"
    by (simp add: revSub_def Let_def)
  have cm: "Point_Equals eps c m" by (rule Point_Equals_sym[OF mc])
  have cc: "Point_Equals eps c c" by (rule Point_Equals_refl[OF eps])
  have goal: "approx eps (segments (revSub eps (Subpath c segs1 (Some c)))) segs"
  proof (cases "segs = []")
    case True
    then have "segs1 = []" using cm by (simp add: s1 e_def)
    then show ?thesis using True cc unfolding s2 by (simp add: approx_def)
  next
    case ne: False
    then obtain s rest where sr: "segs = s # rest" by (cases segs) auto
    from D sr have ds: "drawingSlot s" and dr: "list_all drawingSlot rest" by simp_all
    from cond ne have c1: "\<not> (hd s = LineToCmd \<and> Point_Equals eps c (slotEnd s))"
      and c2: "\<not> (hd (last segs) = LineToCmd \<and> Point_Equals eps c e)"
      by (simp_all add: sr e_def segEnd_def)
    have er: "segEnd (slotEnd s) rest = e" by (simp add: e_def sr segEnd_Cons)
    show ?thesis
    proof (cases "hd s = LineToCmd")
      case line: True
      with c1 have nc: "\<not> Point_Equals eps c (slotEnd s)" by simp
      have ls: "lineSlot (slotEnd s) = s" by (rule lineSlot_slotEnd[OF ds line])
      show ?thesis
      proof (cases "Point_Equals eps c e")
        case False
        then have s1': "segs1 = lineSlot e # revSegs (slotEnd s) rest"
          by (simp add: s1 sr line)
        have e1: "segEnd c segs1 = slotEnd s"
          by (cases "rest = []") (simp_all add: s1' segEnd_def last_revSegs revSeg_end e_def sr)
        have "segments (revSub eps (Subpath c segs1 (Some c)))
            = s # revSegs e (revSegs (slotEnd s) rest)"
          unfolding s2 e1 using nc ls by (simp add: s1')
        moreover have "approx eps (revSegs e (revSegs (slotEnd s) rest)) rest"
          by (rule revSegs_twice_approx[OF dr eps]) (simp add: er Point_Equals_refl[OF eps])
        ultimately show ?thesis using same_refl[OF eps, of s] by (simp add: approx_def sr)
      next
        case True
        with nc have rne: "rest \<noteq> []" by (auto simp: e_def sr segEnd_def)
        from True c2 rne have nl: "hd (last rest) \<noteq> LineToCmd" by (simp add: sr)
        from True have s1': "segs1 = revSegs (slotEnd s) rest" by (simp add: s1 sr line)
        have e1: "segEnd c segs1 = slotEnd s" using rne by (simp add: s1' segEnd_revSegs)
        from dr rne have dl: "drawingSlot (last rest)" by (simp add: list_all_iff)
        have h1: "hd (hd segs1) \<noteq> LineToCmd"
          using rne nl by (simp add: s1' hd_revSegs revSeg_hd[OF dl])
        have "segments (revSub eps (Subpath c segs1 (Some c)))
            = s # revSegs c (revSegs (slotEnd s) rest)"
          unfolding s2 e1 using nc ls h1 by (simp add: s1')
        moreover have "approx eps (revSegs c (revSegs (slotEnd s) rest)) rest"
          by (rule revSegs_twice_approx[OF dr eps]) (simp add: er True)
        ultimately show ?thesis using same_refl[OF eps, of s] by (simp add: approx_def sr)
      qed
    next
      case nline: False
      have em: "segEnd c (revSegs m segs) = m" using ne by (simp add: segEnd_revSegs)
      show ?thesis
      proof (cases "Point_Equals eps c e")
        case False
        then have s1': "segs1 = lineSlot e # revSegs m segs"
          using nline by (simp add: s1 sr)
        have e1: "segEnd c segs1 = m"
          using ne by (simp add: s1' segEnd_def last_revSegs revSeg_end)
        have "segments (revSub eps (Subpath c segs1 (Some c))) = revSegs e (revSegs m segs)"
          unfolding s2 e1 using cm by (simp add: s1')
        moreover have "approx eps (revSegs e (revSegs m segs)) segs"
          by (rule revSegs_twice_approx[OF D eps]) (simp add: e_def Point_Equals_refl[OF eps])
        ultimately show ?thesis by simp
      next
        case True
        with c2 have nl: "hd (last segs) \<noteq> LineToCmd" by simp
        from True have s1': "segs1 = revSegs m segs" using nline by (simp add: s1 sr)
        from D ne have dl: "drawingSlot (last segs)" by (simp add: list_all_iff)
        have h1: "hd (hd segs1) \<noteq> LineToCmd"
          using ne nl by (simp add: s1' hd_revSegs revSeg_hd[OF dl])
        have e1: "segEnd c segs1 = m" using ne by (simp add: s1' segEnd_revSegs)
        have "segments (revSub eps (Subpath c segs1 (Some c))) = revSegs c (revSegs m segs)"
          unfolding s2 e1 using cm h1 by (simp add: s1')
        moreover have "approx eps (revSegs c (revSegs m segs)) segs"
          by (rule revSegs_twice_approx[OF D eps]) (simp add: e_def[symmetric] True)
        ultimately show ?thesis by simp
      qed
    qed
  qed
  then show ?thesis by (simp add: segs1_def)
qed

lemma revSub_twice:
  assumes r: "reversible eps sp" and eps: "0 \<le> eps"
  shows "approx eps (slotsOf (revSub eps (revSub eps sp))) (slotsOf sp)"
proof -
  obtain m segs cl where sp: "sp = Subpath m segs cl" by (cases sp) auto
  from r sp have D: "list_all drawingSlot segs" by (simp add: reversible_def)
  show ?thesis
  proof (cases cl)
    case None
    have e: "segEnd (segEnd m segs) (revSegs m segs) = m"
      by (simp add: segEnd_revSegs)
    have "approx eps (revSegs (segEnd m segs) (revSegs m segs)) segs"
      by (rule revSegs_twice_approx[OF D eps]) (simp add: Point_Equals_refl[OF eps])
    then show ?thesis using same_refl[OF eps, of "moveSlot m"]
      by (simp add: sp None revSub_def Let_def slotsOf_def e approx_def)
  next
    case (Some c)
    from r sp Some have mc: "Point_Equals eps m c"
      and cond: "segs = []
         \<or> (\<not> (hd (hd segs) = LineToCmd \<and> Point_Equals eps c (slotEnd (hd segs)))
            \<and> \<not> (hd (last segs) = LineToCmd \<and> Point_Equals eps c (slotEnd (last segs))))"
      by (simp_all add: reversible_def)
    have shape: "revSub eps (Subpath m segs (Some c))
        = Subpath c (segments (revSub eps (Subpath m segs (Some c)))) (Some c)"
      by (simp add: revSub_def Let_def)
    have shape2: "\<And>ss. revSub eps (Subpath c ss (Some c))
        = Subpath c (segments (revSub eps (Subpath c ss (Some c)))) (Some c)"
      by (simp add: revSub_def Let_def)
    have a: "approx eps
        (segments (revSub eps (Subpath c (segments (revSub eps (Subpath m segs (Some c))))
                                  (Some c))))
        segs"
      by (rule closed_twice[OF D eps mc cond])
    have "slotsOf (revSub eps (revSub eps sp))
        = moveSlot c # segments (revSub eps (Subpath c (segments (revSub eps (Subpath m segs (Some c)))) (Some c)))
            @ [closeSlot c]"
      unfolding sp Some by (subst shape, subst shape2) (simp add: slotsOf_def)
    moreover have "list_all2 (Equal eps) (moveSlot c) (moveSlot m)"
      using mc eps by (simp add: moveSlot_def Point_Equals_def Equal_sym Equal_refl)
    ultimately show ?thesis using a same_refl[OF eps, of "closeSlot c"]
      by (simp add: sp Some slotsOf_def approx_def list_all2_appendI)
  qed
qed

lemma drawingSlot_lineSlot [simp]: "drawingSlot (lineSlot p)"
  by (simp add: drawingSlot_def)

lemma revSub_drawing:
  assumes "list_all drawingSlot (segments sp)"
  shows "list_all drawingSlot (segments (revSub eps sp))"
proof (cases "closing sp")
  case None
  then show ?thesis using assms by (simp add: revSub_def Let_def revSegs_drawing)
next
  case (Some c)
  show ?thesis
  proof (cases "segments sp")
    case Nil
    then show ?thesis using Some by (simp add: revSub_def Let_def)
  next
    case (Cons s rest)
    with assms have "list_all drawingSlot rest" by simp
    then have "list_all drawingSlot (revSegs (slotEnd s) rest)" by (rule revSegs_drawing)
    moreover have "list_all drawingSlot (revSegs (spStart sp) (segments sp))"
      by (rule revSegs_drawing[OF assms])
    ultimately show ?thesis using Some Cons by (simp add: revSub_def Let_def)
  qed
qed

lemma slotsOf_slots:
  "list_all drawingSlot (segments sp) \<Longrightarrow> list_all slot (slotsOf sp)"
  by (cases "closing sp") (simp_all add: slotsOf_def list_all_iff drawingSlot_slot)

lemma slotsAll_slots:
  "list_all (\<lambda>sp. list_all drawingSlot (segments sp)) sps \<Longrightarrow> list_all slot (slotsAll sps)"
  by (induction sps) (simp_all add: slotsAll_def slotsOf_slots)

lemma Reverse_pathOf:
  assumes "list_all (\<lambda>sp. list_all drawingSlot (segments sp)) sps"
  shows "Reverse eps (pathOf sps) = Inr (pathOf (map (revSub eps) (rev sps)))"
  unfolding pathOf_def
  by (simp add: Reverse_slots[OF slotsAll_slots[OF assms]] ReverseS_subpaths[OF assms])

lemma Reverse_again_pathOf:
  assumes "list_all (\<lambda>sp. list_all drawingSlot (segments sp)) sps"
  shows "Reverse eps (pathOf (map (revSub eps) (rev sps)))
           = Inr (pathOf (map (\<lambda>sp. revSub eps (revSub eps sp)) sps))"
proof -
  have "list_all (\<lambda>sp. list_all drawingSlot (segments sp)) (map (revSub eps) (rev sps))"
    using assms by (induction sps) (simp_all add: revSub_drawing)
  from Reverse_pathOf[OF this, of eps] show ?thesis by (simp add: rev_map comp_def)
qed

lemma approx_concat:
  "approx eps ss ss' \<Longrightarrow> list_all2 (Equal eps) (concat ss) (concat ss')"
  unfolding approx_def
  by (induction ss ss' rule: list_all2_induct) (simp_all add: list_all2_appendI)

lemma approx_slotsAll:
  assumes "list_all (reversible eps) sps" "0 \<le> eps"
  shows "approx eps (slotsAll (map (\<lambda>sp. revSub eps (revSub eps sp)) sps)) (slotsAll sps)"
  using assms(1)
proof (induction sps)
  case Nil
  show ?case by (simp add: slotsAll_def approx_def)
next
  case (Cons sp sps)
  then have "approx eps (slotsOf (revSub eps (revSub eps sp))) (slotsOf sp)"
    by (simp add: revSub_twice assms(2))
  moreover from Cons have
    "approx eps (slotsAll (map (\<lambda>sp. revSub eps (revSub eps sp)) sps)) (slotsAll sps)"
    by simp
  ultimately show ?case by (simp add: slotsAll_def approx_def list_all2_appendI)
qed

lemma reversible_drawing:
  "list_all (reversible eps) sps \<Longrightarrow> list_all (\<lambda>sp. list_all drawingSlot (segments sp)) sps"
  by (simp add: list_all_iff reversible_def)

lemma revSeg_twice:
  assumes d: "drawingSlot s"
  shows "revSeg (slotEnd s) (revSeg e s) = s"
proof -
  from drawingSlot_hd[OF d] consider "hd s = LineToCmd" | "hd s = QuadToCmd"
    | "hd s = CubeToCmd" | "hd s = ArcToCmd" by blast
  then show ?thesis
  proof cases
    case 1
    from slot4[OF drawingSlot_slot[OF d]] 1 obtain a b where s: "s = [2, a, b, 2]" by auto
    show ?thesis unfolding s by (simp add: revSeg_def slotEnd_def)
  next
    case 2
    from slot6[OF drawingSlot_slot[OF d]] 2 obtain a b x y where s: "s = [4, a, b, x, y, 4]"
      by auto
    show ?thesis unfolding s by (simp add: revSeg_def slotEnd_def)
  next
    case 3
    from slot8[OF drawingSlot_slot[OF d]] 3 obtain a b a' b' x y where
      s: "s = [8, a, b, a', b', x, y, 8]" by auto
    show ?thesis unfolding s by (simp add: revSeg_def slotEnd_def)
  next
    case 4
    from slot8[OF drawingSlot_slot[OF d]] 4 obtain a b p f x y where
      s: "s = [16, a, b, p, f, x, y, 16]" by auto
    from d 4 s have f: "f = 0 \<or> f = 1 \<or> f = 2 \<or> f = 3" by (simp add: drawingSlot_def)
    show ?thesis using flags_twice[OF f] unfolding s
      by (simp add: revSeg_def slotEnd_def)
  qed
qed

lemma revSegs_twice:
  assumes "list_all drawingSlot segs"
  shows "revSegs (segEnd m segs) (revSegs m segs) = segs"
  using assms
proof (induction segs arbitrary: m)
  case Nil
  show ?case by simp
next
  case (Cons s ss)
  then have ds: "drawingSlot s" and dss: "list_all drawingSlot ss" by simp_all
  have e: "segEnd (segEnd (slotEnd s) ss) (revSegs (slotEnd s) ss) = slotEnd s"
    by (cases "ss = []") (simp_all add: segEnd_def last_revSegs revSeg_end)
  have "revSegs (segEnd m (s # ss)) (revSegs m (s # ss))
      = revSeg (slotEnd s) (revSeg m s)
          # revSegs (segEnd (slotEnd s) ss) (revSegs (slotEnd s) ss)"
    by (simp add: revSegs_snoc segEnd_Cons e)
  then show ?case by (simp add: revSeg_twice[OF ds] Cons.IH[OF dss])
qed

lemma open_twice:
  assumes "closing sp = None" "list_all drawingSlot (segments sp)"
  shows "revSub eps (revSub eps sp) = sp"
proof -
  obtain m segs cl where sp: "sp = Subpath m segs cl" by (cases sp) auto
  with assms have cl: "cl = None" and D: "list_all drawingSlot segs" by simp_all
  show ?thesis
    by (simp add: sp cl revSub_def Let_def revSegs_twice[OF D] segEnd_revSegs)
qed

text \<open>
  The condition on a closed subpath is needed: without it the second reversal gives a
  \<open>MoveTo\<close> away from the original one, or fewer values than the subpath has.
\<close>

lemma length_revSeg: "drawingSlot s \<Longrightarrow> length (revSeg e s) = length s"
proof -
  assume d: "drawingSlot s"
  from drawingSlot_hd[OF d] consider "hd s = LineToCmd" | "hd s = QuadToCmd"
    | "hd s = CubeToCmd" | "hd s = ArcToCmd" by blast
  then show ?thesis
  proof cases
    case 1
    from slot4[OF drawingSlot_slot[OF d]] 1 obtain a b where s: "s = [2, a, b, 2]" by auto
    show ?thesis unfolding s by (simp add: revSeg_def)
  next
    case 2
    from slot6[OF drawingSlot_slot[OF d]] 2 obtain a b x y where s: "s = [4, a, b, x, y, 4]"
      by auto
    show ?thesis unfolding s by (simp add: revSeg_def)
  next
    case 3
    from slot8[OF drawingSlot_slot[OF d]] 3 obtain a b a' b' x y where
      s: "s = [8, a, b, a', b', x, y, 8]" by auto
    show ?thesis unfolding s by (simp add: revSeg_def)
  next
    case 4
    from slot8[OF drawingSlot_slot[OF d]] 4 obtain a b p f x y where
      s: "s = [16, a, b, p, f, x, y, 16]" by auto
    show ?thesis unfolding s by (simp add: revSeg_def)
  qed
qed

lemma length_revSegs:
  "list_all drawingSlot segs \<Longrightarrow> length (concat (revSegs m segs)) = length (concat segs)"
  by (induction segs arbitrary: m) (simp_all add: length_revSeg)

lemma length_line: "drawingSlot s \<Longrightarrow> hd s = LineToCmd \<Longrightarrow> length s = 4"
proof -
  assume d: "drawingSlot s" and h: "hd s = LineToCmd"
  from slot4[OF drawingSlot_slot[OF d]] h obtain a b where "s = [2, a, b, 2]" by auto
  then show ?thesis by simp
qed

lemma body_tl:
  assumes "list_all drawingSlot xs" "xs \<noteq> []" "hd (hd xs) = LineToCmd"
  shows "length (concat (revSegs p (tl xs))) + 4 = length (concat xs)"
proof -
  from assms(2) obtain x ys where xs: "xs = x # ys" by (cases xs) auto
  with assms have "drawingSlot x" "list_all drawingSlot ys" "hd x = LineToCmd" by simp_all
  then show ?thesis by (simp add: xs length_revSegs length_line)
qed

lemma body_le:
  assumes "list_all drawingSlot xs"
  shows "length (concat (if xs \<noteq> [] \<and> hd (hd xs) = LineToCmd
                         then revSegs p (tl xs) else revSegs c xs))
           \<le> length (concat xs)"
proof (cases "xs \<noteq> [] \<and> hd (hd xs) = LineToCmd")
  case True
  with body_tl[OF assms, of p] show ?thesis by simp
next
  case False
  then show ?thesis using length_revSegs[OF assms, of c] by auto
qed

lemma closed_shrinks:
  assumes D: "list_all drawingSlot segs" and eps: "0 \<le> eps" and mc: "Point_Equals eps m c"
    and ne: "segs \<noteq> []"
    and viol: "(hd (hd segs) = LineToCmd \<and> Point_Equals eps c (slotEnd (hd segs)))
         \<or> (hd (last segs) = LineToCmd \<and> Point_Equals eps c (slotEnd (last segs)))"
  shows "length (concat
           (segments (revSub eps (Subpath c (segments (revSub eps (Subpath m segs (Some c))))
                                    (Some c)))))
           < length (concat segs)"
proof -
  define e where "e = segEnd m segs"
  define segs1 where "segs1 = segments (revSub eps (Subpath m segs (Some c)))"
  have s1: "segs1 = (if Point_Equals eps c e then [] else [lineSlot e])
               @ (if segs \<noteq> [] \<and> hd (hd segs) = LineToCmd
                  then revSegs (slotEnd (hd segs)) (tl segs) else revSegs m segs)"
    by (simp add: segs1_def revSub_def Let_def e_def)
  have s2: "segments (revSub eps (Subpath c segs1 (Some c)))
      = (if Point_Equals eps c (segEnd c segs1) then [] else [lineSlot (segEnd c segs1)])
          @ (if segs1 \<noteq> [] \<and> hd (hd segs1) = LineToCmd
             then revSegs (slotEnd (hd segs1)) (tl segs1) else revSegs c segs1)"
    by (simp add: revSub_def Let_def)
  have D1: "list_all drawingSlot segs1"
    using revSub_drawing[of "Subpath m segs (Some c)" eps] D by (simp add: segs1_def)
  have cm: "Point_Equals eps c m" by (rule Point_Equals_sym[OF mc])
  have cc: "Point_Equals eps c c" by (rule Point_Equals_refl[OF eps])
  from ne obtain s rest where sr: "segs = s # rest" by (cases segs) auto
  from D sr have ds: "drawingSlot s" and dr: "list_all drawingSlot rest" by simp_all
  have el: "e = slotEnd (last segs)" using ne by (simp add: e_def segEnd_def)
  have goal: "length (concat (segments (revSub eps (Subpath c segs1 (Some c)))))
      < length (concat segs)"
  proof (cases "hd s = LineToCmd \<and> Point_Equals eps c (slotEnd s)")
    case True
    then have line: "hd s = LineToCmd" and ce1: "Point_Equals eps c (slotEnd s)" by simp_all
    have l4: "length s = 4" by (rule length_line[OF ds line])
    have s1': "segs1 = (if Point_Equals eps c e then [] else [lineSlot e])
        @ revSegs (slotEnd s) rest"
      by (simp add: s1 sr line)
    have e1: "Point_Equals eps c (segEnd c segs1)"
    proof (cases "segs1 = []")
      case True
      then show ?thesis using cc by simp
    next
      case False
      have "segEnd c segs1 = slotEnd s"
      proof (cases "rest = []")
        case True
        with False s1' have "segs1 = [lineSlot e]" by (simp split: if_splits)
        moreover from True have "e = slotEnd s" by (simp add: el sr)
        ultimately show ?thesis by (simp add: segEnd_def)
      next
        case False
        then show ?thesis by (simp add: s1' segEnd_def last_revSegs revSeg_end)
      qed
      with ce1 show ?thesis by simp
    qed
    have len1: "length (concat
          (if segs1 \<noteq> [] \<and> hd (hd segs1) = LineToCmd
           then revSegs (slotEnd (hd segs1)) (tl segs1) else revSegs c segs1))
        \<le> length (concat rest)"
    proof (cases "Point_Equals eps c e")
      case True
      then have "segs1 = revSegs (slotEnd s) rest" by (simp add: s1')
      with body_le[OF D1, of "slotEnd (hd segs1)" c] length_revSegs[OF dr, of "slotEnd s"]
      show ?thesis by simp
    next
      case False
      then have f: "segs1 = lineSlot e # revSegs (slotEnd s) rest" by (simp add: s1')
      have "length (concat (revSegs (slotEnd (hd segs1)) (tl segs1))) = length (concat rest)"
        using length_revSegs[OF revSegs_drawing[OF dr], of e "slotEnd s"]
          length_revSegs[OF dr, of "slotEnd s"]
        by (simp add: f)
      then show ?thesis by (simp add: f)
    qed
    show ?thesis unfolding s2 using e1 len1 by (simp add: sr l4)
  next
    case nA: False
    with viol have last_line: "hd (last segs) = LineToCmd" and ce: "Point_Equals eps c e"
      by (simp_all add: sr el)
    show ?thesis
    proof (cases "hd s = LineToCmd")
      case line: True
      with nA have nc: "\<not> Point_Equals eps c (slotEnd s)" by simp
      have l4: "length s = 4" by (rule length_line[OF ds line])
      from ce nc have rne: "rest \<noteq> []" by (auto simp: el sr)
      from ce have s1': "segs1 = revSegs (slotEnd s) rest" by (simp add: s1 sr line)
      from dr rne have dl: "drawingSlot (last rest)" by (simp add: list_all_iff)
      have h1: "hd (hd segs1) = LineToCmd"
        using rne last_line by (simp add: s1' hd_revSegs revSeg_hd[OF dl] sr)
      have n1: "segs1 \<noteq> []" using rne by (simp add: s1')
      have e1: "segEnd c segs1 = slotEnd s" using rne by (simp add: s1' segEnd_revSegs)
      have "length (concat (revSegs (slotEnd (hd segs1)) (tl segs1))) + 4
          = length (concat rest)"
        using body_tl[OF D1 n1 h1, of "slotEnd (hd segs1)"] length_revSegs[OF dr, of "slotEnd s"]
        by (simp add: s1')
      then show ?thesis unfolding s2 e1 using nc h1 n1 by (simp add: sr l4 lineSlot_def)
    next
      case nline: False
      from ce have s1': "segs1 = revSegs m segs" using nline by (simp add: s1 sr)
      from D ne have dl: "drawingSlot (last segs)" by (simp add: list_all_iff)
      have h1: "hd (hd segs1) = LineToCmd"
        using ne last_line by (simp add: s1' hd_revSegs revSeg_hd[OF dl])
      have n1: "segs1 \<noteq> []" using ne by (simp add: s1')
      have e1: "segEnd c segs1 = m" using ne by (simp add: s1' segEnd_revSegs)
      have "length (concat (revSegs (slotEnd (hd segs1)) (tl segs1))) + 4
          = length (concat segs)"
        using body_tl[OF D1 n1 h1, of "slotEnd (hd segs1)"] length_revSegs[OF D, of m]
        by (simp add: s1')
      then show ?thesis unfolding s2 e1 using cm h1 n1 by simp
    qed
  qed
  then show ?thesis by (simp add: segs1_def)
qed

lemma not_reversible:
  assumes eps: "0 \<le> eps" and D: "list_all drawingSlot segs"
    and nr: "\<not> reversible eps (Subpath m segs (Some c))"
  shows "\<not> Equals eps (pathOf [revSub eps (revSub eps (Subpath m segs (Some c)))])
           (pathOf [Subpath m segs (Some c)])"
proof -
  let ?segs2 = "segments (revSub eps (Subpath c (segments (revSub eps (Subpath m segs (Some c))))
                                    (Some c)))"
  have shape: "revSub eps (Subpath m segs (Some c))
      = Subpath c (segments (revSub eps (Subpath m segs (Some c)))) (Some c)"
    by (simp add: revSub_def Let_def)
  have shape2: "\<And>ss. revSub eps (Subpath c ss (Some c))
      = Subpath c (segments (revSub eps (Subpath c ss (Some c)))) (Some c)"
    by (simp add: revSub_def Let_def)
  have r: "pathOf [revSub eps (revSub eps (Subpath m segs (Some c)))]
      = [MoveToCmd, X c, Y c, MoveToCmd] @ concat ?segs2 @ [CloseCmd, X c, Y c, CloseCmd]"
    by (subst shape, subst shape2)
      (simp add: pathOf_def slotsAll_def slotsOf_def moveSlot_def closeSlot_def)
  have p: "pathOf [Subpath m segs (Some c)]
      = [MoveToCmd, X m, Y m, MoveToCmd] @ concat segs @ [CloseCmd, X c, Y c, CloseCmd]"
    by (simp add: pathOf_def slotsAll_def slotsOf_def moveSlot_def closeSlot_def)
  show ?thesis
  proof (cases "Point_Equals eps m c")
    case False
    then have "\<not> Point_Equals eps c m" using Point_Equals_sym by blast
    then show ?thesis unfolding r p by (auto simp: Equals_def Point_Equals_def)
  next
    case True
    with nr D have ne: "segs \<noteq> []"
      and viol: "(hd (hd segs) = LineToCmd \<and> Point_Equals eps c (slotEnd (hd segs)))
         \<or> (hd (last segs) = LineToCmd \<and> Point_Equals eps c (slotEnd (last segs)))"
      by (auto simp: reversible_def)
    from closed_shrinks[OF D eps True ne viol] show ?thesis
      unfolding r p by (simp add: Equals_def)
  qed
qed

text \<open>
  Claim C5, amended: reversing twice gives the path back, within the tolerance, for the paths
  made of subpaths (a \<open>MoveTo\<close>, then \<open>LineTo\<close>, \<open>QuadTo\<close>, \<open>CubeTo\<close> and \<open>ArcTo\<close> commands with
  the arc flags that the mutators store, then possibly a \<open>Close\<close>) in which the point stored
  in each \<open>Close\<close> equals the start point of its subpath within the tolerance but is not
  within the tolerance of the end point of a first \<open>LineTo\<close> or of a last \<open>LineTo\<close> of that
  subpath, and for a tolerance that is not negative: \<open>Reverse\<close> returns a path on the path
  and on its result, and the second result \<open>Equals\<close> the path. For a path whose subpaths are
  all open, the second result is the path itself, for every tolerance. For a path that is
  one closed subpath the condition is also necessary: without it the second result does
  not equal the path. So the property does not hold for every path.
\<close>

theorem Reverse_twice:
  "(0 \<le> eps \<and> list_all (reversible eps) sps \<longrightarrow>
      (\<exists>q r. Reverse eps (pathOf sps) = Inr q \<and> Reverse eps q = Inr r
             \<and> Equals eps r (pathOf sps)))
   \<and> (list_all (\<lambda>sp. closing sp = None \<and> list_all drawingSlot (segments sp)) ops \<longrightarrow>
        (\<exists>q. Reverse eps (pathOf ops) = Inr q \<and> Reverse eps q = Inr (pathOf ops)))
   \<and> (0 \<le> eps \<and> list_all drawingSlot segs \<and> \<not> reversible eps (Subpath m segs (Some c)) \<longrightarrow>
        (\<exists>q r. Reverse eps (pathOf [Subpath m segs (Some c)]) = Inr q \<and> Reverse eps q = Inr r
               \<and> \<not> Equals eps r (pathOf [Subpath m segs (Some c)])))"
proof (intro conjI impI)
  assume a: "0 \<le> eps \<and> list_all (reversible eps) sps"
  then have eps: "0 \<le> eps" and r: "list_all (reversible eps) sps" by simp_all
  note D = reversible_drawing[OF r]
  have "list_all2 (Equal eps) (pathOf (map (\<lambda>sp. revSub eps (revSub eps sp)) sps)) (pathOf sps)"
    unfolding pathOf_def by (rule approx_concat[OF approx_slotsAll[OF r eps]])
  then have "Equals eps (pathOf (map (\<lambda>sp. revSub eps (revSub eps sp)) sps)) (pathOf sps)"
    by (simp add: Equals_def list_all2_lengthD)
  with Reverse_pathOf[OF D, of eps] Reverse_again_pathOf[OF D, of eps]
  show "\<exists>q r. Reverse eps (pathOf sps) = Inr q \<and> Reverse eps q = Inr r
             \<and> Equals eps r (pathOf sps)"
    by blast
next
  assume o: "list_all (\<lambda>sp. closing sp = None \<and> list_all drawingSlot (segments sp)) ops"
  then have D: "list_all (\<lambda>sp. list_all drawingSlot (segments sp)) ops"
    by (simp add: list_all_iff)
  from o have "map (\<lambda>sp. revSub eps (revSub eps sp)) ops = ops"
    by (induction ops) (simp_all add: open_twice)
  with Reverse_pathOf[OF D, of eps] Reverse_again_pathOf[OF D, of eps]
  show "\<exists>q. Reverse eps (pathOf ops) = Inr q \<and> Reverse eps q = Inr (pathOf ops)"
    by simp
next
  assume a: "0 \<le> eps \<and> list_all drawingSlot segs \<and> \<not> reversible eps (Subpath m segs (Some c))"
  then have D: "list_all (\<lambda>sp. list_all drawingSlot (segments sp)) [Subpath m segs (Some c)]"
    by simp
  from a have "\<not> Equals eps (pathOf [revSub eps (revSub eps (Subpath m segs (Some c)))])
      (pathOf [Subpath m segs (Some c)])"
    by (simp add: not_reversible)
  with Reverse_pathOf[OF D, of eps] Reverse_again_pathOf[OF D, of eps]
  show "\<exists>q r. Reverse eps (pathOf [Subpath m segs (Some c)]) = Inr q \<and> Reverse eps q = Inr r
             \<and> \<not> Equals eps r (pathOf [Subpath m segs (Some c)])"
    by simp
qed

text \<open>
  The theorem at the path \<open>M5 5 L5 10 L10 5 M10 10 Q15 15 20 10 L20 0 z\<close>, an open and a
  closed subpath, with the tolerance \<open>1 / 10 ^ 10\<close>; at the open path
  \<open>M5 5 A5 5 0 1 0 10 5 C10 0 5 0 5 5\<close> with a negative tolerance; and at
  \<open>M0 0 Q5 5 10 0 L0 0 z\<close>, whose last \<open>LineTo\<close> ends at the point of the \<open>Close\<close>.
\<close>

theorem Reverse_twice_witness:
  "list_all (reversible (1 / 10 ^ 10))
     [Subpath (Point 5 5) [[2, 5, 10, 2], [2, 10, 5, 2]] None,
      Subpath (Point 10 10) [[4, 15, 15, 20, 10, 4], [2, 20, 0, 2]] (Some (Point 10 10))]
   \<and> pathOf
       [Subpath (Point 5 5) [[2, 5, 10, 2], [2, 10, 5, 2]] None,
        Subpath (Point 10 10) [[4, 15, 15, 20, 10, 4], [2, 20, 0, 2]] (Some (Point 10 10))]
       = [1, 5, 5, 1, 2, 5, 10, 2, 2, 10, 5, 2,
          1, 10, 10, 1, 4, 15, 15, 20, 10, 4, 2, 20, 0, 2, 32, 10, 10, 32]
   \<and> Reverse (1 / 10 ^ 10)
         [1, 5, 5, 1, 2, 5, 10, 2, 2, 10, 5, 2,
          1, 10, 10, 1, 4, 15, 15, 20, 10, 4, 2, 20, 0, 2, 32, 10, 10, 32]
       = Inr [1, 10, 10, 1, 2, 20, 0, 2, 2, 20, 10, 2, 4, 15, 15, 10, 10, 4, 32, 10, 10, 32,
              1, 10, 5, 1, 2, 5, 10, 2, 2, 5, 5, 2]
   \<and> (\<exists>r. Reverse (1 / 10 ^ 10)
              [1, 10, 10, 1, 2, 20, 0, 2, 2, 20, 10, 2, 4, 15, 15, 10, 10, 4, 32, 10, 10, 32,
               1, 10, 5, 1, 2, 5, 10, 2, 2, 5, 5, 2] = Inr r
            \<and> Equals (1 / 10 ^ 10) r
                 [1, 5, 5, 1, 2, 5, 10, 2, 2, 10, 5, 2,
                  1, 10, 10, 1, 4, 15, 15, 20, 10, 4, 2, 20, 0, 2, 32, 10, 10, 32])
   \<and> pathOf [Subpath (Point 5 5) [[16, 5, 5, 0, 1, 10, 5, 16], [8, 10, 0, 5, 0, 5, 5, 8]] None]
       = [1, 5, 5, 1, 16, 5, 5, 0, 1, 10, 5, 16, 8, 10, 0, 5, 0, 5, 5, 8]
   \<and> Reverse (- 1) [1, 5, 5, 1, 16, 5, 5, 0, 1, 10, 5, 16, 8, 10, 0, 5, 0, 5, 5, 8]
       = Inr [1, 5, 5, 1, 8, 5, 0, 10, 0, 10, 5, 8, 16, 5, 5, 0, 3, 5, 5, 16]
   \<and> Reverse (- 1) [1, 5, 5, 1, 8, 5, 0, 10, 0, 10, 5, 8, 16, 5, 5, 0, 3, 5, 5, 16]
       = Inr [1, 5, 5, 1, 16, 5, 5, 0, 1, 10, 5, 16, 8, 10, 0, 5, 0, 5, 5, 8]
   \<and> \<not> reversible (1 / 10 ^ 10)
         (Subpath (Point 0 0) [[4, 5, 5, 10, 0, 4], [2, 0, 0, 2]] (Some (Point 0 0)))
   \<and> pathOf [Subpath (Point 0 0) [[4, 5, 5, 10, 0, 4], [2, 0, 0, 2]] (Some (Point 0 0))]
       = [1, 0, 0, 1, 4, 5, 5, 10, 0, 4, 2, 0, 0, 2, 32, 0, 0, 32]
   \<and> (\<exists>q r. Reverse (1 / 10 ^ 10) [1, 0, 0, 1, 4, 5, 5, 10, 0, 4, 2, 0, 0, 2, 32, 0, 0, 32]
                = Inr q
              \<and> Reverse (1 / 10 ^ 10) q = Inr r
              \<and> \<not> Equals (1 / 10 ^ 10) r
                   [1, 0, 0, 1, 4, 5, 5, 10, 0, 4, 2, 0, 0, 2, 32, 0, 0, 32])"
proof -
  let ?seg = "[[4, 5, 5, 10, 0, 4], [2, 0, 0, 2]] :: real list list"
  let ?e = "1 / 10 ^ 10 :: real"
  let ?sps = "[Subpath (Point 5 5) [[2, 5, 10, 2], [2, 10, 5, 2]] None,
      Subpath (Point 10 10) [[4, 15, 15, 20, 10, 4], [2, 20, 0, 2]] (Some (Point 10 10))]"
  let ?ops = "[Subpath (Point 5 5) [[16, 5, 5, 0, 1, 10, 5, 16], [8, 10, 0, 5, 0, 5, 5, 8]] None]"
  note ev = pathOf_def slotsAll_def slotsOf_def moveSlot_def closeSlot_def lineSlot_def
    revSub_def Let_def segEnd_def slotEnd_def revSeg_def Point_Equals_def Equal_def
    toArcFlags_def fromArcFlags_def
  have eps: "0 \<le> ?e" by simp
  have rv: "list_all (reversible ?e) ?sps"
    by (simp add: reversible_def drawingSlot_def slot_def slotEnd_def Point_Equals_def
        Equal_def)
  have op: "list_all (\<lambda>sp. closing sp = None \<and> list_all drawingSlot (segments sp)) ?ops"
    by (simp add: drawingSlot_def slot_def)
  have p: "pathOf ?sps = [1, 5, 5, 1, 2, 5, 10, 2, 2, 10, 5, 2,
          1, 10, 10, 1, 4, 15, 15, 20, 10, 4, 2, 20, 0, 2, 32, 10, 10, 32]"
    by (simp add: ev)
  have po: "pathOf ?ops = [1, 5, 5, 1, 16, 5, 5, 0, 1, 10, 5, 16, 8, 10, 0, 5, 0, 5, 5, 8]"
    by (simp add: ev)
  have q: "Reverse ?e (pathOf ?sps)
      = Inr [1, 10, 10, 1, 2, 20, 0, 2, 2, 20, 10, 2, 4, 15, 15, 10, 10, 4, 32, 10, 10, 32,
             1, 10, 5, 1, 2, 5, 10, 2, 2, 5, 5, 2]"
    by (subst Reverse_pathOf[OF reversible_drawing[OF rv]]) (simp add: ev)
  have qo: "Reverse (- 1) (pathOf ?ops)
      = Inr [1, 5, 5, 1, 8, 5, 0, 10, 0, 10, 5, 8, 16, 5, 5, 0, 3, 5, 5, 16]"
    by (subst Reverse_pathOf) (simp_all add: ev drawingSlot_def slot_def)
  have ds: "list_all drawingSlot ?seg" by (simp add: drawingSlot_def slot_def)
  have nr: "\<not> reversible ?e (Subpath (Point 0 0) ?seg (Some (Point 0 0)))"
    by (simp add: reversible_def slotEnd_def Point_Equals_def Equal_def)
  have pn: "pathOf [Subpath (Point 0 0) ?seg (Some (Point 0 0))]
      = [1, 0, 0, 1, 4, 5, 5, 10, 0, 4, 2, 0, 0, 2, 32, 0, 0, 32]"
    by (simp add: ev)
  note inst = Reverse_twice[of ?e ?sps ?ops ?seg "Point 0 0" "Point 0 0"]
  from inst[THEN conjunct1] eps rv obtain q' r where
    "Reverse ?e (pathOf ?sps) = Inr q'" "Reverse ?e q' = Inr r" "Equals ?e r (pathOf ?sps)"
    by blast
  with q have c1: "\<exists>r. Reverse ?e
        [1, 10, 10, 1, 2, 20, 0, 2, 2, 20, 10, 2, 4, 15, 15, 10, 10, 4, 32, 10, 10, 32,
         1, 10, 5, 1, 2, 5, 10, 2, 2, 5, 5, 2] = Inr r \<and> Equals ?e r (pathOf ?sps)"
    by auto
  from inst[THEN conjunct2, THEN conjunct2] eps ds nr have c3:
    "\<exists>q r. Reverse ?e (pathOf [Subpath (Point 0 0) ?seg (Some (Point 0 0))]) = Inr q
       \<and> Reverse ?e q = Inr r
       \<and> \<not> Equals ?e r (pathOf [Subpath (Point 0 0) ?seg (Some (Point 0 0))])"
    by blast
  note inst2 = Reverse_twice[of "- 1" ?sps ?ops]
  from inst2[THEN conjunct2, THEN conjunct1] op obtain q' where
    "Reverse (- 1) (pathOf ?ops) = Inr q'" "Reverse (- 1) q' = Inr (pathOf ?ops)"
    by blast
  with qo have c2: "Reverse (- 1) [1, 5, 5, 1, 8, 5, 0, 10, 0, 10, 5, 8, 16, 5, 5, 0, 3, 5, 5, 16]
      = Inr (pathOf ?ops)"
    by auto
  show ?thesis
    using rv p q c1 po qo c2 nr pn c3 unfolding p po pn by (intro conjI) assumption+
qed

text \<open>
  Claim C5 as stated covers every path. The path \<open>M0 0 L1 0 L0 0 z\<close> reverses to
  \<open>M0 0 L1 0 z\<close>, which reverses to itself: twelve values against sixteen. A path built
  through the mutators fails as well: with the tolerance \<open>0.001\<close>, \<open>MoveTo(0, 0)\<close>,
  \<open>LineTo(0.0014, 0)\<close>, \<open>LineTo(0.0024, 0.0024)\<close>, \<open>LineTo(0.0006, 0)\<close>, \<open>Close()\<close> build
  \<open>M0 0 L0.0014 0 L0.0024 0.0024 z\<close> with \<open>(0.0006, 0)\<close> stored in the \<open>Close\<close>, and
  reversing it twice gives \<open>M0.0006 0 L0.0024 0.0024 z\<close>.
\<close>

theorem Reverse_twice_drops_a_LineTo:
  "Reverse (1 / 10 ^ 10) [1, 0, 0, 1, 2, 1, 0, 2, 2, 0, 0, 2, 32, 0, 0, 32]
     = Inr [1, 0, 0, 1, 2, 1, 0, 2, 32, 0, 0, 32]
   \<and> Reverse (1 / 10 ^ 10) [1, 0, 0, 1, 2, 1, 0, 2, 32, 0, 0, 32]
       = Inr [1, 0, 0, 1, 2, 1, 0, 2, 32, 0, 0, 32]
   \<and> \<not> Equals (1 / 10 ^ 10) [1, 0, 0, 1, 2, 1, 0, 2, 32, 0, 0, 32]
         [1, 0, 0, 1, 2, 1, 0, 2, 2, 0, 0, 2, 32, 0, 0, 32]
   \<and> build (tolerance (1 / 1000)) []
        [CallMoveTo 0 0, CallLineTo (7 / 5000) 0, CallLineTo (3 / 1250) (3 / 1250),
         CallLineTo (3 / 5000) 0, CallClose]
       = Inr [1, 0, 0, 1, 2, 7 / 5000, 0, 2, 2, 3 / 1250, 3 / 1250, 2, 32, 3 / 5000, 0, 32]
   \<and> Reverse (1 / 1000)
         [1, 0, 0, 1, 2, 7 / 5000, 0, 2, 2, 3 / 1250, 3 / 1250, 2, 32, 3 / 5000, 0, 32]
       = Inr [1, 3 / 5000, 0, 1, 2, 3 / 1250, 3 / 1250, 2, 2, 7 / 5000, 0, 2, 32, 3 / 5000, 0, 32]
   \<and> Reverse (1 / 1000)
         [1, 3 / 5000, 0, 1, 2, 3 / 1250, 3 / 1250, 2, 2, 7 / 5000, 0, 2, 32, 3 / 5000, 0, 32]
       = Inr [1, 3 / 5000, 0, 1, 2, 3 / 1250, 3 / 1250, 2, 32, 3 / 5000, 0, 32]
   \<and> \<not> Equals (1 / 1000) [1, 3 / 5000, 0, 1, 2, 3 / 1250, 3 / 1250, 2, 32, 3 / 5000, 0, 32]
         [1, 0, 0, 1, 2, 7 / 5000, 0, 2, 2, 3 / 1250, 3 / 1250, 2, 32, 3 / 5000, 0, 32]"
proof -
  let ?u = "tolerance (1 / 1000)"
  note ev = pathOf_def slotsAll_def slotsOf_def moveSlot_def closeSlot_def lineSlot_def
    revSub_def Let_def segEnd_def slotEnd_def revSeg_def Point_Equals_def Equal_def
  note line = LineTo_def Pos_path_def openSubpath_def Let_def Point_Equals_def Equal_def
    Point_Sub_def Point_PerpDot_def Point_Length_def Signbit_def
  have roots: "sqrt (49 / 25000000) = 7 / 5000" "sqrt (169 / 25000000) = 13 / 5000"
    "sqrt (9 / 1000000) = 3 / 1000"
    by (rule real_sqrt_unique; simp add: power2_eq_square)+
  have a1: "Reverse (1 / 10 ^ 10)
        (pathOf [Subpath (Point 0 0) [[2, 1, 0, 2], [2, 0, 0, 2]] (Some (Point 0 0))])
      = Inr [1, 0, 0, 1, 2, 1, 0, 2, 32, 0, 0, 32]"
    by (subst Reverse_pathOf) (simp_all add: ev drawingSlot_def slot_def)
  have a2: "Reverse (1 / 10 ^ 10)
        (pathOf [Subpath (Point 0 0) [[2, 1, 0, 2]] (Some (Point 0 0))])
      = Inr [1, 0, 0, 1, 2, 1, 0, 2, 32, 0, 0, 32]"
    by (subst Reverse_pathOf) (simp_all add: ev drawingSlot_def slot_def)
  have b1: "LineTo ?u [1, 0, 0, 1] (7 / 5000) 0 = Inr [1, 0, 0, 1, 2, 7 / 5000, 0, 2]"
    by (simp add: line)
  have b2: "LineTo ?u [1, 0, 0, 1, 2, 7 / 5000, 0, 2] (3 / 1250) (3 / 1250)
      = Inr [1, 0, 0, 1, 2, 7 / 5000, 0, 2, 2, 3 / 1250, 3 / 1250, 2]"
    by (simp add: line roots)
  have b3: "LineTo ?u [1, 0, 0, 1, 2, 7 / 5000, 0, 2, 2, 3 / 1250, 3 / 1250, 2] (3 / 5000) 0
      = Inr [1, 0, 0, 1, 2, 7 / 5000, 0, 2, 2, 3 / 1250, 3 / 1250, 2, 2, 3 / 5000, 0, 2]"
    by (simp add: line roots)
  have b4: "Close ?u
        [1, 0, 0, 1, 2, 7 / 5000, 0, 2, 2, 3 / 1250, 3 / 1250, 2, 2, 3 / 5000, 0, 2]
      = Inr [1, 0, 0, 1, 2, 7 / 5000, 0, 2, 2, 3 / 1250, 3 / 1250, 2, 32, 3 / 5000, 0, 32]"
    by (simp add: Close_def StartPos_def StartPos_from.simps Let_def Equal_def)
  have b: "build ?u []
        [CallMoveTo 0 0, CallLineTo (7 / 5000) 0, CallLineTo (3 / 1250) (3 / 1250),
         CallLineTo (3 / 5000) 0, CallClose]
      = Inr [1, 0, 0, 1, 2, 7 / 5000, 0, 2, 2, 3 / 1250, 3 / 1250, 2, 32, 3 / 5000, 0, 32]"
    by (simp add: b1 b2 b3 b4 MoveTo_def)
  have c1: "Reverse (1 / 1000)
        (pathOf [Subpath (Point 0 0) [[2, 7 / 5000, 0, 2], [2, 3 / 1250, 3 / 1250, 2]]
                   (Some (Point (3 / 5000) 0))])
      = Inr [1, 3 / 5000, 0, 1, 2, 3 / 1250, 3 / 1250, 2, 2, 7 / 5000, 0, 2, 32, 3 / 5000, 0, 32]"
    by (subst Reverse_pathOf) (simp_all add: ev drawingSlot_def slot_def)
  have c2: "Reverse (1 / 1000)
        (pathOf [Subpath (Point (3 / 5000) 0) [[2, 3 / 1250, 3 / 1250, 2], [2, 7 / 5000, 0, 2]]
                   (Some (Point (3 / 5000) 0))])
      = Inr [1, 3 / 5000, 0, 1, 2, 3 / 1250, 3 / 1250, 2, 32, 3 / 5000, 0, 32]"
    by (subst Reverse_pathOf) (simp_all add: ev drawingSlot_def slot_def)
  have n: "\<And>e p q. length p \<noteq> length q \<Longrightarrow> \<not> Equals e p q" by (simp add: Equals_def)
  show ?thesis
    using a1 a2 b c1 c2 by (simp add: ev n)
qed

end
